(* ===== verification/Prelude.thy ===== *)
theory Prelude
  imports Main "HOL-Library.Word"
begin

text \<open>
  Shared material of the development: the status codes and results of the C++ code
  (\<^verbatim>\<open>src/src/yb/util/status.h\<close>, \<^verbatim>\<open>src/src/yb/util/result.h\<close>), slices as byte
  lists with the bytewise order RocksDB keeps its keys in
  (\<^verbatim>\<open>src/src/yb/util/slice.h\<close>), big-endian values of byte lists, and the generic
  lemmas on lists and words that the components use.

  A \<^verbatim>\<open>Status\<close> keeps its code only; messages are dropped. A failed \<^verbatim>\<open>CHECK\<close> or a
  \<^verbatim>\<open>LOG(FATAL)\<close> ends the process: that outcome is \<open>Fatal\<close>, a value of its own, so
  that a theorem can say it does not happen. \<open>Undefined\<close> marks the places where the C++
  code would have undefined behaviour (the front of an empty deque, the top of an empty
  heap).
\<close>

unbundle bit_operations_syntax

subsection \<open>Machine types\<close>

type_synonym byte = "8 word"
type_synonym bytes = "byte list"
type_synonym u16 = "16 word"
type_synonym u32 = "32 word"
type_synonym u64 = "64 word"

subsection \<open>Status codes and results\<close>

datatype status_code =
    NotFound | Corruption | NotSupported | InvalidArgument | IOError | AlreadyPresent
  | RuntimeError | NetworkError | IllegalState | NotAuthorized | Aborted | RemoteError
  | ServiceUnavailable | TimedOut | Uninitialized | ConfigurationError | Incomplete
  | EndOfFile | InvalidCommand | QLError | InternalError | Expired | LeaderNotReadyToServe
  | LeaderHasNoLease | TryAgain | Busy | ShutdownInProgress | MergeInProgress | Combined
  | SnapshotTooOld

datatype failure = Status status_code | Fatal | Undefined

type_synonym 'a result = "failure + 'a"

text \<open>\<^verbatim>\<open>VERIFY_RESULT\<close> and \<^verbatim>\<open>RETURN_NOT_OK\<close>: go on with the value, or return the error.\<close>

definition verify_result :: "'a result \<Rightarrow> ('a \<Rightarrow> 'b result) \<Rightarrow> 'b result" where
  "verify_result r k = (case r of Inl e \<Rightarrow> Inl e | Inr x \<Rightarrow> k x)"

text \<open>\<^verbatim>\<open>CHECK(cond)\<close>: the process dies when the condition is false.\<close>

definition check_that :: "bool \<Rightarrow> 'a result \<Rightarrow> 'a result" where
  "check_that b r = (if b then r else Inl Fatal)"

subsection \<open>Slices\<close>

text \<open>
  \<^verbatim>\<open>MemCompare\<close> compares the first \<^verbatim>\<open>min_len\<close> bytes as unsigned values, as
  \<^verbatim>\<open>memcmp\<close> does; \<^verbatim>\<open>Slice::compare\<close> then looks at the lengths. Only the sign of the
  result is used by callers, and the model returns it.
\<close>

fun mem_compare :: "bytes \<Rightarrow> bytes \<Rightarrow> nat \<Rightarrow> int" where
  "mem_compare (x # xs) (y # ys) (Suc n) =
     (if x < y then - 1 else if y < x then 1 else mem_compare xs ys n)"
| "mem_compare _ _ _ = 0"

definition slice_compare :: "bytes \<Rightarrow> bytes \<Rightarrow> int" where
  "slice_compare a b =
     (let min_len = min (length a) (length b); r = mem_compare a b min_len
      in if r = 0 then
           (if length a < length b then - 1 else if length a > length b then 1 else r)
         else r)"

text \<open>The order itself, as a recursion on both lists: what the proofs about keys use.\<close>

fun bytes_less :: "bytes \<Rightarrow> bytes \<Rightarrow> bool" where
  "bytes_less _ [] = False"
| "bytes_less [] (y # ys) = True"
| "bytes_less (x # xs) (y # ys) = (x < y \<or> x = y \<and> bytes_less xs ys)"

text \<open>
  The two lists differ at a position both have, and the first is smaller there: what is
  appended to them does not change their order.
\<close>

fun bytes_prec :: "bytes \<Rightarrow> bytes \<Rightarrow> bool" where
  "bytes_prec (x # xs) (y # ys) = (x < y \<or> x = y \<and> bytes_prec xs ys)"
| "bytes_prec _ _ = False"

text \<open>Big-endian value of a byte list, and the \<open>n\<close> low bytes of a number.\<close>

fun be_val :: "bytes \<Rightarrow> nat" where
  "be_val [] = 0"
| "be_val (b # bs) = unat b * 256 ^ length bs + be_val bs"

fun be_bytes :: "nat \<Rightarrow> nat \<Rightarrow> bytes" where
  "be_bytes 0 v = []"
| "be_bytes (Suc n) v = of_nat (v div 256 ^ n) # be_bytes n v"

subsection \<open>Collections of simplification rules\<close>

named_theorems result_simps \<open>equations for results\<close>
named_theorems bytes_simps \<open>equations for byte lists and their order\<close>

subsection \<open>Results\<close>

lemma verify_result_Inr [simp, result_simps]: "verify_result (Inr x) k = k x"
  by (simp add: verify_result_def)

lemma verify_result_Inl [simp, result_simps]: "verify_result (Inl e) k = Inl e"
  by (simp add: verify_result_def)

lemma verify_result_eq_Inr [result_simps]:
  "verify_result r k = Inr y \<longleftrightarrow> (\<exists>x. r = Inr x \<and> k x = Inr y)"
  by (cases r) auto

lemma check_that_True [simp]: "check_that True r = r"
  by (simp add: check_that_def)

lemma check_that_eq_Inr [result_simps]: "check_that b r = Inr x \<longleftrightarrow> b \<and> r = Inr x"
  by (simp add: check_that_def)

subsection \<open>The order of slices\<close>

lemma mem_compare_range: "mem_compare xs ys n \<in> {- 1, 0, 1}"
  by (induction xs ys n rule: mem_compare.induct) auto

lemma slice_compare_less_iff: "slice_compare a b < 0 \<longleftrightarrow> bytes_less a b"
proof (induction a b rule: bytes_less.induct)
  case (3 x xs y ys)
  have "slice_compare (x # xs) (y # ys) =
    (if x < y then - 1 else if y < x then 1 else slice_compare xs ys)"
    by (simp add: slice_compare_def Let_def)
  with 3 show ?case by auto
qed (auto simp: slice_compare_def)

lemma bytes_less_irrefl [simp]: "\<not> bytes_less xs xs"
  by (induction xs) auto

lemma bytes_less_trans: "bytes_less xs ys \<Longrightarrow> bytes_less ys zs \<Longrightarrow> bytes_less xs zs"
proof (induction xs ys arbitrary: zs rule: bytes_less.induct)
  case (2 y ys)
  then show ?case by (cases zs) auto
next
  case (3 x xs y ys)
  then show ?case by (cases zs) auto
qed auto

lemma bytes_less_linear: "bytes_less xs ys \<or> xs = ys \<or> bytes_less ys xs"
proof (induction xs ys rule: bytes_less.induct)
  case (1 xs)
  then show ?case by (cases xs) auto
qed auto

lemma bytes_less_append_same [simp, bytes_simps]:
  "bytes_less (zs @ xs) (zs @ ys) = bytes_less xs ys"
  by (induction zs) auto

text \<open>
  Two lists of the same length that differ decide the order of anything appended to them.
\<close>

lemma bytes_less_append_left:
  "length xs = length ys \<Longrightarrow> bytes_less xs ys \<Longrightarrow> bytes_less (xs @ us) (ys @ vs)"
  by (induction xs ys rule: list_induct2) auto

lemma bytes_less_take:
  assumes "bytes_less (take n xs) (take n ys)" and "n \<le> length xs" and "n \<le> length ys"
  shows "bytes_less xs ys"
  using bytes_less_append_left [of "take n xs" "take n ys" "drop n xs" "drop n ys"] assms
  by simp

lemma bytes_prec_append: "bytes_prec xs ys \<Longrightarrow> bytes_prec (xs @ us) (ys @ vs)"
  by (induction xs ys rule: bytes_prec.induct) auto

lemma bytes_prec_append_same [simp, bytes_simps]:
  "bytes_prec (zs @ xs) (zs @ ys) = bytes_prec xs ys"
  by (induction zs) auto

lemma bytes_prec_less: "bytes_prec xs ys \<Longrightarrow> bytes_less xs ys"
  by (induction xs ys rule: bytes_prec.induct) auto

lemma bytes_prec_irrefl [simp]: "\<not> bytes_prec xs xs"
  by (induction xs) auto

lemma bytes_prec_asym: "bytes_prec xs ys \<Longrightarrow> \<not> bytes_prec ys xs"
  by (induction xs ys rule: bytes_prec.induct) auto

lemma bytes_prec_not_prefix: "bytes_prec xs ys \<Longrightarrow> ys \<noteq> xs @ zs \<and> xs \<noteq> ys @ zs"
  by (induction xs ys rule: bytes_prec.induct) auto

lemma bytes_prec_same_length: "length xs = length ys \<Longrightarrow> bytes_prec xs ys = bytes_less xs ys"
  by (induction xs ys rule: list_induct2) auto

subsection \<open>Words as numbers\<close>

lemma unat_byte_less: "unat (b :: byte) < 256"
proof -
  have "unat b < 2 ^ LENGTH(8)" by (rule unsigned_less)
  then show ?thesis by simp
qed

lemma unat_byte_NOT: "unat (NOT b) + unat b = 255" for b :: byte
proof -
  have "int (unat b) < 256" using unat_byte_less [of b] by linarith
  then have self: "take_bit 8 (uint b) = uint b" by (intro take_bit_int_eq_self) simp_all
  have "uint (NOT b) = take_bit 8 (NOT (uint b))" by (simp add: unsigned_not_eq)
  also have "\<dots> = 255 - uint b"
    by (simp add: take_bit_not_eq_mask_diff mask_eq_exp_minus_1 self)
  finally have "int (unat (NOT b) + unat b) = 255" by simp
  then show ?thesis by linarith
qed

lemma byte_not_less: "NOT x < NOT y \<longleftrightarrow> y < x" for x y :: byte
  using unat_byte_NOT [of x] unat_byte_NOT [of y] by (auto simp: word_less_nat_alt)

lemma bytes_prec_map_NOT:
  "bytes_prec (map (\<lambda>b. NOT b) xs) (map (\<lambda>b. NOT b) ys) \<longleftrightarrow> bytes_prec ys xs"
  by (induction xs ys rule: bytes_prec.induct) (auto simp: byte_not_less)

lemma unat_u64_less: "unat (v :: u64) < 2 ^ 64"
proof -
  have "unat v < 2 ^ LENGTH(64)" by (rule unsigned_less)
  then show ?thesis by simp
qed

lemma take_bit_unat [simp]: "take_bit LENGTH('a) (unat v) = unat v" for v :: "'a::len word"
  by (rule take_bit_nat_eq_self) (rule unsigned_less)

lemma unat_drop_bit: "unat (drop_bit n v) = unat v div 2 ^ n" for v :: "'a::len word"
proof -
  have "unat (drop_bit n v) = drop_bit n (unat v)"
    by (simp add: unsigned_drop_bit_eq)
  then show ?thesis by (simp only: drop_bit_eq_div [of n "unat v"])
qed

lemma unat_push_bit: "unat (push_bit n v) = unat v * 2 ^ n mod 2 ^ LENGTH('a)"
  for v :: "'a::len word"
  by (simp only: unsigned_push_bit_eq push_bit_eq_mult [of n "unat v"] take_bit_eq_mod)

lemma unat_and_mask: "unat (v AND mask n) = unat v mod 2 ^ n" for v :: "'a::len word"
proof -
  have "unat (take_bit n v) = take_bit n (unat v)"
    by (simp add: unsigned_take_bit_eq)
  then show ?thesis
    by (simp add: take_bit_eq_mod flip: take_bit_eq_mask)
qed

lemma unat_ucast: "unat (ucast v :: 'b::len word) = unat v mod 2 ^ LENGTH('b)"
  for v :: "'a::len word"
  by (simp add: unsigned_ucast_eq take_bit_eq_mod)

subsection \<open>Big-endian values\<close>

lemma digit_less: "p < q \<Longrightarrow> r < k \<Longrightarrow> p * k + r < q * k + s" for p q r k s :: nat
proof -
  assume "p < q" and "r < k"
  then have "p * k + r < Suc p * k" by simp
  also have "\<dots> \<le> q * k" using \<open>p < q\<close> by (intro mult_le_mono1) simp
  finally show ?thesis by simp
qed

lemma less_iff_div_mod:
  "0 < k \<Longrightarrow> x < y \<longleftrightarrow> x div k < y div k \<or> x div k = y div k \<and> x mod k < y mod k"
  for x y k :: nat
proof -
  assume k: "0 < k"
  have x: "x = x div k * k + x mod k" and y: "y = y div k * k + y mod k" by simp_all
  consider "x div k < y div k" | "x div k = y div k" | "y div k < x div k" by linarith
  then show ?thesis
  proof cases
    case 1
    with digit_less [of "x div k" "y div k" "x mod k" k "y mod k"] k x y show ?thesis by simp
  next
    case 2
    with x y show ?thesis by (metis less_irrefl nat_add_left_cancel_less)
  next
    case 3
    with digit_less [of "y div k" "x div k" "y mod k" k "x mod k"] k x y show ?thesis by simp
  qed
qed

lemma be_val_less: "be_val bs < 256 ^ length bs"
proof (induction bs)
  case (Cons b bs)
  with digit_less [of "unat b" 256 "be_val bs" "256 ^ length bs" 0] show ?case
    using unat_byte_less [of b] by simp
qed simp

lemma length_be_bytes [simp]: "length (be_bytes n v) = n"
  by (induction n) auto

lemma be_val_be_bytes: "be_val (be_bytes n v) = v mod 256 ^ n"
proof (induction n)
  case (Suc n)
  have "unat (of_nat (v div 256 ^ n) :: byte) = v div 256 ^ n mod 256"
    by (simp add: unat_of_nat)
  with Suc show ?case
    by (simp add: mod_mult2_eq [of v "256 ^ n" 256, simplified mult.commute] mult.commute)
qed simp

lemma be_val_append: "be_val (xs @ ys) = be_val xs * 256 ^ length ys + be_val ys"
  by (induction xs) (auto simp: power_add algebra_simps)

lemma be_val_inj: "length xs = length ys \<Longrightarrow> be_val xs = be_val ys \<Longrightarrow> xs = ys"
proof (induction xs ys rule: list_induct2)
  case (Cons x xs y ys)
  have lt: "be_val xs < 256 ^ length ys" "be_val ys < 256 ^ length ys"
    using be_val_less [of xs] be_val_less [of ys] Cons.hyps by simp_all
  have e: "unat x * 256 ^ length ys + be_val xs = unat y * 256 ^ length ys + be_val ys"
    using Cons by simp
  have "(unat x * 256 ^ length ys + be_val xs) div 256 ^ length ys = unat x"
    using lt by simp
  moreover have "(unat y * 256 ^ length ys + be_val ys) div 256 ^ length ys = unat y"
    using lt by simp
  ultimately have "unat x = unat y" using e by simp
  then show ?case using e Cons.IH by (simp add: word_unat_eq_iff)
qed simp

lemma bytes_less_be_val:
  "length xs = length ys \<Longrightarrow> bytes_less xs ys \<longleftrightarrow> be_val xs < be_val ys"
proof (induction xs ys rule: list_induct2)
  case (Cons x xs y ys)
  let ?k = "256 ^ length ys :: nat"
  have lt: "be_val xs < ?k" "be_val ys < ?k"
    using be_val_less [of xs] be_val_less [of ys] Cons.hyps by simp_all
  consider "x < y" | "x = y" | "y < x" by fastforce
  then show ?case
  proof cases
    case 1
    then show ?thesis
      using digit_less [of "unat x" "unat y" "be_val xs" ?k "be_val ys"] lt Cons.hyps
      by (simp add: word_less_nat_alt)
  next
    case 3
    then show ?thesis
      using digit_less [of "unat y" "unat x" "be_val ys" ?k "be_val xs"] lt Cons.hyps
      by (auto simp: word_less_nat_alt)
  qed (use Cons in auto)
qed simp

text \<open>A shorter list whose value stays below the longer one whatever follows it.\<close>

lemma bytes_prec_be_val:
  assumes "be_val xs * 256 ^ (length ys - length xs) + 256 ^ (length ys - length xs) \<le> be_val ys"
    and "length xs \<le> length ys"
  shows "bytes_prec xs ys"
proof -
  let ?d = "length ys - length xs" and ?p = "take (length xs) ys"
  have y: "be_val ys = be_val ?p * 256 ^ ?d + be_val (drop (length xs) ys)"
    using be_val_append [of ?p "drop (length xs) ys"] by simp
  have "be_val (drop (length xs) ys) < 256 ^ ?d"
    using be_val_less [of "drop (length xs) ys"] by simp
  have "be_val xs < be_val ?p"
  proof (rule ccontr)
    assume "\<not> be_val xs < be_val ?p"
    then have "be_val ?p * 256 ^ ?d \<le> be_val xs * 256 ^ ?d" by (intro mult_le_mono1) simp
    with assms(1) y \<open>be_val (drop _ ys) < _\<close> show False by linarith
  qed
  then have "bytes_less xs ?p" using assms(2) by (simp add: bytes_less_be_val)
  then have "bytes_prec xs ?p" using assms(2) by (simp add: bytes_prec_same_length)
  from bytes_prec_append [OF this, of "[]" "drop (length xs) ys"] show ?thesis by simp
qed

lemma be_val_map_NOT: "be_val (map (\<lambda>b. NOT b) bs) + be_val bs + 1 = 256 ^ length bs"
proof (induction bs)
  case (Cons b bs)
  have "unat (NOT b) * 256 ^ length bs + unat b * 256 ^ length bs = 255 * 256 ^ length bs"
    by (metis add_mult_distrib unat_byte_NOT)
  then show ?case using Cons by simp
qed simp

end
