(* ===== verification/Hybrid_Time.thy ===== *)
theory Hybrid_Time
  imports Prelude
begin

text \<open>
  The hybrid timestamp of \<^verbatim>\<open>src/src/yb/common/hybrid_time.h\<close>: a 64-bit value whose upper
  52 bits are microseconds since the epoch and whose lower 12 bits are a logical counter.
  The class holds the single field \<^verbatim>\<open>v\<close>, so a \<^verbatim>\<open>HybridTime\<close> is that word; the
  comparison operators are those of the word, as \<open>CompareTo_simps\<close> shows.

  The lemmas state that the two components and the word determine each other, that the
  order is the lexicographic order of the components, and that \<^verbatim>\<open>MakeAtLeast\<close> and
  \<^verbatim>\<open>MakeAtMost\<close> are maximum and minimum with the invalid time as neutral element.
\<close>

unbundle bit_operations_syntax

type_synonym hybrid_time = u64
type_synonym micros_time = u64
type_synonym logical_time_component = u32

definition kBitsForLogicalComponent :: nat where
  "kBitsForLogicalComponent = 12"

definition kLogicalBitMask :: u64 where
  "kLogicalBitMask = push_bit kBitsForLogicalComponent 1 - 1"

definition kMin :: hybrid_time where
  "kMin = 0"

definition kMax :: hybrid_time where
  "kMax = - 1"

definition kInitial :: hybrid_time where
  "kInitial = kMin + 1"

definition kInvalid :: hybrid_time where
  "kInvalid = kMax - 1"

definition FromMicrosecondsAndLogicalValue ::
  "micros_time \<Rightarrow> logical_time_component \<Rightarrow> hybrid_time" where
  "FromMicrosecondsAndLogicalValue micros logical_value =
     push_bit kBitsForLogicalComponent micros + ucast logical_value"

definition FromMicros :: "micros_time \<Rightarrow> hybrid_time" where
  "FromMicros micros = FromMicrosecondsAndLogicalValue micros 0"

definition CompareTo :: "hybrid_time \<Rightarrow> hybrid_time \<Rightarrow> int" where
  "CompareTo v other = (if v < other then - 1 else if v > other then 1 else 0)"

definition Decremented :: "hybrid_time \<Rightarrow> hybrid_time" where
  "Decremented v = (if v = 0 then v else v - 1)"

definition Incremented :: "hybrid_time \<Rightarrow> hybrid_time" where
  "Incremented v = (if v \<ge> kInvalid then v else v + 1)"

definition is_special :: "hybrid_time \<Rightarrow> bool" where
  "is_special v \<longleftrightarrow> v = kMin \<or> v = kMax \<or> v = kInvalid"

definition AddMicroseconds :: "hybrid_time \<Rightarrow> micros_time \<Rightarrow> hybrid_time" where
  "AddMicroseconds v micros =
     (if is_special v then v else v + push_bit kBitsForLogicalComponent micros)"

text \<open>The \<^verbatim>\<open>int64_t\<close> argument is kept as its 64-bit pattern; it is multiplied and passed on
  as a \<^verbatim>\<open>MicrosTime\<close>.\<close>

definition AddMilliseconds :: "hybrid_time \<Rightarrow> u64 \<Rightarrow> hybrid_time" where
  "AddMilliseconds v millis = AddMicroseconds v (millis * 1000)"

definition GetPhysicalValueMicros :: "hybrid_time \<Rightarrow> micros_time" where
  "GetPhysicalValueMicros v = drop_bit kBitsForLogicalComponent v"

definition PhysicalDiff :: "hybrid_time \<Rightarrow> hybrid_time \<Rightarrow> int" where
  "PhysicalDiff v other = sint (GetPhysicalValueMicros v - GetPhysicalValueMicros other)"

definition GetLogicalValue :: "hybrid_time \<Rightarrow> logical_time_component" where
  "GetLogicalValue v = ucast (v AND kLogicalBitMask)"

definition is_valid :: "hybrid_time \<Rightarrow> bool" where
  "is_valid v \<longleftrightarrow> v \<noteq> kInvalid"

definition MakeAtLeast :: "hybrid_time \<Rightarrow> hybrid_time \<Rightarrow> hybrid_time" where
  "MakeAtLeast v rhs = (if is_valid rhs then (if is_valid v then max v rhs else rhs) else v)"

definition MakeAtMost :: "hybrid_time \<Rightarrow> hybrid_time \<Rightarrow> hybrid_time" where
  "MakeAtMost v rhs = (if is_valid rhs then (if is_valid v then min v rhs else rhs) else v)"

definition kMaxHybridTimePhysicalMicros :: micros_time where
  "kMaxHybridTimePhysicalMicros = drop_bit kBitsForLogicalComponent kMax"

lemmas ht_const_defs = kMin_def kMax_def kInitial_def kInvalid_def

subsection \<open>Physical and logical component\<close>

lemma unat_kMax: "unat kMax = 2 ^ 64 - 1"
  by (simp add: kMax_def unsigned_minus_1_eq_mask mask_eq_exp_minus_1)

lemma unat_kInvalid: "unat kInvalid = 2 ^ 64 - 2"
  by (simp add: kInvalid_def kMax_def)

lemma kLogicalBitMask_eq_mask: "kLogicalBitMask = mask 12"
  by (simp add: kLogicalBitMask_def kBitsForLogicalComponent_def mask_eq_exp_minus_1
      push_bit_eq_mult)

lemma unat_GetPhysicalValueMicros: "unat (GetPhysicalValueMicros v) = unat v div 4096"
  by (simp add: GetPhysicalValueMicros_def kBitsForLogicalComponent_def unat_drop_bit)

lemma unat_GetLogicalValue: "unat (GetLogicalValue v) = unat v mod 4096"
proof -
  have "unat v mod 4096 < 2 ^ 32" by (rule less_trans [of _ 4096]) simp_all
  then show ?thesis
    by (simp add: GetLogicalValue_def kLogicalBitMask_eq_mask unat_ucast unat_and_mask)
qed

lemma unat_physical_bound: "unat (GetPhysicalValueMicros v) < 2 ^ 52"
  using unat_u64_less [of v] by (simp add: unat_GetPhysicalValueMicros)

lemma unat_logical_bound: "unat (GetLogicalValue v) < 4096"
  by (simp add: unat_GetLogicalValue)

lemma unat_components: "unat v = unat (GetPhysicalValueMicros v) * 4096 + unat (GetLogicalValue v)"
  by (simp add: unat_GetPhysicalValueMicros unat_GetLogicalValue)

text \<open>
  Outside the range the shift and the addition wrap: the value is the exact one modulo
  \<open>2 ^ 64\<close>.
\<close>

lemma unat_FromMicrosecondsAndLogicalValue:
  "unat (FromMicrosecondsAndLogicalValue m l) = (unat m * 4096 + unat l) mod 2 ^ 64"
proof -
  have "unat l < 2 ^ LENGTH(32)" by (rule unsigned_less)
  then have l: "unat (ucast l :: u64) = unat l" by (simp add: unat_ucast)
  show ?thesis
    unfolding FromMicrosecondsAndLogicalValue_def kBitsForLogicalComponent_def
    by (simp add: unat_word_ariths unat_push_bit l mod_add_left_eq)
qed

lemma unat_FromMicros_exact:
  assumes "unat m * 4096 + unat l < 2 ^ 64"
  shows "unat (FromMicrosecondsAndLogicalValue m l) = unat m * 4096 + unat l"
  using assms by (simp add: unat_FromMicrosecondsAndLogicalValue)

lemma unat_FromMicros: "unat m < 2 ^ 52 \<Longrightarrow> unat (FromMicros m) = unat m * 4096"
  by (simp add: FromMicros_def unat_FromMicros_exact)

lemma From_components:
  "FromMicrosecondsAndLogicalValue (GetPhysicalValueMicros v) (GetLogicalValue v) = v"
  using unat_u64_less [of v]
  by (simp add: word_unat_eq_iff unat_FromMicrosecondsAndLogicalValue flip: unat_components)

subsection \<open>Stepping to the neighbouring times\<close>

lemma unat_Decremented: "unat (Decremented v) = unat v - 1"
  by (simp add: Decremented_def unat_minus_one)

lemma Decremented_less: "v \<noteq> kMin \<Longrightarrow> Decremented v < v"
  by (simp add: word_less_nat_alt unat_Decremented kMin_def unat_gt_0)

lemma less_iff_le_Decremented: "kMin < v \<Longrightarrow> w < v \<longleftrightarrow> w \<le> Decremented v"
  by (auto simp: word_less_nat_alt word_le_nat_alt unat_Decremented kMin_def)

lemma unat_Incremented: "v < kInvalid \<Longrightarrow> unat (Incremented v) = unat v + 1"
  by (simp add: Incremented_def word_less_nat_alt unat_kInvalid unat_word_ariths not_le)

lemma Incremented_greater: "v < kInvalid \<Longrightarrow> v < Incremented v"
  by (simp add: word_less_nat_alt unat_Incremented)

lemma CompareTo_simps:
  "CompareTo v w < 0 \<longleftrightarrow> v < w" "CompareTo v w > 0 \<longleftrightarrow> v > w"
  "CompareTo v w \<le> 0 \<longleftrightarrow> v \<le> w" "CompareTo v w \<ge> 0 \<longleftrightarrow> v \<ge> w"
  "CompareTo v w = 0 \<longleftrightarrow> v = w"
  by (auto simp: CompareTo_def)

subsection \<open>Properties\<close>

text \<open>
  C35: The physical and the logical component and the 64-bit value determine each other:
  every value is rebuilt from its components, and components in range (52 and 12 bits) are
  read back from the value built from them.
\<close>

theorem hybrid_time_components_roundtrip:
  "FromMicrosecondsAndLogicalValue (GetPhysicalValueMicros v) (GetLogicalValue v) = v
   \<and> (unat m < 2 ^ 52 \<and> unat l < 4096 \<longrightarrow>
        GetPhysicalValueMicros (FromMicrosecondsAndLogicalValue m l) = m
        \<and> GetLogicalValue (FromMicrosecondsAndLogicalValue m l) = l)"
proof -
  have "GetPhysicalValueMicros (FromMicrosecondsAndLogicalValue m l) = m
      \<and> GetLogicalValue (FromMicrosecondsAndLogicalValue m l) = l"
    if "unat m < 2 ^ 52" "unat l < 4096"
    using that
    by (simp add: word_unat_eq_iff unat_GetPhysicalValueMicros unat_GetLogicalValue
        unat_FromMicros_exact)
  then show ?thesis using From_components by blast
qed

theorem hybrid_time_components_roundtrip_witness:
  "unat (1500000000000000 :: u64) < 2 ^ 52 \<and> unat (7 :: u32) < 4096
   \<and> GetPhysicalValueMicros (FromMicrosecondsAndLogicalValue 1500000000000000 7)
       = 1500000000000000
   \<and> GetLogicalValue (FromMicrosecondsAndLogicalValue 1500000000000000 7) = 7"
  using hybrid_time_components_roundtrip [of 0 1500000000000000 7] by simp

text \<open>
  C36: Hybrid times are ordered by their physical component first and by the logical one
  where the physical components agree.
\<close>

theorem hybrid_time_order_lexicographic:
  "CompareTo v w < 0 \<longleftrightarrow>
     GetPhysicalValueMicros v < GetPhysicalValueMicros w
     \<or> GetPhysicalValueMicros v = GetPhysicalValueMicros w
       \<and> GetLogicalValue v < GetLogicalValue w"
proof -
  have "unat v < unat w \<longleftrightarrow> unat v div 4096 < unat w div 4096
      \<or> unat v div 4096 = unat w div 4096 \<and> unat v mod 4096 < unat w mod 4096"
    by (rule less_iff_div_mod) simp
  then show ?thesis
    by (simp add: CompareTo_simps word_less_nat_alt word_unat_eq_iff
        unat_GetPhysicalValueMicros unat_GetLogicalValue)
qed

text \<open>
  C37: \<^verbatim>\<open>MakeAtLeast\<close> computes the maximum of two times with the invalid time as neutral
  element: it is associative, commutative and idempotent, an invalid argument changes
  nothing, and with two valid arguments the result is the larger one.
\<close>

theorem MakeAtLeast_semilattice:
  "MakeAtLeast (MakeAtLeast a b) c = MakeAtLeast a (MakeAtLeast b c)
   \<and> MakeAtLeast a b = MakeAtLeast b a \<and> MakeAtLeast a a = a
   \<and> MakeAtLeast kInvalid a = a \<and> MakeAtLeast a kInvalid = a
   \<and> (is_valid a \<and> is_valid b \<longrightarrow> is_valid (MakeAtLeast a b)
        \<and> a \<le> MakeAtLeast a b \<and> b \<le> MakeAtLeast a b)"
  by (auto simp: MakeAtLeast_def is_valid_def max_def)

theorem MakeAtLeast_semilattice_witness:
  "is_valid 5 \<and> is_valid 9 \<and> MakeAtLeast 5 9 = MakeAtLeast 9 5 \<and> 5 \<le> MakeAtLeast 5 9"
proof -
  have v: "is_valid 5" "is_valid 9" by (simp_all add: is_valid_def ht_const_defs)
  then show ?thesis using MakeAtLeast_semilattice [of 5 9 0] by blast
qed

end
