(* ===== verification/Hybrid_Clock.thy ===== *)
theory Hybrid_Clock
  imports Hybrid_Time
begin

text \<open>
  The clocks of \<^verbatim>\<open>src/src/yb/server/hybrid_clock.cc\<close> and
  \<^verbatim>\<open>src/src/yb/server/logical_clock.cc\<close>, with the physical clock of
  \<^verbatim>\<open>src/src/yb/util/physical_time.cc\<close> that the hybrid clock reads.

  Three views of the hybrid clock are given. The sequential operations
  (\<open>NowWithError\<close>, \<open>Update\<close>) are the C++ functions when no other thread interferes.
  The relation \<open>clock_step\<close> is the same code run by any number of threads, one atomic
  load or compare-and-swap per step. The locale \<open>clock_contract\<close> is what
  \<^verbatim>\<open>src/src/yb/server/clock.h\<close> demands of every clock; both clocks satisfy it.

  Debug-only checks (\<^verbatim>\<open>DCHECK\<close>) and metrics are left out.
\<close>

unbundle bit_operations_syntax

subsection \<open>The physical clock\<close>

record physical_time =
  time_point :: micros_time
  max_error :: micros_time

definition CheckClockSyncError ::
  "bool \<Rightarrow> u64 \<Rightarrow> physical_time \<Rightarrow> physical_time result" where
  "CheckClockSyncError disable_clock_sync_error max_clock_sync_error_usec time =
     (if \<not> disable_clock_sync_error \<and> max_error time > max_clock_sync_error_usec
      then Inl (Status ServiceUnavailable) else Inr time)"

definition WallClock_Now ::
  "bool \<Rightarrow> u64 \<Rightarrow> u64 \<Rightarrow> micros_time \<Rightarrow> physical_time result" where
  "WallClock_Now disable_clock_sync_error max_clock_sync_error_usec max_clock_skew_usec
     current_time_micros =
     CheckClockSyncError disable_clock_sync_error max_clock_sync_error_usec
       \<lparr>time_point = current_time_micros, max_error = max_clock_skew_usec\<rparr>"

definition WallClock_MaxGlobalTime :: "u64 \<Rightarrow> physical_time \<Rightarrow> micros_time" where
  "WallClock_MaxGlobalTime max_clock_skew_usec time = time_point time + max_clock_skew_usec"

subsection \<open>The hybrid clock\<close>

record hybrid_clock_components =
  last_usec :: micros_time
  logical :: logical_time_component

definition initial_components :: hybrid_clock_components where
  "initial_components = \<lparr>last_usec = 0, logical = 0\<rparr>"

definition components_less ::
  "hybrid_clock_components \<Rightarrow> hybrid_clock_components \<Rightarrow> bool" where
  "components_less c d \<longleftrightarrow>
     last_usec c < last_usec d \<or> last_usec c = last_usec d \<and> logical c < logical d"

definition HandleLogicalComponentOverflow ::
  "hybrid_clock_components \<Rightarrow> hybrid_clock_components result" where
  "HandleLogicalComponentOverflow c =
     (if (ucast (logical c) :: u64) > kLogicalBitMask then
        (if (ucast (logical c) :: u64) > push_bit kBitsForLogicalComponent 1 then Inl Fatal
         else Inr \<lparr>last_usec = last_usec c + ucast (drop_bit kBitsForLogicalComponent (logical c)),
                   logical = logical c AND ucast kLogicalBitMask\<rparr>)
      else Inr c)"

definition NowWithError ::
  "physical_time result \<Rightarrow> hybrid_clock_components
     \<Rightarrow> (hybrid_clock_components \<times> hybrid_time \<times> micros_time) result" where
  "NowWithError now components =
     (case now of
        Inl _ \<Rightarrow> Inl Fatal
      | Inr now \<Rightarrow>
          if time_point now > last_usec components then
            Inr (\<lparr>last_usec = time_point now, logical = 1\<rparr>,
                 FromMicros (time_point now), max_error now)
          else
            verify_result
              (HandleLogicalComponentOverflow
                 \<lparr>last_usec = last_usec components, logical = logical components + 1\<rparr>)
              (\<lambda>new_components.
                 Inr (new_components,
                      Decremented (FromMicrosecondsAndLogicalValue
                        (last_usec new_components) (logical new_components)),
                      last_usec new_components - (time_point now - max_error now))))"

definition NowRange ::
  "(physical_time \<Rightarrow> micros_time) \<Rightarrow> physical_time result \<Rightarrow> hybrid_clock_components
     \<Rightarrow> (hybrid_clock_components \<times> hybrid_time \<times> hybrid_time) result" where
  "NowRange max_global_time now_reading components =
     verify_result (NowWithError now_reading components)
       (\<lambda>(components', now, error).
          Inr (components', now,
               FromMicros (max_global_time
                 \<lparr>time_point = GetPhysicalValueMicros now, max_error = error\<rparr>)))"

definition Update ::
  "hybrid_time \<Rightarrow> hybrid_clock_components \<Rightarrow> hybrid_clock_components result" where
  "Update to_update components =
     (if \<not> is_valid to_update then Inr components
      else
        verify_result
          (HandleLogicalComponentOverflow
             \<lparr>last_usec = GetPhysicalValueMicros to_update,
              logical = GetLogicalValue to_update + 1\<rparr>)
          (\<lambda>new_components.
             Inr (if components_less components new_components then new_components
                  else components)))"



subsection \<open>The logical clock\<close>

definition LogicalClock_CreateStartingAt :: "hybrid_time \<Rightarrow> u64" where
  "LogicalClock_CreateStartingAt ht = ht - 1"

definition LogicalClock_NowRange :: "u64 \<Rightarrow> u64 \<times> hybrid_time \<times> hybrid_time" where
  "LogicalClock_NowRange now_v = (let result = now_v + 1 in (result, result, result))"

definition LogicalClock_Peek :: "u64 \<Rightarrow> hybrid_time" where
  "LogicalClock_Peek now_v = now_v"

definition LogicalClock_Update :: "hybrid_time \<Rightarrow> u64 \<Rightarrow> u64" where
  "LogicalClock_Update to_update now_v =
     (if is_valid to_update then (if to_update > now_v then to_update else now_v) else now_v)"

subsection \<open>Threads that share one hybrid clock\<close>

text \<open>
  A thread is idle or inside one of the loops of \<^verbatim>\<open>NowWithError\<close> and \<^verbatim>\<open>Update\<close>, with the
  local variable \<^verbatim>\<open>current_components\<close> it compares and swaps with. A failed
  \<^verbatim>\<open>compare_exchange_weak\<close>, spurious or not, reloads that variable. The field
  \<open>event_log\<close> is history: the times handed out and the times learned from other servers,
  the latest first.
\<close>

datatype thread =
    Idle
  | NowLoop1 physical_time hybrid_clock_components
  | NowLoop2 physical_time hybrid_clock_components
  | UpdateLoop hybrid_time hybrid_clock_components hybrid_clock_components
  | Crashed

datatype clock_event = Issued hybrid_time | Learned hybrid_time

record clock_sys =
  shared :: hybrid_clock_components
  threads :: "nat \<Rightarrow> thread"
  event_log :: "clock_event list"

definition initial_clock_sys :: clock_sys where
  "initial_clock_sys =
     \<lparr>shared = initial_components, threads = (\<lambda>_. Idle), event_log = []\<rparr>"

abbreviation next_logical :: "hybrid_clock_components \<Rightarrow> hybrid_clock_components result" where
  "next_logical c \<equiv>
     HandleLogicalComponentOverflow \<lparr>last_usec = last_usec c, logical = logical c + 1\<rparr>"

inductive clock_step :: "clock_sys \<Rightarrow> clock_sys \<Rightarrow> bool" where
  now_start:
    "threads s i = Idle \<Longrightarrow> unat (time_point p) < 2 ^ 52 \<Longrightarrow>
     clock_step s (s\<lparr>threads := (threads s)(i := NowLoop1 p (shared s))\<rparr>)"
| now1_swap:
    "threads s i = NowLoop1 p cur \<Longrightarrow> time_point p > last_usec cur \<Longrightarrow> shared s = cur \<Longrightarrow>
     clock_step s (s\<lparr>shared := \<lparr>last_usec = time_point p, logical = 1\<rparr>,
                     threads := (threads s)(i := Idle),
                     event_log := Issued (FromMicros (time_point p)) # event_log s\<rparr>)"
| now1_retry:
    "threads s i = NowLoop1 p cur \<Longrightarrow> time_point p > last_usec cur \<Longrightarrow>
     clock_step s (s\<lparr>threads := (threads s)(i := NowLoop1 p (shared s))\<rparr>)"
| now1_exit:
    "threads s i = NowLoop1 p cur \<Longrightarrow> \<not> time_point p > last_usec cur \<Longrightarrow>
     clock_step s (s\<lparr>threads := (threads s)(i := NowLoop2 p cur)\<rparr>)"
| now2_swap:
    "threads s i = NowLoop2 p cur \<Longrightarrow> next_logical cur = Inr new \<Longrightarrow> shared s = cur \<Longrightarrow>
     clock_step s (s\<lparr>shared := new, threads := (threads s)(i := Idle),
                     event_log := Issued (Decremented (FromMicrosecondsAndLogicalValue
                       (last_usec new) (logical new))) # event_log s\<rparr>)"
| now2_retry:
    "threads s i = NowLoop2 p cur \<Longrightarrow> next_logical cur = Inr new \<Longrightarrow>
     clock_step s (s\<lparr>threads := (threads s)(i := NowLoop2 p (shared s))\<rparr>)"
| now2_crash:
    "threads s i = NowLoop2 p cur \<Longrightarrow> next_logical cur = Inl e \<Longrightarrow>
     clock_step s (s\<lparr>threads := (threads s)(i := Crashed)\<rparr>)"
| update_start:
    "threads s i = Idle \<Longrightarrow> is_valid t \<Longrightarrow>
     HandleLogicalComponentOverflow
       \<lparr>last_usec = GetPhysicalValueMicros t, logical = GetLogicalValue t + 1\<rparr> = Inr new \<Longrightarrow>
     clock_step s (s\<lparr>threads := (threads s)(i := UpdateLoop t new (shared s))\<rparr>)"
| update_crash:
    "threads s i = Idle \<Longrightarrow> is_valid t \<Longrightarrow>
     HandleLogicalComponentOverflow
       \<lparr>last_usec = GetPhysicalValueMicros t, logical = GetLogicalValue t + 1\<rparr> = Inl e \<Longrightarrow>
     clock_step s (s\<lparr>threads := (threads s)(i := Crashed)\<rparr>)"
| update_swap:
    "threads s i = UpdateLoop t new cur \<Longrightarrow> components_less cur new \<Longrightarrow> shared s = cur \<Longrightarrow>
     clock_step s (s\<lparr>shared := new, threads := (threads s)(i := Idle),
                     event_log := Learned t # event_log s\<rparr>)"
| update_retry:
    "threads s i = UpdateLoop t new cur \<Longrightarrow> components_less cur new \<Longrightarrow>
     clock_step s (s\<lparr>threads := (threads s)(i := UpdateLoop t new (shared s))\<rparr>)"
| update_done:
    "threads s i = UpdateLoop t new cur \<Longrightarrow> \<not> components_less cur new \<Longrightarrow>
     clock_step s (s\<lparr>threads := (threads s)(i := Idle),
                     event_log := Learned t # event_log s\<rparr>)"

inductive clock_reachable :: "clock_sys \<Rightarrow> bool" where
  start: "clock_reachable initial_clock_sys"
| step: "clock_reachable s \<Longrightarrow> clock_step s t \<Longrightarrow> clock_reachable t"

fun event_time :: "clock_event \<Rightarrow> hybrid_time" where
  "event_time (Issued t) = t"
| "event_time (Learned t) = t"

text \<open>Every time handed out is above all times handed out or learned before.\<close>

fun issued_above_past :: "clock_event list \<Rightarrow> bool" where
  "issued_above_past [] \<longleftrightarrow> True"
| "issued_above_past (Issued t # es) \<longleftrightarrow>
     (\<forall>e \<in> set es. event_time e < t) \<and> issued_above_past es"
| "issued_above_past (Learned t # es) \<longleftrightarrow> issued_above_past es"

text \<open>The next value the components stand for, as an unbounded number.\<close>

definition clock_val :: "hybrid_clock_components \<Rightarrow> nat" where
  "clock_val c = unat (last_usec c) * 4096 + unat (logical c)"

text \<open>
  One step of the shared clock as the sequential operations describe it: nothing happens to
  the components, or one whole \<^verbatim>\<open>Now\<close> or \<^verbatim>\<open>Update\<close> takes effect at once.
\<close>

definition atomic_clock_step :: "clock_sys \<Rightarrow> clock_sys \<Rightarrow> bool" where
  "atomic_clock_step s s' \<longleftrightarrow>
     shared s' = shared s \<and> event_log s' = event_log s
     \<or> (\<exists>p t err. unat (time_point p) < 2 ^ 52
          \<and> NowWithError (Inr p) (shared s) = Inr (shared s', t, err)
          \<and> event_log s' = Issued t # event_log s)
     \<or> (\<exists>t. is_valid t \<and> Update t (shared s) = Inr (shared s')
          \<and> event_log s' = Learned t # event_log s)"

text \<open>What holds of a thread inside a loop: its copy is a former value of the components.\<close>

fun thread_inv :: "hybrid_clock_components \<Rightarrow> thread \<Rightarrow> bool" where
  "thread_inv sh Idle \<longleftrightarrow> True"
| "thread_inv sh (NowLoop1 p cur) \<longleftrightarrow>
     unat (time_point p) < 2 ^ 52 \<and> unat (logical cur) < 4096 \<and> clock_val cur \<le> clock_val sh"
| "thread_inv sh (NowLoop2 p cur) \<longleftrightarrow>
     unat (time_point p) < 2 ^ 52 \<and> unat (logical cur) < 4096 \<and> clock_val cur \<le> clock_val sh
     \<and> time_point p \<le> last_usec cur"
| "thread_inv sh (UpdateLoop t new cur) \<longleftrightarrow>
     is_valid t \<and> unat (logical new) < 4096 \<and> clock_val new = Suc (unat t)
     \<and> HandleLogicalComponentOverflow
          \<lparr>last_usec = GetPhysicalValueMicros t, logical = GetLogicalValue t + 1\<rparr> = Inr new
     \<and> unat (logical cur) < 4096 \<and> clock_val cur \<le> clock_val sh"
| "thread_inv sh Crashed \<longleftrightarrow> False"

definition clock_inv :: "clock_sys \<Rightarrow> bool" where
  "clock_inv s \<longleftrightarrow>
     unat (logical (shared s)) < 4096
     \<and> clock_val (shared s) \<le> 2 ^ 64 + length (event_log s)
     \<and> (\<forall>i. thread_inv (shared s) (threads s i))"

subsection \<open>The components as a number\<close>

lemma unat_u32_less: "unat (l :: u32) < 2 ^ 32"
proof -
  have "unat l < 2 ^ LENGTH(32)" by (rule unsigned_less)
  then show ?thesis by simp
qed

lemma components_less_clock_val:
  assumes "unat (logical c) < 4096" and "unat (logical d) < 4096"
  shows "components_less c d \<longleftrightarrow> clock_val c < clock_val d"
  using less_iff_div_mod [of 4096 "clock_val c" "clock_val d"] assms
  by (simp add: components_less_def clock_val_def word_less_nat_alt word_unat_eq_iff)

lemma clock_val_inj:
  assumes "unat (logical c) < 4096" and "unat (logical d) < 4096" and "clock_val c = clock_val d"
  shows "c = d"
proof -
  have "clock_val c div 4096 = clock_val d div 4096" "clock_val c mod 4096 = clock_val d mod 4096"
    using assms(3) by simp_all
  with assms(1,2) have "last_usec c = last_usec d" "logical c = logical d"
    by (simp_all add: clock_val_def word_unat_eq_iff)
  then show ?thesis by simp
qed

lemma unat_ucast_logical: "unat (ucast (l :: u32) :: u64) = unat l"
  using unat_u32_less [of l] by (simp add: unat_ucast)

lemma unat_kLogicalBitMask: "unat kLogicalBitMask = 4095"
  by (simp add: kLogicalBitMask_def kBitsForLogicalComponent_def)

lemma HandleLogicalComponentOverflow_small:
  "unat (logical c) < 4096 \<Longrightarrow> HandleLogicalComponentOverflow c = Inr c"
  by (simp add: HandleLogicalComponentOverflow_def word_less_nat_alt unat_ucast_logical
      unat_kLogicalBitMask)

lemma HandleLogicalComponentOverflow_spec:
  assumes "unat (logical c) \<le> 4096" and "unat (last_usec c) < 2 ^ 64 - 1"
  obtains d where "HandleLogicalComponentOverflow c = Inr d"
    and "clock_val d = clock_val c" and "unat (logical d) < 4096"
proof (cases "unat (logical c) < 4096")
  case True
  then show ?thesis using that HandleLogicalComponentOverflow_small by blast
next
  case False
  then have l: "logical c = 4096" using assms(1) by (simp add: word_unat_eq_iff)
  let ?d = "\<lparr>last_usec = last_usec c + 1, logical = 0\<rparr>"
  have "HandleLogicalComponentOverflow c = Inr ?d"
    by (simp add: HandleLogicalComponentOverflow_def l kLogicalBitMask_def
        kBitsForLogicalComponent_def)
  moreover have "clock_val ?d = clock_val c"
    using assms(2) by (simp add: clock_val_def l unat_word_ariths)
  ultimately show ?thesis using that by simp
qed

lemma unat_logical_plus_1:
  "unat (l :: u32) < 4096 \<Longrightarrow> unat (l + 1) = unat l + 1"
  by (simp add: unat_word_ariths)

text \<open>One more logical tick, with the carry into the microseconds.\<close>

lemma next_logical_spec:
  assumes "unat (logical c) < 4096" and "unat (last_usec c) < 2 ^ 64 - 1"
  obtains d where "next_logical c = Inr d" and "clock_val d = Suc (clock_val c)"
    and "unat (logical d) < 4096"
  using HandleLogicalComponentOverflow_spec
      [of "\<lparr>last_usec = last_usec c, logical = logical c + 1\<rparr>"] assms
  by (auto simp: unat_logical_plus_1 clock_val_def)

lemma update_components_spec:
  obtains d where
    "HandleLogicalComponentOverflow
       \<lparr>last_usec = GetPhysicalValueMicros t, logical = GetLogicalValue t + 1\<rparr> = Inr d"
    and "clock_val d = Suc (unat t)" and "unat (logical d) < 4096"
proof -
  have l: "unat (GetLogicalValue t + 1) = unat (GetLogicalValue t) + 1"
    using unat_logical_bound by (rule unat_logical_plus_1)
  show ?thesis
    using HandleLogicalComponentOverflow_spec
        [of "\<lparr>last_usec = GetPhysicalValueMicros t, logical = GetLogicalValue t + 1\<rparr>"]
      that unat_logical_bound [of t] unat_physical_bound [of t] unat_components [of t]
    by (auto simp: l clock_val_def)
qed

text \<open>
  The value handed out is the number before the tick. It is exact while the next value
  still fits 64 bits.
\<close>

lemma issued_value:
  assumes "clock_val d = Suc n" and "Suc n < 2 ^ 64"
  shows "unat (Decremented (FromMicrosecondsAndLogicalValue (last_usec d) (logical d))) = n"
proof -
  have "unat (FromMicrosecondsAndLogicalValue (last_usec d) (logical d)) = Suc n"
    using assms unat_FromMicros_exact [of "last_usec d" "logical d"]
    by (simp add: clock_val_def)
  then show ?thesis by (simp add: unat_Decremented)
qed

subsection \<open>The sequential operations\<close>

lemma last_usec_bound: "clock_val c < 2 ^ 65 \<Longrightarrow> unat (last_usec c) < 2 ^ 64 - 1"
  by (simp add: clock_val_def)

lemma NowWithError_spec:
  assumes "unat (logical c) < 4096" and "unat (time_point p) < 2 ^ 52"
    and "clock_val c < 2 ^ 64 - 1"
  obtains c' t err where "NowWithError (Inr p) c = Inr (c', t, err)"
    and "unat (logical c') < 4096" and "clock_val c \<le> unat t"
    and "clock_val c' = Suc (unat t)" and "FromMicros (time_point p) \<le> t"
proof (cases "time_point p > last_usec c")
  case True
  have t: "unat (FromMicros (time_point p)) = unat (time_point p) * 4096"
    using assms(2) by (rule unat_FromMicros)
  have "Suc (unat (last_usec c)) * 4096 \<le> unat (time_point p) * 4096"
    using True by (intro mult_le_mono1) (simp add: word_less_nat_alt)
  then have "clock_val c \<le> unat (FromMicros (time_point p))"
    using assms(1) t by (simp add: clock_val_def)
  then show ?thesis
    using that [of "\<lparr>last_usec = time_point p, logical = 1\<rparr>" "FromMicros (time_point p)"
        "max_error p"] True t
    by (simp add: NowWithError_def clock_val_def)
next
  case False
  obtain d where d: "next_logical c = Inr d" "clock_val d = Suc (clock_val c)"
    "unat (logical d) < 4096"
    using next_logical_spec [of c] last_usec_bound [of c] assms(1,3) by auto
  let ?t = "Decremented (FromMicrosecondsAndLogicalValue (last_usec d) (logical d))"
  have t: "unat ?t = clock_val c"
    using issued_value [OF d(2)] assms(3) by simp
  have "unat (time_point p) * 4096 \<le> clock_val c"
    using False by (simp add: clock_val_def word_less_nat_alt)
  then have "FromMicros (time_point p) \<le> ?t"
    using t assms(2) by (simp add: word_le_nat_alt unat_FromMicros)
  then show ?thesis
    using that [of d ?t "last_usec d - (time_point p - max_error p)"] False d t
    by (simp add: NowWithError_def)
qed

lemma Update_spec:
  assumes "unat (logical c) < 4096" and "is_valid t"
  obtains c' where "Update t c = Inr c'" and "unat (logical c') < 4096"
    and "clock_val c' = max (clock_val c) (Suc (unat t))"
proof -
  obtain d where d:
    "HandleLogicalComponentOverflow
       \<lparr>last_usec = GetPhysicalValueMicros t, logical = GetLogicalValue t + 1\<rparr> = Inr d"
    "clock_val d = Suc (unat t)" "unat (logical d) < 4096"
    using update_components_spec [of t] by metis
  show ?thesis
    using that [of "if components_less c d then d else c"] assms d
    by (auto simp: Update_def components_less_clock_val)
qed

subsection \<open>The contract of a clock\<close>

text \<open>
  \<^verbatim>\<open>src/src/yb/server/clock.h\<close> asks of every implementation that \<^verbatim>\<open>Now\<close> returns
  increasing times and that \<^verbatim>\<open>Update\<close> never sets the clock back. Here \<open>next_time\<close> is a lower
  bound of all times still to come; the contract holds while it stays below the last two
  values of the 64-bit range.
\<close>

locale clock_contract =
  fixes now :: "'r \<Rightarrow> 'c \<Rightarrow> ('c \<times> hybrid_time) result"
    and update :: "hybrid_time \<Rightarrow> 'c \<Rightarrow> 'c result"
    and next_time :: "'c \<Rightarrow> nat"
    and clock_ok :: "'c \<Rightarrow> bool"
    and readable :: "'r \<Rightarrow> bool"
  assumes now_law: "clock_ok c \<Longrightarrow> readable r \<Longrightarrow> next_time c < 2 ^ 64 - 1 \<Longrightarrow>
      \<exists>c' t. now r c = Inr (c', t) \<and> clock_ok c' \<and> next_time c \<le> unat t
        \<and> next_time c' = Suc (unat t)"
    and update_law: "clock_ok c \<Longrightarrow> is_valid t \<Longrightarrow>
      \<exists>c'. update t c = Inr c' \<and> clock_ok c' \<and> next_time c' = max (next_time c) (Suc (unat t))"
begin

lemma now_succeeds:
  assumes "clock_ok c" and "readable r" and "next_time c < 2 ^ 64 - 1"
  obtains c' t where "now r c = Inr (c', t)" and "clock_ok c'" and "next_time c \<le> unat t"
    and "next_time c' = Suc (unat t)"
  using now_law [OF assms] by blast

lemma now_result:
  assumes "clock_ok c" and "readable r" and "next_time c < 2 ^ 64 - 1"
    and "now r c = Inr (c', t)"
  shows "clock_ok c'" and "next_time c \<le> unat t" and "next_time c' = Suc (unat t)"
  using now_law [OF assms(1-3)] assms(4) by auto

text \<open>Two readings with any valid updates between them: the second is later.\<close>

lemma now_increases:
  assumes "clock_ok c" and "readable r" and "next_time c < 2 ^ 64 - 1"
    and "now r c = Inr (c1, t1)"
    and "is_valid u" and "update u c1 = Inr c2"
    and "readable r'" and "next_time c2 < 2 ^ 64 - 1" and "now r' c2 = Inr (c3, t2)"
  shows "t1 < t2" and "u < t2"
proof -
  note c1 = now_result [OF assms(1-4)]
  from update_law [OF c1(1) assms(5)] assms(6)
  have c2: "clock_ok c2" "next_time c2 = max (next_time c1) (Suc (unat u))" by auto
  note c3 = now_result [OF c2(1) assms(7,8,9)]
  show "t1 < t2" and "u < t2"
    using c1(3) c2(2) c3(2) by (simp_all add: word_less_nat_alt)
qed

end

definition hybrid_now ::
  "physical_time result \<Rightarrow> hybrid_clock_components \<Rightarrow> (hybrid_clock_components \<times> hybrid_time) result" where
  "hybrid_now r c = verify_result (NowWithError r c) (\<lambda>(c', t, err). Inr (c', t))"

definition hybrid_readable :: "physical_time result \<Rightarrow> bool" where
  "hybrid_readable r \<longleftrightarrow> (case r of Inl _ \<Rightarrow> False | Inr p \<Rightarrow> unat (time_point p) < 2 ^ 52)"

definition hybrid_clock_ok :: "hybrid_clock_components \<Rightarrow> bool" where
  "hybrid_clock_ok c \<longleftrightarrow> unat (logical c) < 4096"

interpretation hybrid: clock_contract hybrid_now Update clock_val hybrid_clock_ok hybrid_readable
proof unfold_locales
  fix c :: hybrid_clock_components and r :: "physical_time result"
  assume c: "hybrid_clock_ok c" "clock_val c < 2 ^ 64 - 1" and r: "hybrid_readable r"
  from r obtain p where p: "r = Inr p" "unat (time_point p) < 2 ^ 52"
    by (auto simp: hybrid_readable_def split: sum.splits)
  obtain c' t err where "NowWithError (Inr p) c = Inr (c', t, err)" "unat (logical c') < 4096"
    "clock_val c \<le> unat t" "clock_val c' = Suc (unat t)"
    using NowWithError_spec [of c p thesis] c p by (auto simp: hybrid_clock_ok_def)
  then show "\<exists>c' t. hybrid_now r c = Inr (c', t) \<and> hybrid_clock_ok c'
      \<and> clock_val c \<le> unat t \<and> clock_val c' = Suc (unat t)"
    by (simp add: hybrid_clock_ok_def hybrid_now_def p)
next
  fix c :: hybrid_clock_components and t :: hybrid_time
  assume "hybrid_clock_ok c" and "is_valid t"
  then obtain c' where "Update t c = Inr c'" "unat (logical c') < 4096"
    "clock_val c' = max (clock_val c) (Suc (unat t))"
    using Update_spec [of c t thesis] by (auto simp: hybrid_clock_ok_def)
  then show "\<exists>c'. Update t c = Inr c' \<and> hybrid_clock_ok c'
      \<and> clock_val c' = max (clock_val c) (Suc (unat t))"
    by (simp add: hybrid_clock_ok_def)
qed

definition logical_now :: "unit \<Rightarrow> u64 \<Rightarrow> (u64 \<times> hybrid_time) result" where
  "logical_now r c = (let (c', t, _) = LogicalClock_NowRange c in Inr (c', t))"

definition logical_update :: "hybrid_time \<Rightarrow> u64 \<Rightarrow> u64 result" where
  "logical_update t c = Inr (LogicalClock_Update t c)"

interpretation lamport: clock_contract logical_now logical_update "\<lambda>c. Suc (unat c)" "\<lambda>_. True" "\<lambda>_. True"
proof unfold_locales
  fix c :: u64 and r :: unit
  assume "Suc (unat c) < 2 ^ 64 - 1"
  then have "unat (c + 1) = Suc (unat c)" by (simp add: unat_word_ariths)
  then show "\<exists>c' t. logical_now r c = Inr (c', t) \<and> True \<and> Suc (unat c) \<le> unat t
      \<and> Suc (unat c') = Suc (unat t)"
    by (simp add: logical_now_def LogicalClock_NowRange_def Let_def)
next
  fix c t :: u64
  assume "is_valid t"
  then show "\<exists>c'. logical_update t c = Inr c' \<and> True
      \<and> Suc (unat c') = max (Suc (unat c)) (Suc (unat t))"
    by (auto simp: logical_update_def LogicalClock_Update_def word_less_nat_alt max_def)
qed

subsection \<open>Threads that share the clock\<close>

lemma thread_inv_mono:
  "clock_val sh \<le> clock_val sh' \<Longrightarrow> thread_inv sh th \<Longrightarrow> thread_inv sh' th"
  by (cases th) auto

lemma last_usec_le: "clock_val c \<le> clock_val d \<Longrightarrow> unat (logical d) < 4096
    \<Longrightarrow> last_usec c \<le> last_usec d"
  by (simp add: clock_val_def word_le_nat_alt)

lemma now1_clock_val:
  "time_point p > last_usec c \<Longrightarrow> unat (logical c) < 4096
    \<Longrightarrow> clock_val c < clock_val \<lparr>last_usec = time_point p, logical = 1\<rparr>"
  using components_less_clock_val [of c "\<lparr>last_usec = time_point p, logical = 1\<rparr>"]
  by (simp add: components_less_def)

lemma clock_inv_initial: "clock_inv initial_clock_sys"
  by (simp add: clock_inv_def initial_clock_sys_def initial_components_def clock_val_def)

lemma clock_inv_thread: "clock_inv s \<Longrightarrow> threads s i = th \<Longrightarrow> thread_inv (shared s) th"
  by (auto simp: clock_inv_def)

lemma clock_inv_shared:
  assumes "clock_inv s"
  shows "unat (logical (shared s)) < 4096"
    and "clock_val (shared s) \<le> 2 ^ 64 + length (event_log s)"
  using assms by (simp_all add: clock_inv_def)

text \<open>A step that only moves one thread keeps the invariant if the thread's part holds.\<close>

lemma clock_inv_move:
  assumes "clock_inv s" and "thread_inv (shared s) th"
  shows "clock_inv (s\<lparr>threads := (threads s)(i := th)\<rparr>)"
    and "clock_inv (s\<lparr>threads := (threads s)(i := th), event_log := e # event_log s\<rparr>)"
  using assms by (auto simp: clock_inv_def)

text \<open>A step that replaces the components by later ones keeps it too.\<close>

lemma clock_inv_swap:
  assumes "clock_inv s" and "unat (logical new) < 4096"
    and "clock_val (shared s) \<le> clock_val new"
    and "clock_val new \<le> 2 ^ 64 + Suc (length (event_log s))"
  shows "clock_inv (s\<lparr>shared := new, threads := (threads s)(i := Idle),
                     event_log := e # event_log s\<rparr>)"
  using assms thread_inv_mono by (auto simp: clock_inv_def)

lemma next_logical_inv:
  assumes "clock_inv s" and "length (event_log s) \<le> 2 ^ 64"
    and "unat (logical cur) < 4096" and "clock_val cur \<le> clock_val (shared s)"
  obtains d where "next_logical cur = Inr d" and "clock_val d = Suc (clock_val cur)"
    and "unat (logical d) < 4096"
proof -
  have "clock_val cur \<le> 2 ^ 65"
    using clock_inv_shared(2) [OF assms(1)] assms(2,4) by simp
  then have "unat (last_usec cur) < 2 ^ 64 - 1"
    by (simp add: clock_val_def)
  then show ?thesis using next_logical_spec [OF assms(3)] that by metis
qed

text \<open>The three compare-and-swaps that succeed.\<close>

lemma now1_swap_val:
  assumes "clock_inv s" and "threads s i = NowLoop1 p (shared s)"
    and "time_point p > last_usec (shared s)"
  shows "clock_val (shared s) < clock_val \<lparr>last_usec = time_point p, logical = 1\<rparr>"
    and "clock_val \<lparr>last_usec = time_point p, logical = 1\<rparr> \<le> 2 ^ 64"
  using now1_clock_val [OF assms(3)] clock_inv_shared [OF assms(1)]
    clock_inv_thread [OF assms(1,2)] by (simp_all add: clock_val_def)

lemma now2_swap_val:
  assumes "clock_inv s" and "length (event_log s) \<le> 2 ^ 64"
    and "next_logical (shared s) = Inr new"
  shows "clock_val new = Suc (clock_val (shared s))" and "unat (logical new) < 4096"
  using next_logical_inv [OF assms(1,2), of "shared s"] clock_inv_shared [OF assms(1)] assms(3)
  by auto

lemma update_swap_val:
  assumes "clock_inv s" and "threads s i = UpdateLoop t new (shared s)"
    and "components_less (shared s) new"
  shows "clock_val (shared s) < clock_val new" and "clock_val new \<le> 2 ^ 64"
    and "unat (logical new) < 4096"
  using clock_inv_thread [OF assms(1,2)] assms(3) unat_u64_less [of t]
    components_less_clock_val [of "shared s" new] by auto

lemma clock_step_inv:
  assumes "clock_step s s'" and inv: "clock_inv s" and len: "length (event_log s) \<le> 2 ^ 64"
  shows "clock_inv s'"
  using assms(1)
proof (cases rule: clock_step.cases)
  case (now1_swap i p cur)
  note v = now1_swap_val [OF inv, of i p]
  show ?thesis unfolding now1_swap(1)
    by (rule clock_inv_swap [OF inv]) (use v now1_swap(2-4) in simp_all)
next
  case (now2_swap i p cur new)
  note v = now2_swap_val [OF inv len, of new]
  show ?thesis unfolding now2_swap(1)
    by (rule clock_inv_swap [OF inv]) (use v now2_swap(2-4) clock_inv_shared [OF inv] in simp_all)
next
  case (now2_retry i p cur new)
  have th: "thread_inv (shared s) (NowLoop2 p cur)"
    by (rule clock_inv_thread [OF inv now2_retry(2)])
  have "last_usec cur \<le> last_usec (shared s)"
    by (rule last_usec_le) (use th clock_inv_shared [OF inv] in auto)
  then show ?thesis unfolding now2_retry(1)
    by (intro clock_inv_move(1) [OF inv]) (use th clock_inv_shared [OF inv] in auto)
next
  case (now2_crash i p cur e)
  have "thread_inv (shared s) (NowLoop2 p cur)"
    by (rule clock_inv_thread [OF inv now2_crash(2)])
  then show ?thesis
    using next_logical_inv [OF inv len, of cur] now2_crash(3) by auto
next
  case (update_start i t new)
  then show ?thesis unfolding update_start(1)
    using update_components_spec [of t] clock_inv_shared [OF inv]
    by (intro clock_inv_move(1) [OF inv]) auto
next
  case (update_crash i t e)
  then show ?thesis using update_components_spec [of t] by auto
next
  case (update_swap i t new cur)
  note v = update_swap_val [OF inv, of i t new]
  show ?thesis unfolding update_swap(1)
    by (rule clock_inv_swap [OF inv]) (use v update_swap(2-4) in simp_all)
next
  case (now_start i p)
  with clock_inv_shared [OF inv] show ?thesis by (simp add: clock_inv_move [OF inv])
next
  case (now1_retry i p cur)
  with clock_inv_thread [OF inv now1_retry(2)] clock_inv_shared [OF inv] show ?thesis
    by (simp add: clock_inv_move [OF inv])
next
  case (now1_exit i p cur)
  with clock_inv_thread [OF inv now1_exit(2)] show ?thesis
    by (simp add: clock_inv_move [OF inv])
next
  case (update_retry i t new cur)
  with clock_inv_thread [OF inv update_retry(2)] clock_inv_shared [OF inv] show ?thesis
    by (simp add: clock_inv_move [OF inv])
next
  case (update_done i t new cur)
  then show ?thesis by (simp add: clock_inv_move [OF inv])
qed

lemma event_log_grows: "clock_step s s' \<Longrightarrow> length (event_log s) \<le> length (event_log s')"
  by (cases rule: clock_step.cases) auto

lemma clock_reachable_inv:
  "clock_reachable s \<Longrightarrow> length (event_log s) \<le> 2 ^ 64 \<Longrightarrow> clock_inv s"
proof (induction rule: clock_reachable.induct)
  case start
  show ?case by (rule clock_inv_initial)
next
  case (step s t)
  then have "length (event_log s) \<le> 2 ^ 64" using event_log_grows le_trans by blast
  with step show ?case using clock_step_inv by blast
qed

lemma clock_step_atomic:
  assumes "clock_step s s'" and inv: "clock_inv s"
  shows "atomic_clock_step s s'"
  using assms(1)
proof (cases rule: clock_step.cases)
  case (now1_swap i p cur)
  then have "unat (time_point p) < 2 ^ 52" using clock_inv_thread [OF inv now1_swap(2)] by simp
  moreover have "NowWithError (Inr p) (shared s)
      = Inr (shared s', FromMicros (time_point p), max_error p)"
    using now1_swap by (simp add: NowWithError_def)
  ultimately show ?thesis using now1_swap by (auto simp: atomic_clock_step_def)
next
  case (now2_swap i p cur new)
  have "unat (time_point p) < 2 ^ 52 \<and> \<not> time_point p > last_usec (shared s)"
    using clock_inv_thread [OF inv now2_swap(2)] now2_swap by auto
  then show ?thesis using now2_swap
    unfolding atomic_clock_step_def NowWithError_def by fastforce
next
  case (update_swap i t new cur)
  have "thread_inv (shared s) (UpdateLoop t new cur)"
    by (rule clock_inv_thread [OF inv update_swap(2)])
  then show ?thesis using update_swap by (auto simp: atomic_clock_step_def Update_def)
next
  case (update_done i t new cur)
  have th: "thread_inv (shared s) (UpdateLoop t new cur)"
    by (rule clock_inv_thread [OF inv update_done(2)])
  then have "\<not> components_less (shared s) new"
    using update_done components_less_clock_val clock_inv_shared(1) [OF inv] by auto
  with th update_done show ?thesis by (auto simp: atomic_clock_step_def Update_def)
qed (simp_all add: atomic_clock_step_def)

text \<open>What one atomic operation does to the number the components stand for.\<close>

lemma NowWithError_clock_val:
  assumes "NowWithError (Inr p) c = Inr (c', t, err)" and "unat (logical c) < 4096"
    and "clock_val c \<le> 2 ^ 65"
  shows "clock_val c < clock_val c'"
proof (cases "time_point p > last_usec c")
  case True
  with assms now1_clock_val show ?thesis by (auto simp: NowWithError_def)
next
  case False
  have "unat (last_usec c) < 2 ^ 64 - 1" using assms(3) by (simp add: clock_val_def)
  then obtain d where "next_logical c = Inr d" "clock_val d = Suc (clock_val c)"
    using next_logical_spec [OF assms(2)] by metis
  with False assms(1) show ?thesis by (auto simp: NowWithError_def)
qed

lemma clock_reachable_log:
  assumes "clock_reachable s" and "length (event_log s) \<le> 2 ^ 64"
    and "clock_val (shared s) < 2 ^ 64"
  shows "issued_above_past (event_log s)
    \<and> (\<forall>e \<in> set (event_log s). unat (event_time e) < clock_val (shared s))"
  using assms
proof (induction rule: clock_reachable.induct)
  case start
  then show ?case by (simp add: initial_clock_sys_def)
next
  case (step s s')
  have len: "length (event_log s) \<le> 2 ^ 64"
    using event_log_grows [OF step.hyps(2)] step.prems(1) by simp
  have inv: "clock_inv s" by (rule clock_reachable_inv [OF step.hyps(1) len])
  have lt: "unat (logical (shared s)) < 4096" and le: "clock_val (shared s) \<le> 2 ^ 65"
    using clock_inv_shared [OF inv] len by simp_all
  consider (same) "shared s' = shared s" "event_log s' = event_log s"
    | (now) p t err where "unat (time_point p) < 2 ^ 52"
        "NowWithError (Inr p) (shared s) = Inr (shared s', t, err)"
        "event_log s' = Issued t # event_log s"
    | (upd) t where "is_valid t" "Update t (shared s) = Inr (shared s')"
        "event_log s' = Learned t # event_log s"
    using clock_step_atomic [OF step.hyps(2) inv] by (auto simp: atomic_clock_step_def)
  then show ?case
  proof cases
    case same
    with step len show ?thesis by simp
  next
    case now
    have "clock_val (shared s) < clock_val (shared s')"
      by (rule NowWithError_clock_val [OF now(2) lt le])
    then have lt64: "clock_val (shared s) < 2 ^ 64 - 1" using step.prems(2) by simp
    obtain c' t' err' where "NowWithError (Inr p) (shared s) = Inr (c', t', err')"
      "clock_val (shared s) \<le> unat t'" "clock_val c' = Suc (unat t')"
      by (rule NowWithError_spec [OF lt now(1) lt64])
    with now have t: "clock_val (shared s) \<le> unat t" "clock_val (shared s') = Suc (unat t)"
      by simp_all
    have "issued_above_past (event_log s)
        \<and> (\<forall>e \<in> set (event_log s). unat (event_time e) < clock_val (shared s))"
      using step.IH len lt64 by simp
    with t show ?thesis unfolding now(3) by (auto simp: word_less_nat_alt)
  next
    case upd
    obtain c' where "Update t (shared s) = Inr c'"
      "clock_val c' = max (clock_val (shared s)) (Suc (unat t))"
      by (rule Update_spec [OF lt upd(1)])
    with upd have m: "clock_val (shared s') = max (clock_val (shared s)) (Suc (unat t))" by simp
    then have "issued_above_past (event_log s)
        \<and> (\<forall>e \<in> set (event_log s). unat (event_time e) < clock_val (shared s))"
      using step.IH len step.prems(2) by simp
    with m show ?thesis unfolding upd(3) by auto
  qed
qed

subsection \<open>Differences between two times\<close>


subsection \<open>Properties\<close>

text \<open>
  C9: Any number of threads share one hybrid clock and interleave their loads and
  compare-and-swaps arbitrarily. In every reachable state, each time handed out is above
  every time handed out before it and every time learned from another server before it.
  The bounds say that the clock has not run out of its 64-bit range.
\<close>

theorem concurrent_clock_times_increase:
  assumes "clock_reachable s" and "length (event_log s) \<le> 2 ^ 64"
    and "clock_val (shared s) < 2 ^ 64"
  shows "issued_above_past (event_log s)"
  using clock_reachable_log [OF assms] by simp

definition two_readings_state :: clock_sys where
  "two_readings_state =
     \<lparr>shared = \<lparr>last_usec = 7, logical = 2\<rparr>, threads = (\<lambda>_. Idle),
      event_log = [Issued 28673, Issued 28672]\<rparr>"

lemma all_idle_update: "(\<lambda>_. Idle)(i := Idle) = (\<lambda>_. Idle)"
  by (rule fun_upd_triv)

lemma two_readings_reachable: "clock_reachable two_readings_state"
proof -
  let ?p = "\<lparr>time_point = 7, max_error = 0\<rparr> :: physical_time"
  let ?c = "\<lparr>last_usec = 7, logical = 1\<rparr> :: hybrid_clock_components"
  let ?s1 = "initial_clock_sys\<lparr>threads := (\<lambda>_. Idle)(0 := NowLoop1 ?p initial_components)\<rparr>"
  let ?s2 = "\<lparr>shared = ?c, threads = (\<lambda>_. Idle), event_log = [Issued 28672]\<rparr>"
  let ?s3 = "?s2\<lparr>threads := (\<lambda>_. Idle)(0 := NowLoop1 ?p ?c)\<rparr>"
  let ?s4 = "?s2\<lparr>threads := (\<lambda>_. Idle)(0 := NowLoop2 ?p ?c)\<rparr>"
  have "clock_step initial_clock_sys ?s1"
    using now_start [of initial_clock_sys 0 ?p] by (simp add: initial_clock_sys_def)
  moreover have "clock_step ?s1 ?s2"
    using now1_swap [of ?s1 0 ?p initial_components]
    by (simp add: initial_clock_sys_def initial_components_def FromMicros_def
        FromMicrosecondsAndLogicalValue_def kBitsForLogicalComponent_def all_idle_update)
  moreover have "clock_step ?s2 ?s3" using now_start [of ?s2 0 ?p] by simp
  moreover have "clock_step ?s3 ?s4" using now1_exit [of ?s3 0 ?p ?c] by simp
  moreover have "clock_step ?s4 two_readings_state"
    using now2_swap [of ?s4 0 ?p ?c "\<lparr>last_usec = 7, logical = 2\<rparr>"]
    by (simp add: two_readings_state_def HandleLogicalComponentOverflow_small Decremented_def
        FromMicrosecondsAndLogicalValue_def kBitsForLogicalComponent_def all_idle_update)
  ultimately show ?thesis using clock_reachable.intros by blast
qed

theorem concurrent_clock_times_increase_witness:
  "clock_reachable two_readings_state
   \<and> issued_above_past (event_log two_readings_state)"
  using two_readings_reachable concurrent_clock_times_increase [OF two_readings_reachable]
  by (simp add: two_readings_state_def clock_val_def)

text \<open>
  C10: The compare-and-swap loops are linearizable: each step of any thread either leaves
  the clock as it is or performs one whole sequential \<^verbatim>\<open>NowWithError\<close> or \<^verbatim>\<open>Update\<close> on
  the components it finds, and no thread reaches the \<^verbatim>\<open>LOG(FATAL)\<close> on a logical
  component that is too high.
\<close>

theorem concurrent_clock_refines_atomic:
  assumes "clock_reachable s" and "length (event_log s) \<le> 2 ^ 64" and "clock_step s s'"
  shows "atomic_clock_step s s' \<and> threads s' i \<noteq> Crashed"
proof -
  have "clock_inv s" by (rule clock_reachable_inv [OF assms(1,2)])
  then have "clock_inv s'" using clock_step_inv assms(2,3) by blast
  then have "thread_inv (shared s') (threads s' i)" by (simp add: clock_inv_def)
  then have "threads s' i \<noteq> Crashed" by auto
  then show ?thesis using clock_step_atomic [OF assms(3) \<open>clock_inv s\<close>] by simp
qed

theorem concurrent_clock_refines_atomic_witness:
  "\<exists>s'. clock_step two_readings_state s' \<and> atomic_clock_step two_readings_state s'
     \<and> threads s' 3 \<noteq> Crashed"
proof -
  let ?p = "\<lparr>time_point = 9, max_error = 0\<rparr> :: physical_time"
  let ?s' = "two_readings_state\<lparr>threads :=
    (threads two_readings_state)(3 := NowLoop1 ?p (shared two_readings_state))\<rparr>"
  have "clock_step two_readings_state ?s'"
    by (rule now_start) (simp_all add: two_readings_state_def)
  moreover have "length (event_log two_readings_state) \<le> 2 ^ 64"
    by (simp add: two_readings_state_def)
  ultimately show ?thesis
    using concurrent_clock_refines_atomic [OF two_readings_reachable] by blast
qed

text \<open>
  C24: A time read after a time \<open>u\<close> from another server has been learned is above both
  \<open>u\<close> and the time read before, whatever the physical clock shows, and the calls do not fail; and
  a time read is never behind the physical clock. The physical clock has its 52 bits, and neither
  the time read before nor \<open>u\<close> is one of the two largest values, \<^verbatim>\<open>kInvalid\<close> and \<^verbatim>\<open>kMax\<close>, after
  which the components leave the range of hybrid times and the next reading wraps around.
\<close>

theorem hybrid_clock_now_after_update:
  assumes "unat (logical c) < 4096" and "clock_val c < 2 ^ 64 - 1"
    and "unat (time_point p) < 2 ^ 52" and "unat (time_point q) < 2 ^ 52"
    and "NowWithError (Inr p) c = Inr (c1, t1, err1)" and "t1 < kInvalid" and "u < kInvalid"
  shows "\<exists>c2 c3 t2 err2. Update u c1 = Inr c2 \<and> NowWithError (Inr q) c2 = Inr (c3, t2, err2) \<and>
    t1 < t2 \<and> u < t2 \<and> FromMicros (time_point p) \<le> t1"
proof -
  have k: "unat kInvalid = 2 ^ 64 - 2" by (simp add: ht_const_defs)
  have c1: "unat (logical c1) < 4096" "clock_val c1 = Suc (unat t1)" "FromMicros (time_point p) \<le> t1"
    using NowWithError_spec [OF assms(1,3,2)] assms(5) by auto
  have v: "is_valid u" using assms(7) by (auto simp: is_valid_def)
  from Update_spec [OF c1(1) v] obtain c2 where
    c2: "Update u c1 = Inr c2" "unat (logical c2) < 4096" "clock_val c2 = max (clock_val c1) (Suc (unat u))" .
  have b: "clock_val c2 < 2 ^ 64 - 1" using c1(2) c2(3) assms(6,7) k by (simp add: word_less_nat_alt)
  from NowWithError_spec [OF c2(2) assms(4) b] obtain c3 t2 err2 where
    c3: "NowWithError (Inr q) c2 = Inr (c3, t2, err2)" .
  have "hybrid_now (Inr p) c = Inr (c1, t1)" "hybrid_now (Inr q) c2 = Inr (c3, t2)"
    using assms(5) c3 by (simp_all add: hybrid_now_def)
  then have "t1 < t2" "u < t2"
    using hybrid.now_increases [of c "Inr p" c1 t1 u c2 "Inr q" c3 t2] assms(1-4) c2(1) v b
    by (simp_all add: hybrid_clock_ok_def hybrid_readable_def)
  then show ?thesis using c2(1) c3 c1(3) by blast
qed

theorem hybrid_clock_now_after_update_witness:
  "\<exists>c1 t1 e1 c2 c3 t2 e2.
     NowWithError (Inr \<lparr>time_point = 10, max_error = 1\<rparr>) initial_components = Inr (c1, t1, e1)
     \<and> Update 81920 c1 = Inr c2
     \<and> NowWithError (Inr \<lparr>time_point = 5, max_error = 1\<rparr>) c2 = Inr (c3, t2, e2)
     \<and> t1 < t2 \<and> 81920 < t2"
proof -
  let ?p = "\<lparr>time_point = 10, max_error = 1\<rparr> :: physical_time"
  let ?q = "\<lparr>time_point = 5, max_error = 1\<rparr> :: physical_time"
  let ?c1 = "\<lparr>last_usec = 10, logical = 1\<rparr> :: hybrid_clock_components"
  have n: "NowWithError (Inr ?p) initial_components = Inr (?c1, FromMicros 10, 1)"
    by (simp add: NowWithError_def initial_components_def)
  have "FromMicros 10 < kInvalid"
    by (simp add: ht_const_defs FromMicros_def FromMicrosecondsAndLogicalValue_def kBitsForLogicalComponent_def)
  then have "\<exists>c2 c3 t2 e2. Update 81920 ?c1 = Inr c2 \<and> NowWithError (Inr ?q) c2 = Inr (c3, t2, e2) \<and>
    FromMicros 10 < t2 \<and> 81920 < t2 \<and> FromMicros (time_point ?p) \<le> FromMicros 10"
    by (intro hybrid_clock_now_after_update [OF _ _ _ _ n])
      (simp_all add: initial_components_def clock_val_def ht_const_defs)
  with n show ?thesis by blast
qed

text \<open>
  C39: The clock does not survive learning the largest hybrid time: that value counts as
  valid, the components move one microsecond past the 52-bit range, and the next reading is
  the smallest hybrid time.
\<close>

theorem hybrid_clock_update_kMax_wraps:
  assumes "unat (time_point p) < 2 ^ 52" and "unat (logical c) < 4096"
    and "unat (last_usec c) < 2 ^ 52"
  shows "is_valid kMax
    \<and> (\<exists>c' c'' err. Update kMax c = Inr c' \<and> NowWithError (Inr p) c' = Inr (c'', kMin, err))"
proof -
  let ?c' = "\<lparr>last_usec = 2 ^ 52, logical = 0\<rparr> :: hybrid_clock_components"
  have v: "is_valid kMax" by (simp add: is_valid_def ht_const_defs)
  have "components_less c ?c'"
    using assms(3) by (simp add: components_less_def word_less_nat_alt)
  then have u: "Update kMax c = Inr ?c'"
    using v by (simp add: Update_def GetPhysicalValueMicros_def GetLogicalValue_def kMax_def
        kLogicalBitMask_def kBitsForLogicalComponent_def HandleLogicalComponentOverflow_def
        ht_const_defs mask_eq_exp_minus_1)
  have "\<not> time_point p > 2 ^ 52"
    using assms(1) by (simp add: word_less_nat_alt)
  then have "\<exists>c'' err. NowWithError (Inr p) ?c' = Inr (c'', kMin, err)"
    by (simp add: NowWithError_def HandleLogicalComponentOverflow_def kLogicalBitMask_def
        kBitsForLogicalComponent_def Decremented_def FromMicrosecondsAndLogicalValue_def kMin_def)
  with v u show ?thesis by blast
qed

theorem hybrid_clock_update_kMax_wraps_witness:
  "\<exists>c' c'' err. Update kMax initial_components = Inr c'
     \<and> NowWithError (Inr \<lparr>time_point = 5, max_error = 0\<rparr>) c' = Inr (c'', kMin, err)"
  using hybrid_clock_update_kMax_wraps [of "\<lparr>time_point = 5, max_error = 0\<rparr>" initial_components]
  by (simp add: initial_components_def)


end
