(* ===== verification/Mvcc_Manager.thy ===== *)
theory Mvcc_Manager
  imports Hybrid_Clock
begin

text \<open>
  The MVCC manager of a tablet (\<^verbatim>\<open>src/src/yb/tablet/mvcc.h\<close>, \<^verbatim>\<open>mvcc.cc\<close>): it tracks the
  hybrid times of the operations in flight and tells readers up to which time it is safe to
  read.

  The operations are those of the class, each a function from the manager to the manager.
  The clock enters as the time its \<^verbatim>\<open>Now()\<close> returns. The waits on the condition variable
  are split at the points where the mutex is released: entering, evaluating the predicate
  (again after every wake-up), finishing, timing out. The parameter \<open>ndebug\<close> is the
  \<^verbatim>\<open>NDEBUG\<close> of a release build.

  The invariant \<open>mvcc_inv\<close> is kept by every operation under what its callers guarantee;
  the sequences of calls are in the theory \<open>Mvcc_System\<close>.
\<close>

subsection \<open>State\<close>

datatype safe_time_source =
  kUnknown | kNow | kNextInQueue | kHybridTimeLease | kPropagated | kLastReplicated

record safe_time_with_source =
  safe_time :: hybrid_time
  source :: safe_time_source

text \<open>
  The deque \<^verbatim>\<open>queue_\<close> is a list, front first. The min-heap \<^verbatim>\<open>aborted_\<close> is kept as an
  ascending list: its top is the head.
\<close>

record mvcc_manager =
  queue :: "hybrid_time list"
  aborted :: "hybrid_time list"
  last_replicated :: hybrid_time
  propagated_safe_time :: hybrid_time
  max_ht_lease_seen :: hybrid_time
  max_safe_time_returned_with_lease :: safe_time_with_source
  max_safe_time_returned_without_lease :: safe_time_with_source
  max_safe_time_returned_for_follower :: safe_time_with_source

definition initial_mvcc :: mvcc_manager where
  "initial_mvcc =
     (let none = \<lparr>safe_time = kMin, source = kUnknown\<rparr>
      in \<lparr>queue = [], aborted = [], last_replicated = kMin, propagated_safe_time = kMin,
          max_ht_lease_seen = kMin, max_safe_time_returned_with_lease = none,
          max_safe_time_returned_without_lease = none,
          max_safe_time_returned_for_follower = none\<rparr>)"

subsection \<open>Operations leave the queue\<close>

fun PopFront_loop ::
  "hybrid_time list \<Rightarrow> hybrid_time list \<Rightarrow> (hybrid_time list \<times> hybrid_time list) result" where
  "PopFront_loop q [] = Inr (q, [])"
| "PopFront_loop [] (a # ab) = Inl Undefined"
| "PopFront_loop (x # q) (a # ab) =
     (if x \<noteq> a then check_that (x < a) (Inr (x # q, a # ab)) else PopFront_loop q ab)"

definition PopFront :: "mvcc_manager \<Rightarrow> mvcc_manager result" where
  "PopFront m =
     (case queue m of
        [] \<Rightarrow> Inl Undefined
      | _ # q \<Rightarrow>
          check_that (length q \<ge> length (aborted m))
            (verify_result (PopFront_loop q (aborted m))
               (\<lambda>(q', ab'). Inr (m\<lparr>queue := q', aborted := ab'\<rparr>))))"

definition Replicated :: "hybrid_time \<Rightarrow> mvcc_manager \<Rightarrow> mvcc_manager result" where
  "Replicated ht m =
     check_that (queue m \<noteq> [])
       (check_that (hd (queue m) = ht)
         (verify_result (PopFront m) (\<lambda>m'. Inr (m'\<lparr>last_replicated := ht\<rparr>))))"

definition Aborted_op :: "hybrid_time \<Rightarrow> mvcc_manager \<Rightarrow> mvcc_manager result" where
  "Aborted_op ht m =
     check_that (queue m \<noteq> [])
       (if hd (queue m) = ht then PopFront m
        else Inr (m\<lparr>aborted := insort ht (aborted m)\<rparr>))"

subsection \<open>Operations enter the queue\<close>

text \<open>
  The loop over the aborted operations in the middle of the queue. Its condition reads
  \<^verbatim>\<open>aborted_.top()\<close> also when the heap has just become empty.
\<close>

fun erase_aborted ::
  "hybrid_time list \<Rightarrow> hybrid_time list \<Rightarrow> (hybrid_time list \<times> hybrid_time list) result" where
  "erase_aborted [] ab = Inr ([], ab)"
| "erase_aborted (x # q) [] = Inl Undefined"
| "erase_aborted (x # q) (a # ab) = (if x = a then erase_aborted q ab else Inr (x # q, a # ab))"

definition AddPending_erase :: "hybrid_time \<Rightarrow> mvcc_manager \<Rightarrow> mvcc_manager result" where
  "AddPending_erase ht m =
     (if queue m \<noteq> [] \<and> ht \<le> last (queue m) \<and> aborted m \<noteq> [] then
        (let top = hd (aborted m);
             before = takeWhile (\<lambda>x. x < top) (queue m);
             iter = dropWhile (\<lambda>x. x < top) (queue m)
         in check_that (iter \<noteq> [])
              (verify_result (erase_aborted iter (aborted m))
                 (\<lambda>(rest, ab'). Inr (m\<lparr>queue := before @ rest, aborted := ab'\<rparr>))))
      else Inr m)"

definition sanity_check_lower_bound :: "mvcc_manager \<Rightarrow> hybrid_time" where
  "sanity_check_lower_bound m =
     (let last_ht_in_queue = (if queue m = [] then kMin else last (queue m))
      in max (safe_time (max_safe_time_returned_with_lease m))
           (max (safe_time (max_safe_time_returned_without_lease m))
             (max (safe_time (max_safe_time_returned_for_follower m))
               (max (last_replicated m) last_ht_in_queue))))"

definition AddPending ::
  "bool \<Rightarrow> hybrid_time \<Rightarrow> hybrid_time \<Rightarrow> mvcc_manager \<Rightarrow> (mvcc_manager \<times> hybrid_time) result" where
  "AddPending ndebug clock_now ht0 m0 =
     (let is_follower_side = is_valid ht0;
          ht = (if is_follower_side then ht0 else clock_now)
      in verify_result (AddPending_erase ht m0) (\<lambda>m.
           let bound = sanity_check_lower_bound m
           in if queue m \<noteq> [] \<and> ht \<le> bound then
                (let ht' = (if ndebug \<and> \<not> is_follower_side \<and> is_valid bound \<and> bound \<noteq> kMax
                            then Incremented bound else ht)
                 in check_that (\<not> ht' \<le> bound)
                      (Inr (m\<lparr>queue := queue m @ [ht']\<rparr>, ht')))
              else Inr (m\<lparr>queue := queue m @ [ht]\<rparr>, ht)))"

subsection \<open>Times learned from consensus\<close>

definition SetLastReplicated :: "hybrid_time \<Rightarrow> mvcc_manager \<Rightarrow> mvcc_manager" where
  "SetLastReplicated ht m = m\<lparr>last_replicated := ht\<rparr>"

definition SetPropagatedSafeTimeOnFollower :: "hybrid_time \<Rightarrow> mvcc_manager \<Rightarrow> mvcc_manager" where
  "SetPropagatedSafeTimeOnFollower ht m =
     (if ht \<ge> propagated_safe_time m then m\<lparr>propagated_safe_time := ht\<rparr> else m)"

definition LastReplicatedHybridTime :: "mvcc_manager \<Rightarrow> hybrid_time" where
  "LastReplicatedHybridTime m = last_replicated m"

subsection \<open>Safe time on the leader\<close>

definition DoGetSafeTime_enter ::
  "hybrid_time \<Rightarrow> hybrid_time \<Rightarrow> mvcc_manager \<Rightarrow> (mvcc_manager \<times> bool) result" where
  "DoGetSafeTime_enter min_allowed ht_lease m =
     check_that (is_valid ht_lease)
       (check_that (min_allowed \<le> ht_lease)
         (let has_lease = GetPhysicalValueMicros ht_lease < kMaxHybridTimePhysicalMicros
          in Inr (if has_lease then m\<lparr>max_ht_lease_seen := max ht_lease (max_ht_lease_seen m)\<rparr>
                  else m, has_lease)))"

definition DoGetSafeTime_predicate ::
  "hybrid_time \<Rightarrow> hybrid_time \<Rightarrow> bool \<Rightarrow> mvcc_manager
     \<Rightarrow> (bool \<times> hybrid_time \<times> safe_time_source) result" where
  "DoGetSafeTime_predicate clock_now min_allowed has_lease m =
     check_that (queue m = [] \<longrightarrow> clock_now \<ge> min_allowed)
       (let (result, source) =
              (if queue m = [] then (clock_now, kNow)
               else (Decremented (hd (queue m)), kNextInQueue));
            (result, source) =
              (if has_lease \<and> result > max_ht_lease_seen m
               then (max_ht_lease_seen m, kHybridTimeLease) else (result, source));
            result = max result (last_replicated m)
        in Inr (result \<ge> min_allowed, result, source))"

definition DoGetSafeTime_finish ::
  "bool \<Rightarrow> hybrid_time \<Rightarrow> safe_time_source \<Rightarrow> mvcc_manager
     \<Rightarrow> (mvcc_manager \<times> hybrid_time) result" where
  "DoGetSafeTime_finish has_lease result src m =
     (let enforced_min_time =
            (if has_lease then safe_time (max_safe_time_returned_with_lease m)
             else safe_time (max_safe_time_returned_without_lease m));
          returned = \<lparr>safe_time = result, source = src\<rparr>
      in check_that (result \<ge> enforced_min_time)
           (Inr (if has_lease then m\<lparr>max_safe_time_returned_with_lease := returned\<rparr>
                 else m\<lparr>max_safe_time_returned_without_lease := returned\<rparr>, result)))"

text \<open>One evaluation of the predicate, and the end of the call if it holds; \<open>None\<close> goes
  back to waiting.\<close>

definition DoGetSafeTime_try ::
  "hybrid_time \<Rightarrow> hybrid_time \<Rightarrow> bool \<Rightarrow> mvcc_manager
     \<Rightarrow> (mvcc_manager \<times> hybrid_time option) result" where
  "DoGetSafeTime_try clock_now min_allowed has_lease m =
     verify_result (DoGetSafeTime_predicate clock_now min_allowed has_lease m)
       (\<lambda>(holds, result, src).
          if holds then
            verify_result (DoGetSafeTime_finish has_lease result src m)
              (\<lambda>(m', r). Inr (m', Some r))
          else Inr (m, None))"

definition DoGetSafeTime ::
  "hybrid_time \<Rightarrow> hybrid_time \<Rightarrow> hybrid_time \<Rightarrow> mvcc_manager
     \<Rightarrow> (mvcc_manager \<times> hybrid_time option) result" where
  "DoGetSafeTime clock_now min_allowed ht_lease m =
     verify_result (DoGetSafeTime_enter min_allowed ht_lease m)
       (\<lambda>(m', has_lease). DoGetSafeTime_try clock_now min_allowed has_lease m')"

text \<open>With \<^verbatim>\<open>min_allowed = kMin\<close> the predicate always holds, so the call does not wait.\<close>

definition UpdatePropagatedSafeTimeOnLeader ::
  "bool \<Rightarrow> hybrid_time \<Rightarrow> hybrid_time \<Rightarrow> mvcc_manager \<Rightarrow> mvcc_manager result" where
  "UpdatePropagatedSafeTimeOnLeader ndebug clock_now ht_lease m =
     verify_result (DoGetSafeTime clock_now kMin ht_lease m)
       (\<lambda>(m', res).
          case res of
            None \<Rightarrow> Inl Undefined
          | Some ht \<Rightarrow>
              if ndebug then
                Inr (if ht < propagated_safe_time m' then m'
                     else m'\<lparr>propagated_safe_time := ht\<rparr>)
              else
                check_that (ht \<ge> propagated_safe_time m')
                  (Inr (m'\<lparr>propagated_safe_time := ht\<rparr>)))"

subsection \<open>Safe time on a follower\<close>

definition SafeTimeForFollower_predicate ::
  "hybrid_time \<Rightarrow> mvcc_manager \<Rightarrow> bool \<times> safe_time_with_source" where
  "SafeTimeForFollower_predicate min_allowed m =
     (let result =
            (if propagated_safe_time m > last_replicated m
             then \<lparr>safe_time = propagated_safe_time m, source = kPropagated\<rparr>
             else \<lparr>safe_time = last_replicated m, source = kLastReplicated\<rparr>)
      in (safe_time result \<ge> min_allowed, result))"

definition SafeTimeForFollower ::
  "hybrid_time \<Rightarrow> mvcc_manager \<Rightarrow> (mvcc_manager \<times> hybrid_time option) result" where
  "SafeTimeForFollower min_allowed m =
     (let (holds, result) = SafeTimeForFollower_predicate min_allowed m
      in if holds then
           check_that (safe_time result \<ge> safe_time (max_safe_time_returned_for_follower m))
             (Inr (m\<lparr>max_safe_time_returned_for_follower := result\<rparr>, Some (safe_time result)))
         else Inr (m, None))"

subsection \<open>The invariant\<close>

text \<open>The times the manager has returned to readers, and all times that bound new ones.\<close>

definition returned_times :: "mvcc_manager \<Rightarrow> hybrid_time list" where
  "returned_times m =
     [safe_time (max_safe_time_returned_with_lease m),
      safe_time (max_safe_time_returned_without_lease m),
      safe_time (max_safe_time_returned_for_follower m)]"

definition known_times :: "mvcc_manager \<Rightarrow> hybrid_time list" where
  "known_times m = last_replicated m # propagated_safe_time m # returned_times m"

definition follower_time_ok :: "hybrid_time \<Rightarrow> mvcc_manager \<Rightarrow> bool" where
  "follower_time_ok ht m \<longleftrightarrow>
     is_valid ht
     \<and> (\<forall>v \<in> set (known_times m). v < ht)
     \<and> (\<forall>x \<in> set (queue m). x < ht \<or> x \<in> set (aborted m))
     \<and> (queue m \<noteq> [] \<and> ht \<le> last (queue m) \<longrightarrow>
          queue m = takeWhile (\<lambda>x. x < hd (aborted m)) (queue m) @ aborted m)"

text \<open>The time a call of \<^verbatim>\<open>DoGetSafeTime\<close> computes, in one expression.\<close>

definition safe_result :: "hybrid_time \<Rightarrow> bool \<Rightarrow> mvcc_manager \<Rightarrow> hybrid_time" where
  "safe_result clock_now has_lease m =
     (let base = (if queue m = [] then clock_now else Decremented (hd (queue m)))
      in max (if has_lease then min base (max_ht_lease_seen m) else base) (last_replicated m))"

text \<open>
  The invariant, relative to a bound of all times the clock has given out or learned.
\<close>

definition mvcc_inv :: "nat \<Rightarrow> mvcc_manager \<Rightarrow> bool" where
  "mvcc_inv B m \<longleftrightarrow>
     sorted_wrt (<) (queue m) \<and> sorted_wrt (<) (aborted m)
     \<and> set (aborted m) \<subseteq> set (queue m) \<and> (queue m \<noteq> [] \<longrightarrow> hd (queue m) \<notin> set (aborted m))
     \<and> (\<forall>x \<in> set (queue m). unat x < B)
     \<and> (\<forall>v \<in> set (known_times m). unat v < B \<and> (\<forall>x \<in> set (queue m). v < x))
     \<and> safe_time (max_safe_time_returned_with_lease m)
         \<le> max (max_ht_lease_seen m) (last_replicated m)
     \<and> safe_time (max_safe_time_returned_for_follower m)
         \<le> max (propagated_safe_time m) (last_replicated m)"

subsection \<open>Leaving the queue keeps the invariant\<close>

lemma PopFront_loop_spec:
  assumes "sorted_wrt (<) q" and "sorted_wrt (<) ab" and "set ab \<subseteq> set q"
  obtains q' ab' where "PopFront_loop q ab = Inr (q', ab')"
    and "sorted_wrt (<) q'" and "sorted_wrt (<) ab'" and "set q' \<subseteq> set q"
    and "set ab' \<subseteq> set q'" and "q' \<noteq> [] \<Longrightarrow> hd q' \<notin> set ab'"
  using assms
proof (induction q ab arbitrary: thesis rule: PopFront_loop.induct)
  case (3 x q a ab)
  show ?case
  proof (cases "x = a")
    case True
    from 3(3-5) True have "sorted_wrt (<) q" "sorted_wrt (<) ab" "set ab \<subseteq> set q"
      by auto
    with "3.IH" [OF _ _ this] True obtain q' ab' where
      "PopFront_loop q ab = Inr (q', ab')" "sorted_wrt (<) q'" "sorted_wrt (<) ab'"
      "set q' \<subseteq> set q" "set ab' \<subseteq> set q'" "q' \<noteq> [] \<Longrightarrow> hd q' \<notin> set ab'" by blast
    with True 3(2) [of q' ab'] show ?thesis by auto
  next
    case False
    then have "x < a" using 3(3-5) by auto
    then have "x \<notin> set (a # ab)" using 3(4) by (auto dest: less_asym')
    with False 3(2) [of "x # q" "a # ab"] 3(3-5) show ?thesis by simp
  qed
qed simp_all

lemma mvcc_inv_queue:
  assumes "mvcc_inv B m" and "sorted_wrt (<) q'" and "sorted_wrt (<) ab'"
    and "set q' \<subseteq> set (queue m)" and "set ab' \<subseteq> set q'"
    and "q' \<noteq> [] \<Longrightarrow> hd q' \<notin> set ab'"
  shows "mvcc_inv B (m\<lparr>queue := q', aborted := ab'\<rparr>)"
  using assms by (auto simp: mvcc_inv_def known_times_def returned_times_def)

lemma PopFront_spec:
  assumes "mvcc_inv B m" and "queue m = x # q"
  obtains q' ab' where "PopFront m = Inr (m\<lparr>queue := q', aborted := ab'\<rparr>)"
    and "mvcc_inv B (m\<lparr>queue := q', aborted := ab'\<rparr>)" and "set q' \<subseteq> set q"
proof -
  from assms have q: "sorted_wrt (<) q" "sorted_wrt (<) (aborted m)" "set (aborted m) \<subseteq> set q"
    by (auto simp: mvcc_inv_def)
  have "distinct (aborted m)" "distinct q"
    using q(1,2) by (simp_all add: strict_sorted_iff)
  then have len: "length (aborted m) \<le> length q"
    using q(3) by (metis card_mono distinct_card finite_set)
  obtain q' ab' where l: "PopFront_loop q (aborted m) = Inr (q', ab')"
    "sorted_wrt (<) q'" "sorted_wrt (<) ab'" "set q' \<subseteq> set q" "set ab' \<subseteq> set q'"
    "q' \<noteq> [] \<Longrightarrow> hd q' \<notin> set ab'"
    using PopFront_loop_spec [OF q] by metis
  then have "mvcc_inv B (m\<lparr>queue := q', aborted := ab'\<rparr>)"
    using assms by (intro mvcc_inv_queue) auto
  with l len that show ?thesis by (simp add: PopFront_def assms(2))
qed

lemma mvcc_inv_last_replicated:
  assumes "mvcc_inv B m" and "last_replicated m \<le> ht" and "unat ht < B"
    and "\<forall>x \<in> set (queue m). ht < x"
  shows "mvcc_inv B (m\<lparr>last_replicated := ht\<rparr>)"
  using assms unfolding mvcc_inv_def known_times_def returned_times_def
  by (auto simp: le_max_iff_disj)

lemma Replicated_spec:
  assumes "mvcc_inv B m" and "queue m \<noteq> []" and "ht = hd (queue m)"
  obtains m' where "Replicated ht m = Inr m'" and "mvcc_inv B m'"
    and "returned_times m' = returned_times m"
proof -
  obtain q where q: "queue m = ht # q" using assms by (cases "queue m") auto
  obtain q' ab' where p: "PopFront m = Inr (m\<lparr>queue := q', aborted := ab'\<rparr>)"
    "mvcc_inv B (m\<lparr>queue := q', aborted := ab'\<rparr>)" "set q' \<subseteq> set q"
    by (rule PopFront_spec [OF assms(1) q])
  have "\<forall>x \<in> set q'. ht < x" "last_replicated m < ht" "unat ht < B"
    using assms(1) q p(3) by (auto simp: mvcc_inv_def known_times_def)
  then have "mvcc_inv B (m\<lparr>queue := q', aborted := ab', last_replicated := ht\<rparr>)"
    using mvcc_inv_last_replicated [OF p(2), of ht] by simp
  with p q that show ?thesis
    by (simp add: Replicated_def returned_times_def)
qed

lemma Aborted_op_spec:
  assumes "mvcc_inv B m" and "ht \<in> set (queue m)" and "ht \<notin> set (aborted m)"
  obtains m' where "Aborted_op ht m = Inr m'" and "mvcc_inv B m'"
    and "returned_times m' = returned_times m"
proof (cases "hd (queue m) = ht")
  case True
  then obtain q where q: "queue m = ht # q" using assms(2) by (cases "queue m") auto
  obtain q' ab' where "PopFront m = Inr (m\<lparr>queue := q', aborted := ab'\<rparr>)"
    "mvcc_inv B (m\<lparr>queue := q', aborted := ab'\<rparr>)"
    by (rule PopFront_spec [OF assms(1) q])
  with q that show ?thesis by (simp add: Aborted_op_def returned_times_def)
next
  case False
  have ne: "queue m \<noteq> []" using assms(2) by auto
  have "sorted_wrt (<) (insort ht (aborted m))"
    using assms(1,3) by (auto simp: mvcc_inv_def strict_sorted_iff distinct_insort sorted_insort)
  then have "mvcc_inv B (m\<lparr>queue := queue m, aborted := insort ht (aborted m)\<rparr>)"
    using assms False ne by (intro mvcc_inv_queue) (auto simp: mvcc_inv_def set_insort_key)
  with False ne that show ?thesis by (simp add: Aborted_op_def returned_times_def)
qed

subsection \<open>Entering the queue keeps the invariant\<close>

lemma mvcc_inv_append:
  assumes "mvcc_inv B m" and "\<forall>x \<in> set (queue m). x < t" and "\<forall>v \<in> set (known_times m). v < t"
    and "unat t < B'" and "B \<le> B'"
  shows "mvcc_inv B' (m\<lparr>queue := queue m @ [t]\<rparr>)"
proof -
  have "t \<notin> set (aborted m)" using assms(1,2) by (auto simp: mvcc_inv_def)
  then show ?thesis
    using assms unfolding mvcc_inv_def known_times_def returned_times_def
    by (auto simp: sorted_wrt_append hd_append)
qed

lemma sanity_check_lower_bound_less:
  assumes "\<forall>x \<in> set (queue m). x < t" and "\<forall>v \<in> set (known_times m). v < t"
    and "queue m \<noteq> []"
  shows "sanity_check_lower_bound m < t"
  using assms by (simp add: sanity_check_lower_bound_def known_times_def returned_times_def)

lemma AddPending_above:
  assumes "ht = (if is_valid ht0 then ht0 else clock_now)"
    and "AddPending_erase ht m = Inr m'"
    and "\<forall>x \<in> set (queue m'). x < ht" and "\<forall>v \<in> set (known_times m'). v < ht"
  shows "AddPending ndebug clock_now ht0 m = Inr (m'\<lparr>queue := queue m' @ [ht]\<rparr>, ht)"
proof -
  have "\<not> (queue m' \<noteq> [] \<and> ht \<le> sanity_check_lower_bound m')"
    using sanity_check_lower_bound_less [OF assms(3,4)] by auto
  then show ?thesis
    unfolding AddPending_def Let_def assms(1) [symmetric] using assms(2) by auto
qed

lemma AddPending_leader_spec:
  assumes "mvcc_inv B m" and "B \<le> unat t"
  shows "AddPending ndebug t kInvalid m = Inr (m\<lparr>queue := queue m @ [t]\<rparr>, t)"
    and "mvcc_inv (Suc (unat t)) (m\<lparr>queue := queue m @ [t]\<rparr>)"
proof -
  have q: "\<forall>x \<in> set (queue m). x < t" and k: "\<forall>v \<in> set (known_times m). v < t"
    using assms by (auto simp: mvcc_inv_def word_less_nat_alt)
  then have "AddPending_erase t m = Inr m"
    by (auto simp: AddPending_erase_def dest: bspec [where x = "last (queue m)"])
  then show "AddPending ndebug t kInvalid m = Inr (m\<lparr>queue := queue m @ [t]\<rparr>, t)"
    using AddPending_above [of t kInvalid t m m] q k by (simp add: is_valid_def)
  show "mvcc_inv (Suc (unat t)) (m\<lparr>queue := queue m @ [t]\<rparr>)"
    by (rule mvcc_inv_append [OF assms(1) q k]) (use assms(2) in simp_all)
qed

lemma erase_aborted_all: "erase_aborted ab ab = Inr ([], [])"
  by (induction ab) auto

lemma sorted_le_last: "sorted xs \<Longrightarrow> x \<in> set xs \<Longrightarrow> x \<le> last xs"
  by (induction xs) auto

lemma follower_erase:
  assumes inv: "mvcc_inv B m" and ok: "follower_time_ok ht m"
  obtains m' where "AddPending_erase ht m = Inr m'" and "mvcc_inv B m'"
    and "\<forall>x \<in> set (queue m'). x < ht" and "known_times m' = known_times m"
proof (cases "queue m \<noteq> [] \<and> ht \<le> last (queue m)")
  case True
  let ?p = "takeWhile (\<lambda>x. x < hd (aborted m)) (queue m)"
  have split: "queue m = ?p @ aborted m" using ok True by (simp add: follower_time_ok_def)
  have srt: "sorted_wrt (<) (?p @ aborted m)" using inv split by (simp add: mvcc_inv_def)
  have "last (queue m) \<in> set (aborted m)"
    using ok True last_in_set by (fastforce simp: follower_time_ok_def)
  then have ab: "aborted m \<noteq> []" by auto
  have d: "dropWhile (\<lambda>x. x < hd (aborted m)) (queue m) = aborted m"
    using split by (metis append_same_eq same_append_eq takeWhile_dropWhile_id)
  have e: "AddPending_erase ht m = Inr (m\<lparr>queue := ?p, aborted := []\<rparr>)"
    unfolding AddPending_erase_def Let_def d using True ab by (simp add: erase_aborted_all)
  have i: "mvcc_inv B (m\<lparr>queue := ?p, aborted := []\<rparr>)"
    using srt by (intro mvcc_inv_queue [OF inv])
      (auto simp: sorted_wrt_append dest: set_takeWhileD)
  have "x < ht" if "x \<in> set ?p" for x
  proof -
    have "x \<notin> set (aborted m)" using srt that by (auto simp: sorted_wrt_append)
    then show ?thesis using ok set_takeWhileD [OF that] by (auto simp: follower_time_ok_def)
  qed
  with e i that show ?thesis by (simp add: known_times_def returned_times_def)
next
  case False
  have "x < ht" if "x \<in> set (queue m)" for x
  proof -
    have "sorted (queue m)" using inv by (simp add: mvcc_inv_def strict_sorted_iff)
    then have "x \<le> last (queue m)" using that by (rule sorted_le_last)
    moreover have "queue m \<noteq> []" using that by auto
    ultimately show ?thesis using False by auto
  qed
  then show ?thesis using that [of m] inv False by (auto simp: AddPending_erase_def)
qed

lemma AddPending_follower_spec:
  assumes "mvcc_inv B m" and "follower_time_ok ht m" and "unat ht < B"
  obtains m' where "AddPending ndebug clock_now ht m = Inr (m', ht)" and "mvcc_inv B m'"
    and "returned_times m' = returned_times m"
proof -
  obtain m1 where m1: "AddPending_erase ht m = Inr m1" "mvcc_inv B m1"
    "\<forall>x \<in> set (queue m1). x < ht" "known_times m1 = known_times m"
    by (rule follower_erase [OF assms(1,2)])
  have k: "\<forall>v \<in> set (known_times m1). v < ht"
    using assms(2) m1(4) by (simp add: follower_time_ok_def)
  have "AddPending ndebug clock_now ht m = Inr (m1\<lparr>queue := queue m1 @ [ht]\<rparr>, ht)"
    by (rule AddPending_above [OF _ m1(1,3) k]) (use assms(2) in \<open>simp add: follower_time_ok_def\<close>)
  moreover have "mvcc_inv B (m1\<lparr>queue := queue m1 @ [ht]\<rparr>)"
    by (rule mvcc_inv_append [OF m1(2,3) k assms(3)]) simp
  ultimately show ?thesis using that m1(4)
    by (simp add: known_times_def returned_times_def)
qed

subsection \<open>Safe times\<close>

lemma DoGetSafeTime_predicate_eq:
  assumes "queue m = [] \<Longrightarrow> min_allowed \<le> t"
  obtains src where "DoGetSafeTime_predicate t min_allowed has_lease m
    = Inr (min_allowed \<le> safe_result t has_lease m, safe_result t has_lease m, src)"
proof -
  have c: "queue m = [] \<longrightarrow> t \<ge> min_allowed" using assms by simp
  have "\<exists>src. DoGetSafeTime_predicate t min_allowed has_lease m
      = Inr (min_allowed \<le> safe_result t has_lease m, safe_result t has_lease m, src)"
    unfolding DoGetSafeTime_predicate_def check_that_def if_P [OF c] safe_result_def Let_def
    by (auto simp: min_def)
  with that show ?thesis by blast
qed

lemma mvcc_inv_hd:
  assumes "mvcc_inv B m" and "queue m \<noteq> []"
  shows "kMin < hd (queue m)" and "unat (hd (queue m)) < B"
    and "\<forall>x \<in> set (queue m). hd (queue m) \<le> x" and "\<forall>v \<in> set (known_times m). v < hd (queue m)"
proof -
  have "last_replicated m < hd (queue m)"
    using assms by (simp add: mvcc_inv_def known_times_def)
  then show "kMin < hd (queue m)" by (rule le_less_trans [rotated]) (simp add: kMin_def)
  show "unat (hd (queue m)) < B" "\<forall>v \<in> set (known_times m). v < hd (queue m)"
    using assms by (auto simp: mvcc_inv_def)
  show "\<forall>x \<in> set (queue m). hd (queue m) \<le> x"
    using assms by (cases "queue m") (auto simp: mvcc_inv_def)
qed

lemma safe_result_bounds:
  assumes inv: "mvcc_inv B m" and t: "queue m = [] \<longrightarrow> B \<le> unat t"
    and B': "B' = (if queue m = [] then Suc (unat t) else B)"
  shows "unat (safe_result t has_lease m) < B'"
    and "\<forall>x \<in> set (queue m). safe_result t has_lease m < x"
    and "B \<le> B'" and "last_replicated m \<le> safe_result t has_lease m"
    and "\<And>v. v \<in> set (known_times m) \<Longrightarrow>
      has_lease \<Longrightarrow> v \<le> max (max_ht_lease_seen m) (last_replicated m) \<Longrightarrow>
      v \<le> safe_result t has_lease m"
    and "\<And>v. v \<in> set (known_times m) \<Longrightarrow> \<not> has_lease \<Longrightarrow> v \<le> safe_result t has_lease m"
proof -
  define base where "base = (if queue m = [] then t else Decremented (hd (queue m)))"
  have r: "safe_result t has_lease m
      = max (if has_lease then min base (max_ht_lease_seen m) else base) (last_replicated m)"
    by (simp add: safe_result_def base_def Let_def)
  have known: "v \<le> base" if "v \<in> set (known_times m)" for v
  proof (cases "queue m = []")
    case True
    have "unat v < B" using inv that by (simp add: mvcc_inv_def)
    then show ?thesis using t True by (simp add: base_def word_le_nat_alt)
  next
    case False
    then show ?thesis
      using mvcc_inv_hd(1,4) [OF inv False] that by (simp add: base_def less_iff_le_Decremented)
  qed
  have below: "base < x" if "x \<in> set (queue m)" for x
  proof -
    have "queue m \<noteq> []" using that by auto
    then show ?thesis
      using mvcc_inv_hd(1,3) [OF inv] Decremented_less [of "hd (queue m)"] that
      by (force simp: base_def intro: less_le_trans)
  qed
  have "unat base < B'"
    using mvcc_inv_hd(2) [OF inv] by (auto simp: base_def B' unat_Decremented)
  moreover have "unat (last_replicated m) < B" "\<forall>x \<in> set (queue m). last_replicated m < x"
    using inv by (auto simp: mvcc_inv_def known_times_def)
  moreover show "B \<le> B'" using t by (auto simp: B')
  moreover have "safe_result t has_lease m \<le> max base (last_replicated m)"
    unfolding r by (rule max.mono) auto
  then have "safe_result t has_lease m \<le> base \<or> safe_result t has_lease m \<le> last_replicated m"
    by (simp add: le_max_iff_disj)
  ultimately show "unat (safe_result t has_lease m) < B'"
    and "\<forall>x \<in> set (queue m). safe_result t has_lease m < x"
    using below by (force simp: word_le_nat_alt word_less_nat_alt)+
  show "last_replicated m \<le> safe_result t has_lease m" unfolding r by simp
  show "v \<le> safe_result t has_lease m"
    if "v \<in> set (known_times m)" "has_lease"
      "v \<le> max (max_ht_lease_seen m) (last_replicated m)" for v
    using known [OF that(1)] that unfolding r by (auto simp: le_max_iff_disj)
  show "v \<le> safe_result t has_lease m" if "v \<in> set (known_times m)" "\<not> has_lease" for v
    using known [OF that(1)] that unfolding r by (auto simp: le_max_iff_disj)
qed

text \<open>Returned times only grow: what was below one of them still is.\<close>

definition returned_le :: "mvcc_manager \<Rightarrow> mvcc_manager \<Rightarrow> bool" where
  "returned_le m m' \<longleftrightarrow> (\<forall>v \<in> set (returned_times m). \<exists>w \<in> set (returned_times m'). v \<le> w)"

lemma returned_le_refl: "returned_times m' = returned_times m \<Longrightarrow> returned_le m m'"
  by (auto simp: returned_le_def)

lemma DoGetSafeTime_try_spec:
  assumes inv: "mvcc_inv B m" and t: "queue m = [] \<longrightarrow> B \<le> unat t" and "unat min_allowed < B"
    and B': "B' = (if queue m = [] then Suc (unat t) else B)"
  obtains m' res where "DoGetSafeTime_try t min_allowed has_lease m = Inr (m', res)"
    and "mvcc_inv B' m'" and "returned_le m m'"
    and "\<forall>r. res = Some r \<longrightarrow> r = safe_result t has_lease m \<and> r \<in> set (returned_times m')"
    and "res = None \<longleftrightarrow> \<not> min_allowed \<le> safe_result t has_lease m"
    and "propagated_safe_time m' = propagated_safe_time m" and "queue m' = queue m"
proof -
  let ?r = "safe_result t has_lease m"
  note b = safe_result_bounds [OF inv t B']
  have "min_allowed \<le> t" if "queue m = []"
    using t that assms(3) by (simp add: word_le_nat_alt)
  then obtain src where p: "DoGetSafeTime_predicate t min_allowed has_lease m
      = Inr (min_allowed \<le> ?r, ?r, src)" using DoGetSafeTime_predicate_eq by metis
  have inv': "mvcc_inv B' m" using inv b(3) unfolding mvcc_inv_def by fastforce
  show ?thesis
  proof (cases "min_allowed \<le> ?r")
    case False
    with p inv' that [of m None] show ?thesis
      by (simp add: DoGetSafeTime_try_def returned_le_refl)
  next
    case True
    let ?new = "\<lparr>safe_time = ?r, source = src\<rparr>"
    define m' where "m' = (if has_lease then m\<lparr>max_safe_time_returned_with_lease := ?new\<rparr>
      else m\<lparr>max_safe_time_returned_without_lease := ?new\<rparr>)"
    define old where "old = (if has_lease then safe_time (max_safe_time_returned_with_lease m)
      else safe_time (max_safe_time_returned_without_lease m))"
    have "old \<le> ?r"
      using b(5,6) [of old] inv
      by (cases has_lease) (simp_all add: old_def known_times_def returned_times_def mvcc_inv_def)
    moreover have "has_lease \<Longrightarrow> ?r \<le> max (max_ht_lease_seen m) (last_replicated m)"
      unfolding safe_result_def Let_def by (rule max.mono) auto
    then have "mvcc_inv B' m'"
      using inv' b(1,2) unfolding mvcc_inv_def m'_def known_times_def returned_times_def by auto
    moreover have "returned_le m m'" "?r \<in> set (returned_times m')"
      using \<open>old \<le> ?r\<close>
      by (cases has_lease; simp add: m'_def old_def returned_le_def returned_times_def)+
    moreover have "DoGetSafeTime_try t min_allowed has_lease m = Inr (m', Some ?r)"
      using True p \<open>old \<le> ?r\<close>
      by (cases has_lease; simp add: DoGetSafeTime_try_def DoGetSafeTime_finish_def
          old_def m'_def check_that_def)
    moreover have "propagated_safe_time m' = propagated_safe_time m" "queue m' = queue m"
      by (simp_all add: m'_def)
    ultimately show ?thesis using True that [of m' "Some ?r"] by simp
  qed
qed

lemma DoGetSafeTime_enter_spec:
  assumes "mvcc_inv B m" and "is_valid ht_lease" and "min_allowed \<le> ht_lease"
  obtains m' has_lease where "DoGetSafeTime_enter min_allowed ht_lease m = Inr (m', has_lease)"
    and "mvcc_inv B m'" and "returned_times m' = returned_times m"
    and "known_times m' = known_times m" and "queue m' = queue m"
    and "max_ht_lease_seen m \<le> max_ht_lease_seen m'"
proof -
  define has_lease where
    "has_lease \<longleftrightarrow> GetPhysicalValueMicros ht_lease < kMaxHybridTimePhysicalMicros"
  define m' where "m' = (if has_lease
    then m\<lparr>max_ht_lease_seen := max ht_lease (max_ht_lease_seen m)\<rparr> else m)"
  have "mvcc_inv B m'"
    using assms(1) unfolding mvcc_inv_def m'_def known_times_def returned_times_def
    by (auto simp: le_max_iff_disj)
  then show ?thesis
    using assms(2,3) that [of m' has_lease]
    by (cases has_lease; simp add: DoGetSafeTime_enter_def Let_def m'_def check_that_def
        known_times_def returned_times_def flip: has_lease_def)
qed

lemma mvcc_inv_propagated:
  assumes "mvcc_inv B m" and "propagated_safe_time m \<le> ht" and "unat ht < B"
    and "\<forall>x \<in> set (queue m). ht < x"
  shows "mvcc_inv B (m\<lparr>propagated_safe_time := ht\<rparr>)"
  using assms unfolding mvcc_inv_def known_times_def returned_times_def
  by (auto simp: le_max_iff_disj)

lemma UpdatePropagatedSafeTimeOnLeader_spec:
  assumes inv: "mvcc_inv B m" and t: "queue m = [] \<longrightarrow> B \<le> unat t" and "is_valid ht_lease"
    and mono: "ndebug \<or> propagated_safe_time m \<le> max (max_ht_lease_seen m) (last_replicated m)"
    and B': "B' = (if queue m = [] then Suc (unat t) else B)"
  obtains m' where "UpdatePropagatedSafeTimeOnLeader ndebug t ht_lease m = Inr m'"
    and "mvcc_inv B' m'" and "returned_le m m'"
proof -
  have "unat (last_replicated m) < B" using inv by (simp add: mvcc_inv_def known_times_def)
  then have min: "unat kMin < B" by (simp add: kMin_def)
  obtain m1 has_lease where e: "DoGetSafeTime_enter kMin ht_lease m = Inr (m1, has_lease)"
    "mvcc_inv B m1" "returned_times m1 = returned_times m" "known_times m1 = known_times m"
    "queue m1 = queue m" "max_ht_lease_seen m \<le> max_ht_lease_seen m1"
    by (rule DoGetSafeTime_enter_spec [OF inv assms(3), of kMin]) (simp add: kMin_def)
  have t1: "queue m1 = [] \<longrightarrow> B \<le> unat t" using t e(5) by simp
  have B1: "B' = (if queue m1 = [] then Suc (unat t) else B)" using B' e(5) by simp
  let ?r = "safe_result t has_lease m1"
  obtain m2 res where d: "DoGetSafeTime_try t kMin has_lease m1 = Inr (m2, res)"
    "mvcc_inv B' m2" "returned_le m1 m2"
    "\<forall>r. res = Some r \<longrightarrow> r = ?r \<and> r \<in> set (returned_times m2)"
    "res = None \<longleftrightarrow> \<not> kMin \<le> ?r" "propagated_safe_time m2 = propagated_safe_time m1"
    "queue m2 = queue m1"
    by (rule DoGetSafeTime_try_spec [where has_lease = has_lease, OF e(2) t1 min B1])
  note b = safe_result_bounds [OF e(2) t1 B1]
  have res: "res = Some ?r" using d(4,5) by (cases res) (simp_all add: kMin_def)
  have k: "propagated_safe_time m2 \<in> set (known_times m1)"
    "propagated_safe_time m2 = propagated_safe_time m" "last_replicated m1 = last_replicated m"
    using d(6) e(4) by (simp_all add: known_times_def)
  have "ndebug \<or> propagated_safe_time m2 \<le> ?r"
  proof (cases has_lease)
    case True
    have le: "max (max_ht_lease_seen m) (last_replicated m)
        \<le> max (max_ht_lease_seen m1) (last_replicated m1)"
      using e(6) k(3) by (intro max.mono) simp_all
    show ?thesis using mono b(5) [OF k(1) True order_trans [OF _ le]] unfolding k(2) by blast
  qed (use b(6) [OF k(1)] in simp)
  moreover have r2: "returned_le m m2" "returned_le m (m2\<lparr>propagated_safe_time := ?r\<rparr>)"
    using d(3) e(3) by (simp_all add: returned_le_def returned_times_def)
  ultimately consider "propagated_safe_time m2 \<le> ?r" | "ndebug" "?r < propagated_safe_time m2"
    by (meson not_le)
  then show ?thesis
  proof cases
    case 1
    then have "UpdatePropagatedSafeTimeOnLeader ndebug t ht_lease m
        = Inr (m2\<lparr>propagated_safe_time := ?r\<rparr>)"
      using e(1) d(1) res
      by (simp add: UpdatePropagatedSafeTimeOnLeader_def DoGetSafeTime_def check_that_def)
    then show ?thesis
      using mvcc_inv_propagated [OF d(2) 1 b(1)] b(2) d(7) r2(2) by (intro that) simp_all
  next
    case 2
    then have "UpdatePropagatedSafeTimeOnLeader ndebug t ht_lease m = Inr m2"
      using e(1) d(1) res by (simp add: UpdatePropagatedSafeTimeOnLeader_def DoGetSafeTime_def)
    then show ?thesis using d(2) r2(1) by (rule that)
  qed
qed

lemma SetPropagatedSafeTimeOnFollower_spec:
  assumes "mvcc_inv B m" and "unat ht < B" and "\<forall>x \<in> set (queue m). ht < x"
  shows "mvcc_inv B (SetPropagatedSafeTimeOnFollower ht m)"
    and "returned_times (SetPropagatedSafeTimeOnFollower ht m) = returned_times m"
  using assms mvcc_inv_propagated [OF assms(1), of ht]
  by (auto simp: SetPropagatedSafeTimeOnFollower_def returned_times_def)

lemma SafeTimeForFollower_spec:
  assumes "mvcc_inv B m"
  obtains m' res where "SafeTimeForFollower min_allowed m = Inr (m', res)"
    and "mvcc_inv B m'" and "returned_le m m'"
    and "\<forall>r. res = Some r \<longrightarrow> r \<in> set (returned_times m')"
proof -
  define r where "r = max (propagated_safe_time m) (last_replicated m)"
  define src where
    "src = (if propagated_safe_time m > last_replicated m then kPropagated else kLastReplicated)"
  have p: "SafeTimeForFollower_predicate min_allowed m
      = (min_allowed \<le> r, \<lparr>safe_time = r, source = src\<rparr>)"
    by (cases "propagated_safe_time m > last_replicated m")
      (auto simp: SafeTimeForFollower_predicate_def src_def r_def max_def not_less)
  let ?m = "m\<lparr>max_safe_time_returned_for_follower := \<lparr>safe_time = r, source = src\<rparr>\<rparr>"
  have r: "r \<in> set (known_times m)" by (simp add: r_def known_times_def max_def)
  have le: "safe_time (max_safe_time_returned_for_follower m) \<le> r"
    using assms by (simp add: mvcc_inv_def r_def)
  show ?thesis
  proof (cases "min_allowed \<le> r")
    case True
    then have "SafeTimeForFollower min_allowed m = Inr (?m, Some r)"
      using le by (simp add: SafeTimeForFollower_def p)
    moreover have "unat r < B" "\<forall>x \<in> set (queue m). r < x"
      using assms r by (simp_all add: mvcc_inv_def)
    then have "mvcc_inv B ?m"
      using assms unfolding mvcc_inv_def known_times_def returned_times_def
      by (simp add: r_def)
    moreover have "returned_le m ?m" "r \<in> set (returned_times ?m)"
      using le by (simp_all add: returned_le_def returned_times_def)
    ultimately show ?thesis by (intro that [of ?m "Some r"]) simp_all
  next
    case False
    then have "SafeTimeForFollower min_allowed m = Inr (m, None)"
      by (simp add: SafeTimeForFollower_def p)
    then show ?thesis using assms by (intro that [of m None]) (simp_all add: returned_le_refl)
  qed
qed

end
