(* ===== verification/Mvcc_System.thy ===== *)
theory Mvcc_System
  imports Mvcc_Manager
begin

text \<open>
  Any sequence of calls on one MVCC manager and the clock it reads, under what the callers
  guarantee: the calls as a datatype, what they do to the system (\<open>mvcc_exec\<close>), the
  guarantees (\<open>call_ok\<close>) and the systems they can reach (\<open>mvcc_reachable\<close>).

  The proofs use of the clock only its contract, so they are done once in the locale
  \<open>clock_contract\<close> and hold for the hybrid clock and the logical clock. The main
  results: no check of the class fails, an operation always gets a time above every safe
  time returned before, and when a safe time is returned no operation at or below it is
  still in flight.
\<close>

subsection \<open>Sequences of calls\<close>

text \<open>
  A system is a manager, the clock it reads, the readers that wait for a safe time, and the
  history of times given to operations and of safe times returned, the latest first. A call
  names one operation with its arguments; \<open>'r\<close> is what the clock reads from outside.
\<close>

datatype mvcc_event = Added hybrid_time | Returned hybrid_time

record 'c mvcc_sys =
  mvcc :: mvcc_manager
  clock :: 'c
  waiting :: "(hybrid_time \<times> bool) list"
  history :: "mvcc_event list"

datatype 'r mvcc_call =
    LeaderAdd 'r
  | FollowerAdd hybrid_time
  | CallReplicated hybrid_time
  | CallAborted hybrid_time
  | CallSetLastReplicated hybrid_time
  | CallSetPropagated hybrid_time
  | CallUpdatePropagated 'r hybrid_time
  | SafeTimeEnter hybrid_time hybrid_time
  | SafeTimeTry 'r hybrid_time bool
  | SafeTimeTimeout hybrid_time bool
  | FollowerSafeTime hybrid_time
  | ClockUpdate hybrid_time

definition record_return :: "hybrid_time option \<Rightarrow> mvcc_event list \<Rightarrow> mvcc_event list" where
  "record_return res h = (case res of None \<Rightarrow> h | Some r \<Rightarrow> Returned r # h)"

text \<open>The clock is read only when the queue is empty; otherwise its state does not change.\<close>

definition read_clock_if_empty ::
  "('r \<Rightarrow> 'c \<Rightarrow> ('c \<times> hybrid_time) result) \<Rightarrow> 'r \<Rightarrow> 'c mvcc_sys \<Rightarrow> ('c \<times> hybrid_time) result" where
  "read_clock_if_empty now r s =
     (if queue (mvcc s) = [] then now r (clock s) else Inr (clock s, kMin))"

fun mvcc_exec ::
  "bool \<Rightarrow> ('r \<Rightarrow> 'c \<Rightarrow> ('c \<times> hybrid_time) result) \<Rightarrow> (hybrid_time \<Rightarrow> 'c \<Rightarrow> 'c result)
     \<Rightarrow> 'r mvcc_call \<Rightarrow> 'c mvcc_sys \<Rightarrow> 'c mvcc_sys result" where
  "mvcc_exec ndebug now update (LeaderAdd r) s =
     verify_result (now r (clock s)) (\<lambda>(c, t).
     verify_result (AddPending ndebug t kInvalid (mvcc s)) (\<lambda>(m, ht).
       Inr (s\<lparr>mvcc := m, clock := c, history := Added ht # history s\<rparr>)))"
| "mvcc_exec ndebug now update (FollowerAdd ht) s =
     verify_result (AddPending ndebug kMin ht (mvcc s)) (\<lambda>(m, ht').
       Inr (s\<lparr>mvcc := m, history := Added ht' # history s\<rparr>))"
| "mvcc_exec ndebug now update (CallReplicated ht) s =
     verify_result (Replicated ht (mvcc s)) (\<lambda>m. Inr (s\<lparr>mvcc := m\<rparr>))"
| "mvcc_exec ndebug now update (CallAborted ht) s =
     verify_result (Aborted_op ht (mvcc s)) (\<lambda>m. Inr (s\<lparr>mvcc := m\<rparr>))"
| "mvcc_exec ndebug now update (CallSetLastReplicated ht) s =
     Inr (s\<lparr>mvcc := SetLastReplicated ht (mvcc s)\<rparr>)"
| "mvcc_exec ndebug now update (CallSetPropagated ht) s =
     Inr (s\<lparr>mvcc := SetPropagatedSafeTimeOnFollower ht (mvcc s)\<rparr>)"
| "mvcc_exec ndebug now update (CallUpdatePropagated r ht_lease) s =
     verify_result (read_clock_if_empty now r s) (\<lambda>(c, t).
     verify_result (UpdatePropagatedSafeTimeOnLeader ndebug t ht_lease (mvcc s)) (\<lambda>m.
       Inr (s\<lparr>mvcc := m, clock := c\<rparr>)))"
| "mvcc_exec ndebug now update (SafeTimeEnter min_allowed ht_lease) s =
     verify_result (DoGetSafeTime_enter min_allowed ht_lease (mvcc s)) (\<lambda>(m, has_lease).
       Inr (s\<lparr>mvcc := m, waiting := (min_allowed, has_lease) # waiting s\<rparr>))"
| "mvcc_exec ndebug now update (SafeTimeTry r min_allowed has_lease) s =
     verify_result (read_clock_if_empty now r s) (\<lambda>(c, t).
     verify_result (DoGetSafeTime_try t min_allowed has_lease (mvcc s)) (\<lambda>(m, res).
       Inr (s\<lparr>mvcc := m, clock := c,
              waiting := (if res = None then waiting s
                          else remove1 (min_allowed, has_lease) (waiting s)),
              history := record_return res (history s)\<rparr>)))"
| "mvcc_exec ndebug now update (SafeTimeTimeout min_allowed has_lease) s =
     Inr (s\<lparr>waiting := remove1 (min_allowed, has_lease) (waiting s)\<rparr>)"
| "mvcc_exec ndebug now update (FollowerSafeTime min_allowed) s =
     verify_result (SafeTimeForFollower min_allowed (mvcc s)) (\<lambda>(m, res).
       Inr (s\<lparr>mvcc := m, history := record_return res (history s)\<rparr>))"
| "mvcc_exec ndebug now update (ClockUpdate ht) s =
     verify_result (update ht (clock s)) (\<lambda>c. Inr (s\<lparr>clock := c\<rparr>))"

text \<open>
  What the callers guarantee. A leader reads a clock that has not run out of its range. An
  operation that a follower gets from the leader has a time the clock has been updated
  with, above everything the manager has told readers and above the operations in flight,
  except that it may overwrite a tail of the queue that consensus has aborted. Only the
  first operation is replicated and no operation is aborted twice. Times from consensus do
  not pass operations in flight. A reader asks for a time in the past.
\<close>

fun call_ok ::
  "bool \<Rightarrow> ('c \<Rightarrow> nat) \<Rightarrow> ('r \<Rightarrow> bool) \<Rightarrow> 'r mvcc_call \<Rightarrow> 'c mvcc_sys \<Rightarrow> bool" where
  "call_ok ndebug next_time readable (LeaderAdd r) s \<longleftrightarrow>
     readable r \<and> next_time (clock s) < 2 ^ 64 - 1"
| "call_ok ndebug next_time readable (FollowerAdd ht) s \<longleftrightarrow>
     follower_time_ok ht (mvcc s) \<and> unat ht < next_time (clock s)"
| "call_ok ndebug next_time readable (CallReplicated ht) s \<longleftrightarrow>
     queue (mvcc s) \<noteq> [] \<and> ht = hd (queue (mvcc s))"
| "call_ok ndebug next_time readable (CallAborted ht) s \<longleftrightarrow>
     ht \<in> set (queue (mvcc s)) \<and> ht \<notin> set (aborted (mvcc s))"
| "call_ok ndebug next_time readable (CallSetLastReplicated ht) s \<longleftrightarrow>
     last_replicated (mvcc s) \<le> ht \<and> unat ht < next_time (clock s)
     \<and> (\<forall>x \<in> set (queue (mvcc s)). ht < x)"
| "call_ok ndebug next_time readable (CallSetPropagated ht) s \<longleftrightarrow>
     unat ht < next_time (clock s) \<and> (\<forall>x \<in> set (queue (mvcc s)). ht < x)"
| "call_ok ndebug next_time readable (CallUpdatePropagated r ht_lease) s \<longleftrightarrow>
     readable r \<and> next_time (clock s) < 2 ^ 64 - 1 \<and> is_valid ht_lease
     \<and> (ndebug \<or> propagated_safe_time (mvcc s)
          \<le> max (max_ht_lease_seen (mvcc s)) (last_replicated (mvcc s)))"
| "call_ok ndebug next_time readable (SafeTimeEnter min_allowed ht_lease) s \<longleftrightarrow>
     is_valid ht_lease \<and> min_allowed \<le> ht_lease \<and> unat min_allowed < next_time (clock s)"
| "call_ok ndebug next_time readable (SafeTimeTry r min_allowed has_lease) s \<longleftrightarrow>
     readable r \<and> next_time (clock s) < 2 ^ 64 - 1
     \<and> (min_allowed, has_lease) \<in> set (waiting s)"
| "call_ok ndebug next_time readable (SafeTimeTimeout min_allowed has_lease) s \<longleftrightarrow>
     (min_allowed, has_lease) \<in> set (waiting s)"
| "call_ok ndebug next_time readable (FollowerSafeTime min_allowed) s \<longleftrightarrow> True"
| "call_ok ndebug next_time readable (ClockUpdate ht) s \<longleftrightarrow> is_valid ht"

inductive mvcc_reachable ::
  "bool \<Rightarrow> ('r \<Rightarrow> 'c \<Rightarrow> ('c \<times> hybrid_time) result) \<Rightarrow> (hybrid_time \<Rightarrow> 'c \<Rightarrow> 'c result)
     \<Rightarrow> ('c \<Rightarrow> nat) \<Rightarrow> ('c \<Rightarrow> bool) \<Rightarrow> ('r \<Rightarrow> bool) \<Rightarrow> 'c mvcc_sys \<Rightarrow> bool"
  for ndebug now update next_time clock_ok readable where
  start: "clock_ok c \<Longrightarrow> 0 < next_time c \<Longrightarrow>
    mvcc_reachable ndebug now update next_time clock_ok readable
      \<lparr>mvcc = initial_mvcc, clock = c, waiting = [], history = []\<rparr>"
| step: "mvcc_reachable ndebug now update next_time clock_ok readable s \<Longrightarrow>
    call_ok ndebug next_time readable call s \<Longrightarrow>
    mvcc_exec ndebug now update call s = Inr s' \<Longrightarrow>
    mvcc_reachable ndebug now update next_time clock_ok readable s'"

text \<open>A run of given calls, each checked against what its caller guarantees.\<close>

fun mvcc_run ::
  "bool \<Rightarrow> ('r \<Rightarrow> 'c \<Rightarrow> ('c \<times> hybrid_time) result) \<Rightarrow> (hybrid_time \<Rightarrow> 'c \<Rightarrow> 'c result)
     \<Rightarrow> ('c \<Rightarrow> nat) \<Rightarrow> ('r \<Rightarrow> bool) \<Rightarrow> 'r mvcc_call list \<Rightarrow> 'c mvcc_sys \<Rightarrow> 'c mvcc_sys option" where
  "mvcc_run ndebug now update next_time readable [] s = Some s"
| "mvcc_run ndebug now update next_time readable (call # calls) s =
     (if call_ok ndebug next_time readable call s then
        (case mvcc_exec ndebug now update call s of
           Inl _ \<Rightarrow> None
         | Inr s' \<Rightarrow> mvcc_run ndebug now update next_time readable calls s')
      else None)"

text \<open>Every operation got a time above all safe times returned before it was added.\<close>

fun added_above_returned :: "mvcc_event list \<Rightarrow> bool" where
  "added_above_returned [] \<longleftrightarrow> True"
| "added_above_returned (Added t # es) \<longleftrightarrow>
     (\<forall>r. Returned r \<in> set es \<longrightarrow> r < t) \<and> added_above_returned es"
| "added_above_returned (Returned r # es) \<longleftrightarrow> added_above_returned es"

definition history_inv :: "mvcc_event list \<Rightarrow> mvcc_manager \<Rightarrow> bool" where
  "history_inv h m \<longleftrightarrow>
     added_above_returned h \<and> (\<forall>r. Returned r \<in> set h \<longrightarrow> (\<exists>v \<in> set (returned_times m). r \<le> v))"

definition mvcc_sys_inv :: "('c \<Rightarrow> nat) \<Rightarrow> ('c \<Rightarrow> bool) \<Rightarrow> 'c mvcc_sys \<Rightarrow> bool" where
  "mvcc_sys_inv next_time clock_ok s \<longleftrightarrow>
     clock_ok (clock s) \<and> mvcc_inv (next_time (clock s)) (mvcc s)
     \<and> history_inv (history s) (mvcc s)
     \<and> (\<forall>(min_allowed, has_lease) \<in> set (waiting s). unat min_allowed < next_time (clock s))"

text \<open>The call returns, no check of the class fails, and the invariant holds afterwards.\<close>

definition exec_safe ::
  "bool \<Rightarrow> ('r \<Rightarrow> 'c \<Rightarrow> ('c \<times> hybrid_time) result) \<Rightarrow> (hybrid_time \<Rightarrow> 'c \<Rightarrow> 'c result)
     \<Rightarrow> ('c \<Rightarrow> nat) \<Rightarrow> ('c \<Rightarrow> bool) \<Rightarrow> 'r mvcc_call \<Rightarrow> 'c mvcc_sys \<Rightarrow> bool" where
  "exec_safe ndebug now update next_time clock_ok call s \<longleftrightarrow>
     (\<exists>s'. mvcc_exec ndebug now update call s = Inr s' \<and> mvcc_sys_inv next_time clock_ok s')"

subsection \<open>Calls keep the invariant of the system\<close>

lemma history_inv_return:
  assumes "history_inv h m" and "returned_le m m'"
    and "\<forall>r. res = Some r \<longrightarrow> r \<in> set (returned_times m')"
  shows "history_inv (record_return res h) m'"
proof -
  have "\<exists>v \<in> set (returned_times m'). r \<le> v" if "Returned r \<in> set h" for r
    using assms(1,2) that unfolding history_inv_def returned_le_def by (meson order_trans)
  then show ?thesis
    using assms(1,3) by (cases res) (auto simp: history_inv_def record_return_def)
qed

lemma history_inv_mono: "history_inv h m \<Longrightarrow> returned_le m m' \<Longrightarrow> history_inv h m'"
  using history_inv_return [of h m m' None] by (simp add: record_return_def)

lemma history_inv_Added:
  assumes "history_inv h m" and "returned_times m' = returned_times m"
    and "\<forall>v \<in> set (returned_times m). v < t"
  shows "history_inv (Added t # h) m'"
proof -
  have "r < t" if "Returned r \<in> set h" for r
    using assms(1,3) that unfolding history_inv_def by (meson le_less_trans)
  with assms(1,2) show ?thesis by (simp add: history_inv_def)
qed

lemma mvcc_inv_mono: "mvcc_inv B m \<Longrightarrow> B \<le> B' \<Longrightarrow> mvcc_inv B' m"
  unfolding mvcc_inv_def by fastforce

lemma mvcc_sys_inv_update:
  assumes "mvcc_sys_inv next_time clock_ok s" and "clock_ok c"
    and "next_time (clock s) \<le> next_time c" and "mvcc_inv (next_time c) m"
    and "history_inv h m" and "set w \<subseteq> set (waiting s)"
  shows "mvcc_sys_inv next_time clock_ok \<lparr>mvcc = m, clock = c, waiting = w, history = h\<rparr>"
  using assms unfolding mvcc_sys_inv_def by fastforce

lemma mvcc_sysE:
  obtains m c w h where "s = \<lparr>mvcc = m, clock = c, waiting = w, history = h\<rparr>"
  by (cases s) simp

context clock_contract
begin

lemma exec_LeaderAdd:
  assumes inv: "mvcc_sys_inv next_time clock_ok s"
    and ok: "call_ok ndebug next_time readable (LeaderAdd r) s"
  shows "exec_safe ndebug now update next_time clock_ok (LeaderAdd r) s"
proof -
  obtain m c w h where s: "s = \<lparr>mvcc = m, clock = c, waiting = w, history = h\<rparr>" by (rule mvcc_sysE)
  have m: "clock_ok c" "mvcc_inv (next_time c) m" "history_inv h m"
    using inv by (simp_all add: s mvcc_sys_inv_def)
  obtain c' t where n: "now r c = Inr (c', t)" "clock_ok c'" "next_time c \<le> unat t"
    "next_time c' = Suc (unat t)"
    by (rule now_succeeds [OF m(1), of r]) (use ok s in simp_all)
  note a = AddPending_leader_spec [OF m(2) n(3)]
  have "history_inv (Added t # h) (m\<lparr>queue := queue m @ [t]\<rparr>)"
    using m(2) n(3) by (intro history_inv_Added [OF m(3)])
      (auto simp: returned_times_def mvcc_inv_def known_times_def word_less_nat_alt)
  then have "mvcc_sys_inv next_time clock_ok
      \<lparr>mvcc = m\<lparr>queue := queue m @ [t]\<rparr>, clock = c', waiting = w, history = Added t # h\<rparr>"
    using a(2) n by (intro mvcc_sys_inv_update [OF inv]) (simp_all add: s)
  then show ?thesis using n(1) a(1) by (simp add: exec_safe_def s)
qed

lemma exec_FollowerAdd:
  assumes inv: "mvcc_sys_inv next_time clock_ok s"
    and ok: "call_ok ndebug next_time readable (FollowerAdd ht) s"
  shows "exec_safe ndebug now update next_time clock_ok (FollowerAdd ht) s"
proof -
  obtain m c w h where s: "s = \<lparr>mvcc = m, clock = c, waiting = w, history = h\<rparr>" by (rule mvcc_sysE)
  have m: "clock_ok c" "mvcc_inv (next_time c) m" "history_inv h m"
    "follower_time_ok ht m" "unat ht < next_time c"
    using inv ok by (simp_all add: s mvcc_sys_inv_def)
  obtain m' where a: "AddPending ndebug kMin ht m = Inr (m', ht)" "mvcc_inv (next_time c) m'"
    "returned_times m' = returned_times m"
    by (rule AddPending_follower_spec [OF m(2,4,5)])
  have "history_inv (Added ht # h) m'"
    using m(4) by (intro history_inv_Added [OF m(3) a(3)])
      (auto simp: follower_time_ok_def known_times_def)
  then have "mvcc_sys_inv next_time clock_ok
      \<lparr>mvcc = m', clock = c, waiting = w, history = Added ht # h\<rparr>"
    using a(2) m(1) by (intro mvcc_sys_inv_update [OF inv]) (simp_all add: s)
  then show ?thesis using a(1) by (simp add: exec_safe_def s)
qed

lemma exec_same_clock:
  assumes inv: "mvcc_sys_inv next_time clock_ok s"
    and "mvcc_exec ndebug now update call s = Inr (s\<lparr>mvcc := m'\<rparr>)"
    and "mvcc_inv (next_time (clock s)) m'" and "returned_times m' = returned_times (mvcc s)"
  shows "exec_safe ndebug now update next_time clock_ok call s"
proof -
  obtain m c w h where s: "s = \<lparr>mvcc = m, clock = c, waiting = w, history = h\<rparr>" by (rule mvcc_sysE)
  have "history_inv h m'"
    by (rule history_inv_mono [of h m])
      (use inv assms(4) in \<open>simp_all add: s mvcc_sys_inv_def returned_le_refl\<close>)
  then have "mvcc_sys_inv next_time clock_ok (s\<lparr>mvcc := m'\<rparr>)"
    using inv assms(3) by (simp add: s mvcc_sys_inv_def)
  then show ?thesis using assms(2) by (simp add: exec_safe_def)
qed

lemma exec_queue_calls:
  assumes inv: "mvcc_sys_inv next_time clock_ok s"
  shows "call_ok ndebug next_time readable (CallReplicated ht) s \<Longrightarrow>
      exec_safe ndebug now update next_time clock_ok (CallReplicated ht) s"
    and "call_ok ndebug next_time readable (CallAborted ht) s \<Longrightarrow>
      exec_safe ndebug now update next_time clock_ok (CallAborted ht) s"
    and "call_ok ndebug next_time readable (CallSetLastReplicated ht) s \<Longrightarrow>
      exec_safe ndebug now update next_time clock_ok (CallSetLastReplicated ht) s"
    and "call_ok ndebug next_time readable (CallSetPropagated ht) s \<Longrightarrow>
      exec_safe ndebug now update next_time clock_ok (CallSetPropagated ht) s"
proof -
  have m: "mvcc_inv (next_time (clock s)) (mvcc s)"
    using inv by (simp add: mvcc_sys_inv_def)
  show "exec_safe ndebug now update next_time clock_ok (CallReplicated ht) s"
    if ok: "call_ok ndebug next_time readable (CallReplicated ht) s"
  proof -
    obtain m' where "Replicated ht (mvcc s) = Inr m'" "mvcc_inv (next_time (clock s)) m'"
      "returned_times m' = returned_times (mvcc s)"
      by (rule Replicated_spec [OF m, of ht]) (use ok in simp_all)
    then show ?thesis by (intro exec_same_clock [OF inv, where m' = m']) simp_all
  qed
  show "exec_safe ndebug now update next_time clock_ok (CallAborted ht) s"
    if ok: "call_ok ndebug next_time readable (CallAborted ht) s"
  proof -
    obtain m' where "Aborted_op ht (mvcc s) = Inr m'" "mvcc_inv (next_time (clock s)) m'"
      "returned_times m' = returned_times (mvcc s)"
      by (rule Aborted_op_spec [OF m, of ht]) (use ok in simp_all)
    then show ?thesis by (intro exec_same_clock [OF inv, where m' = m']) simp_all
  qed
  show "exec_safe ndebug now update next_time clock_ok (CallSetLastReplicated ht) s"
    if "call_ok ndebug next_time readable (CallSetLastReplicated ht) s"
    using that mvcc_inv_last_replicated [OF m, of ht]
    by (intro exec_same_clock [OF inv, where m' = "SetLastReplicated ht (mvcc s)"])
      (simp_all add: SetLastReplicated_def returned_times_def)
  show "exec_safe ndebug now update next_time clock_ok (CallSetPropagated ht) s"
    if "call_ok ndebug next_time readable (CallSetPropagated ht) s"
    using that SetPropagatedSafeTimeOnFollower_spec [OF m, of ht]
    by (intro exec_same_clock [OF inv, where m' = "SetPropagatedSafeTimeOnFollower ht (mvcc s)"])
      simp_all
qed

lemma read_clock_spec:
  assumes s: "clock s = c" "mvcc s = m"
    and ok: "clock_ok c" "readable r" "next_time c < 2 ^ 64 - 1"
  obtains c' t where "read_clock_if_empty now r s = Inr (c', t)" and "clock_ok c'"
    and "queue m = [] \<longrightarrow> next_time c \<le> unat t"
    and "next_time c' = (if queue m = [] then Suc (unat t) else next_time c)"
    and "next_time c \<le> next_time c'"
proof (cases "queue m = []")
  case True
  obtain c' t where "now r c = Inr (c', t)" "clock_ok c'" "next_time c \<le> unat t"
    "next_time c' = Suc (unat t)" by (rule now_succeeds [OF ok])
  with True s show ?thesis by (intro that [of c' t]) (simp_all add: read_clock_if_empty_def)
next
  case False
  with assms show ?thesis by (intro that [of c kMin]) (simp_all add: read_clock_if_empty_def)
qed

lemma exec_UpdatePropagated:
  assumes inv: "mvcc_sys_inv next_time clock_ok s"
    and ok: "call_ok ndebug next_time readable (CallUpdatePropagated r ht_lease) s"
  shows "exec_safe ndebug now update next_time clock_ok (CallUpdatePropagated r ht_lease) s"
proof -
  obtain m c w h where s: "s = \<lparr>mvcc = m, clock = c, waiting = w, history = h\<rparr>" by (rule mvcc_sysE)
  have m: "clock_ok c" "mvcc_inv (next_time c) m" "history_inv h m" "is_valid ht_lease"
    "ndebug \<or> propagated_safe_time m \<le> max (max_ht_lease_seen m) (last_replicated m)"
    using inv ok by (simp_all add: s mvcc_sys_inv_def)
  obtain c' t where n: "read_clock_if_empty now r s = Inr (c', t)" "clock_ok c'"
    "queue m = [] \<longrightarrow> next_time c \<le> unat t"
    "next_time c' = (if queue m = [] then Suc (unat t) else next_time c)"
    "next_time c \<le> next_time c'"
    by (rule read_clock_spec [of s c m r]) (use m(1) ok in \<open>simp_all add: s\<close>)
  obtain m' where u: "UpdatePropagatedSafeTimeOnLeader ndebug t ht_lease m = Inr m'"
    "mvcc_inv (next_time c') m'" "returned_le m m'"
    by (rule UpdatePropagatedSafeTimeOnLeader_spec [OF m(2) n(3) m(4,5) n(4)])
  have "mvcc_sys_inv next_time clock_ok \<lparr>mvcc = m', clock = c', waiting = w, history = h\<rparr>"
    using history_inv_mono [OF m(3) u(3)] u(2) n(2,5)
    by (intro mvcc_sys_inv_update [OF inv]) (simp_all add: s)
  then show ?thesis using n(1) u(1) by (simp add: exec_safe_def s)
qed

lemma exec_SafeTimeEnter:
  assumes inv: "mvcc_sys_inv next_time clock_ok s"
    and ok: "call_ok ndebug next_time readable (SafeTimeEnter min_allowed ht_lease) s"
  shows "exec_safe ndebug now update next_time clock_ok (SafeTimeEnter min_allowed ht_lease) s"
proof -
  have m: "mvcc_inv (next_time (clock s)) (mvcc s)"
    using inv by (simp add: mvcc_sys_inv_def)
  obtain m' has_lease where
    e: "DoGetSafeTime_enter min_allowed ht_lease (mvcc s) = Inr (m', has_lease)"
      "mvcc_inv (next_time (clock s)) m'" "returned_times m' = returned_times (mvcc s)"
    by (rule DoGetSafeTime_enter_spec [OF m, of ht_lease min_allowed]) (use ok in simp_all)
  have "history_inv (history s) m'"
    by (rule history_inv_mono [of _ "mvcc s"])
      (use inv e(3) in \<open>simp_all add: mvcc_sys_inv_def returned_le_refl\<close>)
  with e inv ok show ?thesis by (simp add: exec_safe_def mvcc_sys_inv_def)
qed

lemma exec_SafeTimeTry:
  assumes inv: "mvcc_sys_inv next_time clock_ok s"
    and ok: "call_ok ndebug next_time readable (SafeTimeTry r min_allowed has_lease) s"
  shows "exec_safe ndebug now update next_time clock_ok (SafeTimeTry r min_allowed has_lease) s"
proof -
  obtain m c w h where s: "s = \<lparr>mvcc = m, clock = c, waiting = w, history = h\<rparr>" by (rule mvcc_sysE)
  have m: "clock_ok c" "mvcc_inv (next_time c) m" "history_inv h m" "unat min_allowed < next_time c"
    using inv ok by (auto simp: s mvcc_sys_inv_def)
  obtain c' t where n: "read_clock_if_empty now r s = Inr (c', t)" "clock_ok c'"
    "queue m = [] \<longrightarrow> next_time c \<le> unat t"
    "next_time c' = (if queue m = [] then Suc (unat t) else next_time c)"
    "next_time c \<le> next_time c'"
    by (rule read_clock_spec [of s c m r]) (use m(1) ok in \<open>simp_all add: s\<close>)
  obtain m' res where d: "DoGetSafeTime_try t min_allowed has_lease m = Inr (m', res)"
    "mvcc_inv (next_time c') m'" "returned_le m m'"
    "\<forall>r. res = Some r \<longrightarrow> r = safe_result t has_lease m \<and> r \<in> set (returned_times m')"
    by (rule DoGetSafeTime_try_spec [where has_lease = has_lease, OF m(2) n(3) m(4) n(4)])
  let ?w = "if res = None then w else remove1 (min_allowed, has_lease) w"
  have "history_inv (record_return res h) m'"
    using d(4) by (intro history_inv_return [OF m(3) d(3)]) simp
  then have "mvcc_sys_inv next_time clock_ok
      \<lparr>mvcc = m', clock = c', waiting = ?w, history = record_return res h\<rparr>"
    using d(2) n(2,5)
    by (intro mvcc_sys_inv_update [OF inv]) (simp_all add: s set_remove1_subset)
  then show ?thesis using n(1) d(1) by (cases res) (simp_all add: exec_safe_def s)
qed

lemma exec_other_calls:
  assumes inv: "mvcc_sys_inv next_time clock_ok s"
  shows "call_ok ndebug next_time readable (SafeTimeTimeout min_allowed has_lease) s \<Longrightarrow>
      exec_safe ndebug now update next_time clock_ok (SafeTimeTimeout min_allowed has_lease) s"
    and "exec_safe ndebug now update next_time clock_ok (FollowerSafeTime min_allowed) s"
    and "call_ok ndebug next_time readable (ClockUpdate ht) s \<Longrightarrow>
      exec_safe ndebug now update next_time clock_ok (ClockUpdate ht) s"
proof -
  obtain m c w h where s: "s = \<lparr>mvcc = m, clock = c, waiting = w, history = h\<rparr>" by (rule mvcc_sysE)
  have m: "clock_ok c" "mvcc_inv (next_time c) m" "history_inv h m"
    using inv by (simp_all add: s mvcc_sys_inv_def)
  have "mvcc_sys_inv next_time clock_ok
      \<lparr>mvcc = m, clock = c, waiting = remove1 (min_allowed, has_lease) w, history = h\<rparr>"
    using m by (intro mvcc_sys_inv_update [OF inv]) (simp_all add: s set_remove1_subset)
  then show "exec_safe ndebug now update next_time clock_ok (SafeTimeTimeout min_allowed has_lease) s"
    by (simp add: exec_safe_def s)
  obtain m' res where f: "SafeTimeForFollower min_allowed m = Inr (m', res)"
    "mvcc_inv (next_time c) m'" "returned_le m m'"
    "\<forall>r. res = Some r \<longrightarrow> r \<in> set (returned_times m')"
    by (rule SafeTimeForFollower_spec [OF m(2)])
  have "mvcc_sys_inv next_time clock_ok
      \<lparr>mvcc = m', clock = c, waiting = w, history = record_return res h\<rparr>"
    using m(1) f(2) history_inv_return [OF m(3) f(3,4)]
    by (intro mvcc_sys_inv_update [OF inv]) (simp_all add: s)
  then show "exec_safe ndebug now update next_time clock_ok (FollowerSafeTime min_allowed) s"
    using f(1) by (simp add: exec_safe_def s)
  show "exec_safe ndebug now update next_time clock_ok (ClockUpdate ht) s"
    if "call_ok ndebug next_time readable (ClockUpdate ht) s"
  proof -
    have "is_valid ht" using that by simp
    from update_law [OF m(1) this] obtain c' where u: "update ht c = Inr c'" "clock_ok c'"
      "next_time c' = max (next_time c) (Suc (unat ht))" by blast
    have "mvcc_sys_inv next_time clock_ok \<lparr>mvcc = m, clock = c', waiting = w, history = h\<rparr>"
      using m(3) u(2,3) mvcc_inv_mono [OF m(2), of "next_time c'"]
      by (intro mvcc_sys_inv_update [OF inv]) (simp_all add: s)
    then show ?thesis using u(1) by (simp add: exec_safe_def s)
  qed
qed

lemma exec_safe_all:
  assumes "mvcc_sys_inv next_time clock_ok s" and "call_ok ndebug next_time readable call s"
  shows "exec_safe ndebug now update next_time clock_ok call s"
  using assms
  by (cases call)
    (simp_all only: exec_LeaderAdd exec_FollowerAdd exec_queue_calls exec_UpdatePropagated
      exec_SafeTimeEnter exec_SafeTimeTry exec_other_calls)

lemma reachable_inv:
  "mvcc_reachable ndebug now update next_time clock_ok readable s \<Longrightarrow>
     mvcc_sys_inv next_time clock_ok s"
proof (induction rule: mvcc_reachable.induct)
  case (start c)
  then show ?case
    by (simp add: mvcc_sys_inv_def mvcc_inv_def history_inv_def initial_mvcc_def known_times_def
        returned_times_def kMin_def Let_def)
next
  case (step s call s')
  then show ?case using exec_safe_all [of s ndebug call] by (auto simp: exec_safe_def)
qed

lemma reachable_calls_return:
  assumes "mvcc_reachable ndebug now update next_time clock_ok readable s"
    and "call_ok ndebug next_time readable call s"
  shows "\<exists>s'. mvcc_exec ndebug now update call s = Inr s'"
  using exec_safe_all [OF reachable_inv [OF assms(1)] assms(2)] by (auto simp: exec_safe_def)

lemma reachable_times_safe:
  assumes "mvcc_reachable ndebug now update next_time clock_ok readable s"
  shows "added_above_returned (history s)"
    and "Returned r \<in> set (history s) \<Longrightarrow> x \<in> set (queue (mvcc s)) \<Longrightarrow> r < x"
proof -
  have inv: "history_inv (history s) (mvcc s)" "mvcc_inv (next_time (clock s)) (mvcc s)"
    using reachable_inv [OF assms] by (simp_all add: mvcc_sys_inv_def)
  then show "added_above_returned (history s)" by (simp add: history_inv_def)
  assume "Returned r \<in> set (history s)" and x: "x \<in> set (queue (mvcc s))"
  then obtain v where "v \<in> set (returned_times (mvcc s))" "r \<le> v"
    using inv(1) by (auto simp: history_inv_def)
  moreover have "v < x"
    using inv(2) x \<open>v \<in> _\<close> by (simp add: mvcc_inv_def known_times_def)
  ultimately show "r < x" by simp
qed

end

lemma mvcc_run_reachable:
  assumes "mvcc_reachable ndebug now update next_time clock_ok readable s"
    and "mvcc_run ndebug now update next_time readable calls s = Some s'"
  shows "mvcc_reachable ndebug now update next_time clock_ok readable s'"
  using assms
proof (induction calls arbitrary: s)
  case (Cons call calls)
  then show ?case by (auto split: if_splits sum.splits intro: mvcc_reachable.step)
qed simp

subsection \<open>Properties\<close>

text \<open>
  Concrete calls: a reader is told a safe time, then a leader adds two operations, another
  reader is told the time before the first of them, and the second operation is aborted.
\<close>

definition sample_start :: "hybrid_clock_components mvcc_sys" where
  "sample_start = \<lparr>mvcc = initial_mvcc, clock = \<lparr>last_usec = 1, logical = 0\<rparr>,
     waiting = [], history = []\<rparr>"

definition reading :: "micros_time \<Rightarrow> physical_time result" where
  "reading t = Inr \<lparr>time_point = t, max_error = 10\<rparr>"

definition sample_calls :: "physical_time result mvcc_call list" where
  "sample_calls =
     [SafeTimeEnter 1 (FromMicros 5000), SafeTimeTry (reading 1000) 1 True,
      LeaderAdd (reading 1000), LeaderAdd (reading 2000),
      SafeTimeEnter 2 (FromMicros 6000), SafeTimeTry (reading 2000) 2 True,
      CallAborted (FromMicros 2000)]"

lemmas sample_defs = sample_calls_def sample_start_def reading_def initial_mvcc_def
  kInvalid_def kMin_def kMax_def kBitsForLogicalComponent_def kLogicalBitMask_def
  kMaxHybridTimePhysicalMicros_def mask_eq_exp_minus_1 is_valid_def FromMicros_def
  FromMicrosecondsAndLogicalValue_def GetPhysicalValueMicros_def Decremented_def
  hybrid_clock_ok_def hybrid_readable_def clock_val_def hybrid_now_def NowWithError_def
  HandleLogicalComponentOverflow_def read_clock_if_empty_def record_return_def max_def Let_def
  DoGetSafeTime_enter_def DoGetSafeTime_try_def DoGetSafeTime_predicate_def
  DoGetSafeTime_finish_def AddPending_def AddPending_erase_def sanity_check_lower_bound_def
  Aborted_op_def

text \<open>
  C7: on any sequence of calls that keeps to what the callers guarantee, with the hybrid
  clock, the manager's safe times are safe. Every operation got a time above all safe times
  returned before it was added, and every safe time ever returned is below the times of all
  operations still in flight: no reader at a safe time misses a write.
\<close>

theorem mvcc_safe_times_are_safe:
  assumes "mvcc_reachable ndebug hybrid_now Update clock_val hybrid_clock_ok hybrid_readable s"
  shows "added_above_returned (history s)
    \<and> (\<forall>r x. Returned r \<in> set (history s) \<longrightarrow> x \<in> set (queue (mvcc s)) \<longrightarrow> r < x)"
  using hybrid.reachable_times_safe [OF assms] by blast

lemma sample_reachable:
  "mvcc_reachable False hybrid_now Update clock_val hybrid_clock_ok hybrid_readable sample_start"
  unfolding sample_start_def by (rule mvcc_reachable.start) (simp_all add: sample_defs)

theorem mvcc_safe_times_are_safe_witness:
  "\<exists>s. mvcc_run False hybrid_now Update clock_val hybrid_readable sample_calls sample_start = Some s
     \<and> history s = [Returned (FromMicros 1000), Added (FromMicros 2000),
         Added (FromMicrosecondsAndLogicalValue 1000 1), Returned (FromMicros 1000)]
     \<and> added_above_returned (history s)
     \<and> (\<forall>r x. Returned r \<in> set (history s) \<longrightarrow> x \<in> set (queue (mvcc s)) \<longrightarrow> r < x)"
proof -
  let ?run = "mvcc_run False hybrid_now Update clock_val hybrid_readable sample_calls sample_start"
  have "map_option history ?run = Some [Returned (FromMicros 1000), Added (FromMicros 2000),
      Added (FromMicrosecondsAndLogicalValue 1000 1), Returned (FromMicros 1000)]"
    by (simp add: sample_defs)
  then obtain s where s: "?run = Some s" "history s = [Returned (FromMicros 1000),
      Added (FromMicros 2000), Added (FromMicrosecondsAndLogicalValue 1000 1),
      Returned (FromMicros 1000)]" by auto
  from mvcc_safe_times_are_safe [OF mvcc_run_reachable [OF sample_reachable s(1)]] s
  show ?thesis by blast
qed

text \<open>
  C8: on any such sequence of calls no check of the class fails and no undefined behaviour
  is reached, in a debug or a release build: whatever call comes next, if its caller keeps
  to the guarantees, it returns.
\<close>

theorem mvcc_calls_never_crash:
  assumes "mvcc_reachable ndebug hybrid_now Update clock_val hybrid_clock_ok hybrid_readable s"
    and "call_ok ndebug clock_val hybrid_readable call s"
  shows "\<exists>s'. mvcc_exec ndebug hybrid_now Update call s = Inr s'"
  by (rule hybrid.reachable_calls_return [OF assms])

theorem mvcc_calls_never_crash_witness:
  "\<exists>s'. mvcc_exec False hybrid_now Update (LeaderAdd (reading 1000)) sample_start = Inr s'"
  by (rule mvcc_calls_never_crash [OF sample_reachable]) (simp add: sample_defs)

text \<open>
  C38: \<^verbatim>\<open>AddPending\<close> does not handle an aborted operation in the middle of the queue,
  which its comment calls theoretically possible: with one aborted operation that is not the
  last, its loop reads the top of the heap it has just emptied. This is so for every queue
  whose aborted operation has another one after it, when the new time is not above the end
  of the queue.
\<close>

theorem AddPending_reads_empty_heap:
  assumes "sorted_wrt (<) (before @ a # after)" and "after \<noteq> []"
    and "queue m = before @ a # after" and "aborted m = [a]"
    and "is_valid ht" and "ht \<le> last after"
  shows "AddPending ndebug clock_now ht m = Inl Undefined"
proof -
  have "takeWhile (\<lambda>x. x < a) (before @ a # after) = before"
    "dropWhile (\<lambda>x. x < a) (before @ a # after) = a # after"
    using assms(1) by (simp_all add: sorted_wrt_append takeWhile_append2 dropWhile_append2)
  then have "AddPending_erase ht m = Inl Undefined"
    using assms by (cases after) (simp_all add: AddPending_erase_def)
  then show ?thesis using assms(5) by (simp add: AddPending_def)
qed

theorem AddPending_reads_empty_heap_witness:
  "AddPending True kMin 6 (initial_mvcc\<lparr>queue := [3, 5, 7], aborted := [5]\<rparr>) = Inl Undefined"
  by (rule AddPending_reads_empty_heap [of "[3]" 5 "[7]"]) (simp_all add: sample_defs)

end
