(* ===== verification/Fast_Varint.thy ===== *)
theory Fast_Varint
  imports Prelude
begin

text \<open>
  Variable-length integers (\<^verbatim>\<open>src/src/yb/util/fast_varint.cc\<close>): a signed and an unsigned
  encoding of 64-bit integers in one to ten bytes whose byte order is the order of the
  integers, and their decoders.

  \<^verbatim>\<open>int64_t\<close> values are kept as 64-bit words read with \<open>sint\<close>. The release build of the
  signed decoder loads eight bytes that end where the encoding ends, so it also reads bytes
  in front of the buffer; these are the parameter \<open>before\<close>. The sanitizer build has a loop
  instead. Both are modelled and agree whatever the bytes in front are.

  The main results: decoding returns what was encoded and consumes exactly its bytes, no
  encoding is a prefix of another, and the byte order of encodings is the order of the
  integers, also when anything is appended.
\<close>

unbundle bit_operations_syntax

subsection \<open>Counting leading zeros\<close>

text \<open>\<^verbatim>\<open>__builtin_clz\<close> on an \<^verbatim>\<open>unsigned int\<close>; its result on zero is undefined, and zero is
  never passed.\<close>

definition clz32 :: "u32 \<Rightarrow> nat" where
  "clz32 v = length (takeWhile (\<lambda>i. \<not> bit v i) (rev [0..<32]))"

subsection \<open>Signed encoding\<close>

function varint_length_loop :: "u64 \<Rightarrow> nat \<Rightarrow> nat" where
  "varint_length_loop v n = (if v \<noteq> 0 then varint_length_loop (drop_bit 7 v) (n + 1) else n)"
  by pat_completeness auto

termination
proof (relation "measure (\<lambda>(v, n). unat v)")
  fix v :: u64 and n :: nat
  assume "v \<noteq> 0"
  then have "0 < unat v" by (simp add: unat_gt_0)
  then show "((drop_bit 7 v, n + 1), (v, n)) \<in> measure (\<lambda>(v, n). unat v)"
    by (simp add: unat_drop_bit)
qed simp

declare varint_length_loop.simps [simp del]

definition SignedPositiveVarIntLength :: "u64 \<Rightarrow> nat" where
  "SignedPositiveVarIntLength v = varint_length_loop (drop_bit 6 v) 1"

text \<open>The bytes of a magnitude: its length in unary, then the number.\<close>

definition encode_magnitude :: "u64 \<Rightarrow> bytes" where
  "encode_magnitude uv =
     (let n = SignedPositiveVarIntLength uv;
          start =
            (if n = 10 then [0xff, 0xc0]
             else if n = 9 then [0xff, ucast (0x80 OR drop_bit 56 uv)]
             else [ucast (NOT (push_bit (8 - n) 1 - 1) OR drop_bit (8 * (n - 1)) uv)])
      in start @ map (\<lambda>i. ucast (drop_bit (8 * (n - 1 - i)) uv)) [length start..<n])"

definition FastEncodeSignedVarInt :: "u64 \<Rightarrow> bytes" where
  "FastEncodeSignedVarInt v =
     (let negative = sint v < 0;
          uv = (if negative then 1 + NOT v else v);
          dest = encode_magnitude uv
      in if negative then map (\<lambda>b. NOT b) dest else dest)"

definition FastEncodeDescendingSignedVarInt :: "u64 \<Rightarrow> bytes" where
  "FastEncodeDescendingSignedVarInt v = FastEncodeSignedVarInt (- v)"

subsection \<open>Signed decoding\<close>

definition kVarIntMasks :: "u64 list" where
  "kVarIntMasks =
     [0, 0x3f, 0x1fff, 0xfffff, 0x7ffffff, 0x3ffffffff, 0x1ffffffffff, 0xffffffffffff,
      0x7fffffffffffff, 0x3fffffffffffffff, 0xffffffffffffffff]"

text \<open>The loop of the sanitizer build, over the last eight bytes of the encoding at most.\<close>

definition load_loop :: "bytes \<Rightarrow> nat \<Rightarrow> u64" where
  "load_loop src n_bytes =
     fold (\<lambda>b temp. push_bit 8 temp OR ucast b) (drop (n_bytes - 8) (take n_bytes src)) 0"

text \<open>The release build: the eight bytes that end at the end of the encoding, as a
  big-endian number.\<close>

definition load_unaligned :: "bytes \<Rightarrow> bytes \<Rightarrow> nat \<Rightarrow> u64" where
  "load_unaligned before src n_bytes =
     (let mem = before @ take n_bytes src in of_nat (be_val (drop (length mem - 8) mem)))"

definition varint_header :: "bytes \<Rightarrow> u16" where
  "varint_header src = push_bit 8 (ucast (src ! 0)) OR (if length src > 1 then ucast (src ! 1) else 0)"

definition FastDecodeSignedVarInt_with ::
  "(bytes \<Rightarrow> nat \<Rightarrow> u64) \<Rightarrow> bytes \<Rightarrow> (u64 \<times> nat) result" where
  "FastDecodeSignedVarInt_with load src =
     (if length src = 0 then Inl (Status Corruption)
      else
        let header = varint_header src;
            negative = - (if header AND 0x8000 = 0 then 1 else 0 :: u64);
            header = header XOR ucast negative;
            n_bytes = clz32 ((NOT (ucast header) AND 0x7fff) OR 0x20) - 16
        in if length src < n_bytes then Inl (Status Corruption)
           else let mask = kVarIntMasks ! n_bytes;
                    temp = load src n_bytes
                in Inr (((temp AND mask) OR (NOT mask AND negative)) - negative, n_bytes))"

definition FastDecodeSignedVarInt :: "bytes \<Rightarrow> bytes \<Rightarrow> (u64 \<times> nat) result" where
  "FastDecodeSignedVarInt before src = FastDecodeSignedVarInt_with (load_unaligned before) src"

definition FastDecodeSignedVarInt_sanitizer :: "bytes \<Rightarrow> (u64 \<times> nat) result" where
  "FastDecodeSignedVarInt_sanitizer src = FastDecodeSignedVarInt_with load_loop src"

text \<open>
  A slice the decoders move through is kept with the bytes in front of it, since the decoder
  reads them; \<^verbatim>\<open>remove_prefix\<close> moves bytes from the slice to what is in front.
\<close>

type_synonym cursor = "bytes \<times> bytes"

definition remove_prefix :: "nat \<Rightarrow> cursor \<Rightarrow> cursor" where
  "remove_prefix n c = (fst c @ take n (snd c), drop n (snd c))"

definition FastDecodeSignedVarInt_slice :: "cursor \<Rightarrow> (u64 \<times> cursor) result" where
  "FastDecodeSignedVarInt_slice c =
     verify_result (FastDecodeSignedVarInt (fst c) (snd c)) (\<lambda>(v, n). Inr (v, remove_prefix n c))"

definition FastDecodeDescendingSignedVarInt :: "cursor \<Rightarrow> (u64 \<times> cursor) result" where
  "FastDecodeDescendingSignedVarInt c =
     verify_result (FastDecodeSignedVarInt (fst c) (snd c)) (\<lambda>(v, n). Inr (- v, remove_prefix n c))"

subsection \<open>Unsigned encoding and decoding\<close>

definition UnsignedVarIntLength :: "u64 \<Rightarrow> nat" where
  "UnsignedVarIntLength v = varint_length_loop (drop_bit 7 v) 1"

definition FastEncodeUnsignedVarInt :: "u64 \<Rightarrow> bytes" where
  "FastEncodeUnsignedVarInt v =
     (let n = UnsignedVarIntLength v;
          start =
            (if n = 10 then [0xff, 0x80]
             else if n = 9 then [0xff, ucast (drop_bit 56 v)]
             else [ucast (NOT (push_bit (9 - n) 1 - 1) OR drop_bit (8 * (n - 1)) v)])
      in start @ map (\<lambda>i. ucast (drop_bit (8 * (n - 1 - i)) v)) [length start..<n])"

definition kUnsignedVarIntSize :: "byte \<Rightarrow> nat" where
  "kUnsignedVarIntSize b = clz32 (push_bit 1 (ucast b) XOR 0x1ff) - 23 + 1"

definition FastDecodeUnsignedVarInt :: "bytes \<Rightarrow> (u64 \<times> nat) result" where
  "FastDecodeUnsignedVarInt src =
     (if length src = 0 then Inl (Status Corruption)
      else
        let first_byte = src ! 0; n_bytes = kUnsignedVarIntSize first_byte
        in if length src < n_bytes then Inl (Status Corruption)
           else if n_bytes = 1 then Inr (ucast (first_byte AND 0x7f), 1)
           else
             let (n_bytes, result, i) =
                   (if n_bytes = 9 then
                      (if src ! 1 AND 0x80 \<noteq> 0 then (10, ucast (src ! 1 AND 0x3f), 2)
                       else (9, 0, 0))
                    else (n_bytes, ucast (src ! 0) AND (push_bit (8 - n_bytes) 1 - 1), 1))
             in if length src < n_bytes then Inl (Status Corruption)
                else Inr (fold (\<lambda>b result. push_bit 8 result OR ucast b)
                            (drop i (take n_bytes src)) result, n_bytes))"

definition FastDecodeUnsignedVarInt_slice :: "bytes \<Rightarrow> (u64 \<times> bytes) result" where
  "FastDecodeUnsignedVarInt_slice sl =
     verify_result (FastDecodeUnsignedVarInt sl) (\<lambda>(v, n). Inr (v, drop n sl))"

text \<open>
  The variant for a whole slice ends with \<^verbatim>\<open>return Status::OK()\<close>, from which a
  \<^verbatim>\<open>Result\<close> is constructed; that constructor checks that the status is an error.
\<close>

definition FastDecodeUnsignedVarInt_whole :: "bytes \<Rightarrow> u64 result" where
  "FastDecodeUnsignedVarInt_whole sl =
     verify_result (FastDecodeUnsignedVarInt_slice sl)
       (\<lambda>(v, s). if length s \<noteq> 0 then Inl (Status Corruption) else Inl Fatal)"

subsection \<open>Lengths\<close>

lemma length_loop_bounds:
  "n \<le> varint_length_loop v n
   \<and> unat v < 2 ^ (7 * (varint_length_loop v n - n))
   \<and> (varint_length_loop v n \<noteq> n \<longrightarrow> 2 ^ (7 * (varint_length_loop v n - n - 1)) \<le> unat v)"
proof (induction v n rule: varint_length_loop.induct)
  case (1 v n)
  show ?case
  proof (cases "v = 0")
    case True
    then show ?thesis by (simp add: varint_length_loop.simps)
  next
    case False
    let ?v' = "drop_bit 7 v" and ?l = "varint_length_loop (drop_bit 7 v) (n + 1)"
    have eq: "varint_length_loop v n = ?l" using False by (subst varint_length_loop.simps) simp
    have d: "unat ?v' = unat v div 128" by (simp add: unat_drop_bit)
    from 1 False have IH: "n + 1 \<le> ?l" "unat v div 128 < 2 ^ (7 * (?l - (n + 1)))"
      "?l \<noteq> n + 1 \<longrightarrow> 2 ^ (7 * (?l - (n + 1) - 1)) \<le> unat v div 128"
      by (simp_all only: d [symmetric]) simp_all
    obtain k where k: "?l = n + 1 + k" using IH(1) le_Suc_ex by blast
    have p: "(2::nat) ^ (7 * Suc k) = 128 * 2 ^ (7 * k)" by (simp add: power_add)
    have "unat v < 128 * 2 ^ (7 * k)" using IH(2) k by (simp add: div_less_iff_less_mult mult.commute)
    moreover have "2 ^ (7 * k) \<le> unat v"
    proof (cases k)
      case 0
      then show ?thesis using False by (simp add: Suc_le_eq unat_gt_0)
    next
      case (Suc j)
      then have "2 ^ (7 * j) \<le> unat v div 128" using IH(3) k by simp
      then have "2 ^ (7 * j) * 128 \<le> unat v" by (simp add: less_eq_div_iff_mult_less_eq)
      then show ?thesis using Suc by (simp add: power_add mult.commute)
    qed
    ultimately show ?thesis unfolding eq k using p by simp
  qed
qed

lemma length_loop_small: "unat v < 2 ^ (7 * k) \<Longrightarrow> varint_length_loop v n \<le> n + k"
proof (rule ccontr)
  assume v: "unat v < 2 ^ (7 * k)" and "\<not> varint_length_loop v n \<le> n + k"
  then have "(2::nat) ^ (7 * k) \<le> 2 ^ (7 * (varint_length_loop v n - n - 1))"
    by (intro power_increasing) auto
  moreover have "2 ^ (7 * (varint_length_loop v n - n - 1)) \<le> unat v"
    using length_loop_bounds [of n v] \<open>\<not> _\<close> by auto
  ultimately show False using v by linarith
qed

lemma SignedPositiveVarIntLength_bounds:
  fixes u :: u64
  defines "n \<equiv> SignedPositiveVarIntLength u"
  shows "1 \<le> n" and "n \<le> 10" and "unat u < 2 ^ (7 * n - 1)"
    and "n \<noteq> 1 \<Longrightarrow> 2 ^ (7 * n - 8) \<le> unat u"
proof -
  have d: "unat (drop_bit 6 u) = unat u div 64" by (simp add: unat_drop_bit)
  note b = length_loop_bounds [of 1 "drop_bit 6 u", unfolded d, folded SignedPositiveVarIntLength_def n_def]
  show n1: "1 \<le> n" using b by simp
  then obtain k where k: "n = Suc k" by (cases n) auto
  have "unat u < 64 * 2 ^ (7 * k)" using b k by (simp add: div_less_iff_less_mult mult.commute)
  moreover have "64 * 2 ^ (7 * k) = (2::nat) ^ (7 * n - 1)"
    unfolding k by (simp add: power_add flip: power_Suc)
  ultimately show "unat u < 2 ^ (7 * n - 1)" by simp
  show "2 ^ (7 * n - 8) \<le> unat u" if ne: "n \<noteq> 1"
  proof -
    obtain j where j: "n = Suc (Suc j)" using ne k by (cases k) auto
    then have "2 ^ (7 * j) * 64 \<le> unat u" using b ne by (simp add: less_eq_div_iff_mult_less_eq)
    then show ?thesis unfolding j by (simp add: power_add mult.commute)
  qed
  have "unat u div 64 < 2 ^ (7 * 9)"
    using unat_u64_less [of u] by (simp add: div_less_iff_less_mult)
  then show "n \<le> 10"
    using length_loop_small [of "drop_bit 6 u" 9 1] d by (simp add: n_def SignedPositiveVarIntLength_def)
qed

lemma UnsignedVarIntLength_bounds:
  fixes u :: u64
  defines "n \<equiv> UnsignedVarIntLength u"
  shows "1 \<le> n" and "n \<le> 10" and "unat u < 2 ^ (7 * n)"
    and "n \<noteq> 1 \<Longrightarrow> 2 ^ (7 * (n - 1)) \<le> unat u"
proof -
  have d: "unat (drop_bit 7 u) = unat u div 128" by (simp add: unat_drop_bit)
  note b = length_loop_bounds [of 1 "drop_bit 7 u", unfolded d, folded UnsignedVarIntLength_def n_def]
  show n1: "1 \<le> n" using b by simp
  then obtain k where k: "n = Suc k" by (cases n) auto
  have "unat u < 128 * 2 ^ (7 * k)" using b k by (simp add: div_less_iff_less_mult mult.commute)
  then show "unat u < 2 ^ (7 * n)" unfolding k by (simp add: power_add)
  show "2 ^ (7 * (n - 1)) \<le> unat u" if ne: "n \<noteq> 1"
  proof -
    obtain j where j: "n = Suc (Suc j)" using ne k by (cases k) auto
    then have "2 ^ (7 * j) * 128 \<le> unat u" using b ne by (simp add: less_eq_div_iff_mult_less_eq)
    then show ?thesis unfolding j by (simp add: power_add mult.commute)
  qed
  have "unat u div 128 < 2 ^ (7 * 9)"
    using unat_u64_less [of u] by (simp add: div_less_iff_less_mult)
  then show "n \<le> 10"
    using length_loop_small [of "drop_bit 7 u" 9 1] d by (simp add: n_def UnsignedVarIntLength_def)
qed

subsection \<open>The number an encoding spells\<close>

lemma power_256: "256 ^ j = (2::nat) ^ (8 * j)"
  by (simp add: power_mult)

lemma ucast_drop_bit_byte:
  "(ucast (drop_bit (8 * j) u) :: byte) = of_nat (unat u div 256 ^ j)" for u :: u64
  by (rule word_unat_eq_iff [THEN iffD2])
    (simp add: unat_ucast unat_drop_bit unat_of_nat power_256)

lemma be_bytes_eq_map: "be_bytes m v = map (\<lambda>j. of_nat (v div 256 ^ j)) (rev [0..<m])"
  by (induction m) simp_all

lemma tail_bytes:
  fixes u :: u64
  assumes "k \<le> n"
  shows "map (\<lambda>i. ucast (drop_bit (8 * (n - 1 - i)) u)) [k..<n] = be_bytes (n - k) (unat u)"
  using assms
proof (induction "n - k" arbitrary: k)
  case (Suc m)
  then have "k < n" by simp
  moreover have "n - Suc k = m" using Suc by simp
  moreover have "n - k = Suc (n - Suc k)" using \<open>k < n\<close> by simp
  ultimately show ?case
    using Suc.hyps(1) [of "Suc k"]
    by (simp add: upt_conv_Cons ucast_drop_bit_byte)
qed simp

lemma take_bit_word_small: "unat x < 2 ^ c \<Longrightarrow> take_bit c x = x" for x :: "'a::len word"
  by (rule word_unat_eq_iff [THEN iffD2]) (simp add: take_bit_eq_mask unat_and_mask)

lemma or_disjoint: "unat x < 2 ^ c \<Longrightarrow> take_bit c y = 0 \<Longrightarrow> y OR x = y + x"
  for x y :: "'a::len word"
proof -
  assume x: "unat x < 2 ^ c" and y: "take_bit c y = 0"
  have "\<not> bit y i \<or> \<not> bit x i" for i
  proof (cases "i < c")
    case True
    then have "bit y i \<longleftrightarrow> bit (take_bit c y) i" by (simp add: bit_take_bit_iff)
    then show ?thesis using y by simp
  next
    case False
    then have "\<not> bit (take_bit c x) i" by (simp add: bit_take_bit_iff)
    then show ?thesis using take_bit_word_small [OF x] by simp
  qed
  then show ?thesis by (simp add: disjunctive_add)
qed

lemma unat_start_byte:
  fixes x :: u64
  assumes "unat x < 2 ^ c" and "c \<le> 8"
  shows "unat (ucast (NOT (push_bit c 1 - 1) OR x) :: byte) = 256 - 2 ^ c + unat x"
proof -
  have "take_bit c (NOT (mask c) :: u64) = 0" by (simp add: bit_eq_iff bit_simps)
  then have "NOT (push_bit c 1 - 1) OR x = NOT (push_bit c 1 - 1) + x"
    using or_disjoint [OF assms(1)] by (simp add: mask_eq_exp_minus_1 push_bit_eq_mult)
  also have "\<dots> = x - 2 ^ c" by (simp add: not_eq_complement push_bit_eq_mult)
  finally have e: "NOT (push_bit c 1 - 1) OR x = x - 2 ^ c" .
  have c: "(2::nat) ^ c \<le> 2 ^ 8" by (rule power_increasing) (use assms(2) in simp_all)
  have p: "unat (2 ^ c :: u64) = 2 ^ c" 
  proof -
    have "(2::nat) ^ c < 2 ^ 64" using assms(2) by (intro power_strict_increasing) simp_all
    then show ?thesis using unat_push_bit [of c "1 :: u64"] by (simp add: push_bit_of_1)
  qed
  have "unat (x - 2 ^ c) = unat x + 2 ^ 64 - 2 ^ c"
    using assms(1) by (simp add: unat_sub_if' p)
  also have "\<dots> = (256 - 2 ^ c + unat x) + 256 * (2 ^ 56 - 1)" using c by simp
  finally have "unat (x - 2 ^ c) mod 256 = (256 - 2 ^ c + unat x) mod 256"
    by (simp only: mod_mult_self2)
  also have "\<dots> = 256 - 2 ^ c + unat x" using assms(1) c by simp
  finally show ?thesis unfolding e by (simp add: unat_ucast)
qed

lemma start_and_tail_value:
  fixes u :: u64
  assumes "unat u < 2 ^ (c + 8 * k)" and "c \<le> 8"
  shows "be_val (ucast (NOT (push_bit c 1 - 1) OR drop_bit (8 * k) u) # be_bytes k (unat u))
    = 256 ^ Suc k - 2 ^ (c + 8 * k) + unat u"
proof -
  have "unat u div 256 ^ k < 2 ^ c"
    using assms(1) by (simp add: power_add power_256 div_less_iff_less_mult)
  moreover have d: "unat (drop_bit (8 * k) u) = unat u div 256 ^ k"
    by (simp only: unat_drop_bit power_256)
  ultimately have f: "unat (ucast (NOT (push_bit c 1 - 1) OR drop_bit (8 * k) u) :: byte)
      = 256 - 2 ^ c + unat u div 256 ^ k"
    using unat_start_byte [of "drop_bit (8 * k) u" c] assms(2) by (simp only: d)
  have "be_val (ucast (NOT (push_bit c 1 - 1) OR drop_bit (8 * k) u) # be_bytes k (unat u))
      = (256 - 2 ^ c + unat u div 256 ^ k) * 256 ^ k + unat u mod 256 ^ k"
    unfolding be_val.simps f be_val_be_bytes by simp
  also have "\<dots> = (256 - 2 ^ c) * 256 ^ k + unat u" by (simp add: algebra_simps)
  also have "\<dots> = 256 ^ Suc k - 2 ^ (c + 8 * k) + unat u"
    by (simp add: diff_mult_distrib power_add power_256)
  finally show ?thesis .
qed

text \<open>
  An encoding of \<open>n\<close> bytes that starts with \<open>a\<close> ones and a zero spells
  \<open>256 ^ n - 2 ^ (8 * n - a) + u\<close>; here \<open>a\<close> is \<open>n\<close> for the magnitude of a
  signed number and \<open>n - 1\<close> for an unsigned number.
\<close>

lemma encode_magnitude_value:
  fixes u :: u64
  defines "n \<equiv> SignedPositiveVarIntLength u"
  shows "length (encode_magnitude u) = n"
    and "be_val (encode_magnitude u) = 256 ^ n - 2 ^ (7 * n) + unat u"
proof -
  note b = SignedPositiveVarIntLength_bounds [of u, folded n_def]
  consider "n \<le> 8" | "n = 9" | "n = 10" using b(2) by linarith
  then have "length (encode_magnitude u) = n
    \<and> be_val (encode_magnitude u) = 256 ^ n - 2 ^ (7 * n) + unat u"
  proof cases
    case 1
    obtain k where k: "n = Suc k" using b(1) by (cases n) auto
    have e: "encode_magnitude u
        = ucast (NOT (push_bit (8 - n) 1 - 1) OR drop_bit (8 * k) u) # be_bytes k (unat u)"
      using 1 k tail_bytes [of 1 n u]
      by (simp add: encode_magnitude_def Let_def flip: n_def)
    have c: "8 - n + 8 * k = 7 * n" using 1 k by simp
    have "unat u < 2 ^ (7 * n)" using b(3) by (rule less_le_trans) (rule power_increasing, simp_all)
    then show ?thesis
      using start_and_tail_value [of u "8 - n" k] k unfolding e c by simp
  next
    case 2
    then have d: "unat (drop_bit 56 u) < 2 ^ 6"
      using b(3) by (simp add: unat_drop_bit div_less_iff_less_mult)
    have "0x80 OR drop_bit 56 u = 0x80 + drop_bit 56 u"
      by (rule or_disjoint [OF d]) (simp add: take_bit_eq_mask mask_eq_exp_minus_1)
    then have f: "unat (ucast (0x80 OR drop_bit 56 u) :: byte) = 128 + unat u div 256 ^ 7"
      using d by (simp add: unat_ucast unat_word_ariths unat_drop_bit)
    have e: "encode_magnitude u
        = [0xff, ucast (0x80 OR drop_bit 56 u)] @ be_bytes 7 (unat u)"
      using 2 tail_bytes [of "Suc (Suc 0)" 9 u]
      by (simp add: encode_magnitude_def Let_def flip: n_def)
    show ?thesis using 2 by (simp add: e f be_val_be_bytes)
  next
    case 3
    have e: "encode_magnitude u = [0xff, 0xc0] @ be_bytes 8 (unat u)"
      using 3 tail_bytes [of "Suc (Suc 0)" 10 u]
      by (simp add: encode_magnitude_def Let_def flip: n_def)
    show ?thesis using 3 unat_u64_less [of u] by (simp add: e be_val_be_bytes)
  qed
  then show "length (encode_magnitude u) = n"
    "be_val (encode_magnitude u) = 256 ^ n - 2 ^ (7 * n) + unat u" by simp_all
qed

lemma FastEncodeUnsignedVarInt_value:
  fixes u :: u64
  defines "n \<equiv> UnsignedVarIntLength u"
  shows "length (FastEncodeUnsignedVarInt u) = n"
    and "be_val (FastEncodeUnsignedVarInt u) = 256 ^ n - 2 ^ (7 * n + 1) + unat u"
proof -
  note b = UnsignedVarIntLength_bounds [of u, folded n_def]
  consider "n \<le> 8" | "n = 9" | "n = 10" using b(2) by linarith
  then have "length (FastEncodeUnsignedVarInt u) = n
    \<and> be_val (FastEncodeUnsignedVarInt u) = 256 ^ n - 2 ^ (7 * n + 1) + unat u"
  proof cases
    case 1
    obtain k where k: "n = Suc k" using b(1) by (cases n) auto
    have e: "FastEncodeUnsignedVarInt u
        = ucast (NOT (push_bit (9 - n) 1 - 1) OR drop_bit (8 * k) u) # be_bytes k (unat u)"
      using 1 k tail_bytes [of 1 n u]
      by (simp add: FastEncodeUnsignedVarInt_def Let_def flip: n_def)
    have c: "9 - n + 8 * k = 7 * n + 1" using 1 k by simp
    have "unat u < 2 ^ (7 * n + 1)"
      using b(3) by (rule less_le_trans) (rule power_increasing, simp_all)
    then show ?thesis
      using start_and_tail_value [of u "9 - n" k] k 1 unfolding e c by simp
  next
    case 2
    then have d: "unat (drop_bit 56 u) < 2 ^ 7"
      using b(3) by (simp add: unat_drop_bit div_less_iff_less_mult)
    then have f: "unat (ucast (drop_bit 56 u) :: byte) = unat u div 256 ^ 7"
      by (simp add: unat_ucast unat_drop_bit)
    have e: "FastEncodeUnsignedVarInt u = [0xff, ucast (drop_bit 56 u)] @ be_bytes 7 (unat u)"
      using 2 tail_bytes [of "Suc (Suc 0)" 9 u]
      by (simp add: FastEncodeUnsignedVarInt_def Let_def flip: n_def)
    show ?thesis using 2 by (simp add: e f be_val_be_bytes)
  next
    case 3
    have e: "FastEncodeUnsignedVarInt u = [0xff, 0x80] @ be_bytes 8 (unat u)"
      using 3 tail_bytes [of "Suc (Suc 0)" 10 u]
      by (simp add: FastEncodeUnsignedVarInt_def Let_def flip: n_def)
    show ?thesis using 3 unat_u64_less [of u] by (simp add: e be_val_be_bytes)
  qed
  then show "length (FastEncodeUnsignedVarInt u) = n"
    "be_val (FastEncodeUnsignedVarInt u) = 256 ^ n - 2 ^ (7 * n + 1) + unat u" by simp_all
qed

subsection \<open>The order of encodings\<close>

text \<open>A code word with fewer leading ones comes first, whatever follows.\<close>

lemma prefix_code_prec:
  assumes "be_val xs = 256 ^ length xs - 2 ^ (8 * length xs - a) + u" and "u < 2 ^ (8 * length xs - a - 1)"
    and "be_val ys = 256 ^ length ys - 2 ^ (8 * length ys - b) + w"
    and "length xs < length ys" and "a < b" and "b < 8 * length ys" and "a < 8 * length xs"
  shows "bytes_prec xs ys"
proof (rule bytes_prec_be_val)
  let ?n = "length xs" and ?m = "length ys"
  let ?d = "8 * (?m - ?n)"
  have h: "(2::nat) ^ (8 * ?n - a) = 2 * 2 ^ (8 * ?n - a - 1)"
    using assms(7) by (simp flip: power_Suc)
  have le: "(2::nat) ^ (8 * ?n - a) \<le> 2 ^ (8 * ?n)" by (rule power_increasing) simp_all
  have "be_val xs + 1 \<le> 2 ^ (8 * ?n) - 2 ^ (8 * ?n - a - 1)"
    using assms(1,2) h le unfolding power_256 by linarith
  then have "(be_val xs + 1) * 2 ^ ?d \<le> (2 ^ (8 * ?n) - 2 ^ (8 * ?n - a - 1)) * 2 ^ ?d"
    by (rule mult_le_mono1)
  also have "\<dots> = 2 ^ (8 * ?m) - 2 ^ (8 * ?m - a - 1)"
  proof -
    have "8 * ?n + ?d = 8 * ?m" "8 * ?n - a - 1 + ?d = 8 * ?m - a - 1"
      using assms(4,7) by simp_all
    then show ?thesis by (simp only: diff_mult_distrib power_add [symmetric])
  qed
  also have "\<dots> \<le> be_val ys"
  proof -
    have "(2::nat) ^ (8 * ?m - b) \<le> 2 ^ (8 * ?m - a - 1)"
      using assms(5) by (intro power_increasing) simp_all
    then show ?thesis using assms(3) unfolding power_256 by linarith
  qed
  finally show "be_val xs * 256 ^ (?m - ?n) + 256 ^ (?m - ?n) \<le> be_val ys"
    by (simp add: power_256)
qed (use assms(4) in simp)

lemma encode_magnitude_prec:
  assumes "unat u < unat w"
  shows "bytes_prec (encode_magnitude u) (encode_magnitude w)"
proof -
  let ?n = "SignedPositiveVarIntLength u" and ?m = "SignedPositiveVarIntLength w"
  note bu = SignedPositiveVarIntLength_bounds [of u] and bw = SignedPositiveVarIntLength_bounds [of w]
  note vu = encode_magnitude_value [of u] and vw = encode_magnitude_value [of w]
  consider "?n = ?m" | "?n < ?m" | "?m < ?n" by linarith
  then show ?thesis
  proof cases
    case 1
    then have "be_val (encode_magnitude u) < be_val (encode_magnitude w)"
      using vu(2) vw(2) assms by simp
    then show ?thesis using vu(1) vw(1) 1 by (simp add: bytes_prec_same_length bytes_less_be_val)
  next
    case 2
    then show ?thesis
      using vu vw bu bw
      by (intro prefix_code_prec [of _ ?n "unat u" _ ?m "unat w"]) simp_all
  next
    case 3
    then have "(2::nat) ^ (7 * ?m - 1) \<le> 2 ^ (7 * ?n - 8)" by (intro power_increasing) auto
    then have "unat w < unat u" using bu(4) bw(1,3) 3 by linarith
    with assms show ?thesis by simp
  qed
qed

lemma FastEncodeUnsignedVarInt_prec:
  assumes "unat u < unat w"
  shows "bytes_prec (FastEncodeUnsignedVarInt u) (FastEncodeUnsignedVarInt w)"
proof -
  let ?n = "UnsignedVarIntLength u" and ?m = "UnsignedVarIntLength w"
  note bu = UnsignedVarIntLength_bounds [of u] and bw = UnsignedVarIntLength_bounds [of w]
  note vu = FastEncodeUnsignedVarInt_value [of u] and vw = FastEncodeUnsignedVarInt_value [of w]
  consider "?n = ?m" | "?n < ?m" | "?m < ?n" by linarith
  then show ?thesis
  proof cases
    case 1
    then have "be_val (FastEncodeUnsignedVarInt u) < be_val (FastEncodeUnsignedVarInt w)"
      using vu(2) vw(2) assms by simp
    then show ?thesis using vu(1) vw(1) 1 by (simp add: bytes_prec_same_length bytes_less_be_val)
  next
    case 2
    have "8 * ?n - (?n - 1) = 7 * ?n + 1" "8 * ?m - (?m - 1) = 7 * ?m + 1"
      using bu(1) bw(1) by simp_all
    then show ?thesis
      using vu vw bu bw 2
      by (intro prefix_code_prec [of _ "?n - 1" "unat u" _ "?m - 1" "unat w"]) simp_all
  next
    case 3
    then have "(2::nat) ^ (7 * ?m) \<le> 2 ^ (7 * (?n - 1))" by (intro power_increasing) auto
    then have "unat w < unat u" using bu(4) bw(1,3) 3 by linarith
    with assms show ?thesis by simp
  qed
qed

text \<open>Signed numbers.\<close>

lemma wrap_signed:
  "n < 2 ^ 64 \<Longrightarrow> (int n + 2 ^ 63) mod 2 ^ 64 - 2 ^ 63 = (if n < 2 ^ 63 then int n else int n - 2 ^ 64)"
  by (cases "n < 2 ^ 63") (simp_all add: mod_pos_pos_trivial mod_pos_geq)

lemma sint_cases:
  fixes v :: u64
  shows "(0 \<le> sint v \<and> sint v = int (unat v) \<and> unat v < 2 ^ 63)
    \<or> (sint v < 0 \<and> sint v = - int (unat (- v)) \<and> 0 < unat (- v) \<and> unat (- v) \<le> 2 ^ 63)"
proof -
  have "sint v = (int (unat v) + 2 ^ 63) mod 2 ^ 64 - 2 ^ 63"
    by (simp add: sint_uint signed_take_bit_eq_take_bit_shift take_bit_eq_mod)
  then have s: "sint v = (if unat v < 2 ^ 63 then int (unat v) else int (unat v) - 2 ^ 64)"
    by (simp only: wrap_signed [OF unat_u64_less])
  have m: "unat (- v) = (if unat v = 0 then 0 else 2 ^ 64 - unat v)"
    using unat_sub_if' [of 0 v] by simp
  define n m where "n = unat v" and "m = unat (- v)"
  have "n < 2 ^ 64" using unat_u64_less by (simp only: n_def)
  then show ?thesis using s m unfolding n_def [symmetric] m_def [symmetric] by auto
qed

lemma sint_small:
  fixes x :: u64
  assumes "unat x < 2 ^ 63"
  shows "sint x = int (unat x)"
proof -
  have "sint x = (int (unat x) + 2 ^ 63) mod 2 ^ 64 - 2 ^ 63"
    by (simp add: sint_uint signed_take_bit_eq_take_bit_shift take_bit_eq_mod)
  then show ?thesis using assms by (simp only: wrap_signed [OF unat_u64_less] if_True)
qed

lemma sint_uminus:
  fixes x :: u64
  assumes "unat x < 2 ^ 63"
  shows "sint (- x) = - int (unat x)"
proof -
  have m: "unat (- x) = (if unat x = 0 then 0 else 2 ^ 64 - unat x)"
    using unat_sub_if' [of 0 x] by simp
  define n m where "n = unat x" and "m = unat (- x)"
  have "- (- x) = x" by simp
  then show ?thesis
    using sint_cases [of "- x"] m assms unfolding n_def [symmetric] m_def [symmetric]
    by (auto simp: n_def [symmetric] split: if_splits)
qed

lemma FastEncodeSignedVarInt_nonneg:
  "0 \<le> sint v \<Longrightarrow> FastEncodeSignedVarInt v = encode_magnitude v"
  by (simp add: FastEncodeSignedVarInt_def)

lemma FastEncodeSignedVarInt_neg:
  "sint v < 0 \<Longrightarrow> FastEncodeSignedVarInt v = map (\<lambda>b. NOT b) (encode_magnitude (- v))"
  by (simp add: FastEncodeSignedVarInt_def not_eq_complement)

lemma encode_magnitude_hd:
  obtains b bs where "encode_magnitude u = b # bs" and "128 \<le> unat b"
proof -
  let ?n = "SignedPositiveVarIntLength u"
  note v = encode_magnitude_value [of u]
  obtain k where k: "?n = Suc k" using SignedPositiveVarIntLength_bounds(1) [of u] by (cases ?n) auto
  then obtain b bs where b: "encode_magnitude u = b # bs" "length bs = k"
    using v(1) by (cases "encode_magnitude u") auto
  have "(2::nat) ^ (7 * ?n) \<le> 2 ^ (8 * k + 7)" using k by (intro power_increasing) simp_all
  also have "\<dots> = 128 * 256 ^ k" by (simp add: power_add power_256)
  finally have "128 * 256 ^ k \<le> be_val (encode_magnitude u)" using v(2) k by simp
  moreover have "be_val (encode_magnitude u) < (unat b + 1) * 256 ^ k"
    using b be_val_less [of bs] by simp
  ultimately have "128 * 256 ^ k < (unat b + 1) * (256::nat) ^ k" by (rule le_less_trans)
  then have "128 \<le> unat b" by (simp only: mult_less_cancel2) simp
  with b(1) that show ?thesis by blast
qed

lemma FastEncodeSignedVarInt_prec:
  assumes "sint v < sint w"
  shows "bytes_prec (FastEncodeSignedVarInt v) (FastEncodeSignedVarInt w)"
proof -
  consider "0 \<le> sint v" | "sint v < 0" "0 \<le> sint w" | "sint w < 0"
    using assms by linarith
  then show ?thesis
  proof cases
    case 1
    then have "unat v < unat w" using assms sint_cases [of v] sint_cases [of w] by linarith
    then show ?thesis
      using 1 assms by (simp add: FastEncodeSignedVarInt_nonneg encode_magnitude_prec)
  next
    case 2
    obtain b bs where b: "encode_magnitude (- v) = b # bs" "128 \<le> unat b"
      by (rule encode_magnitude_hd)
    obtain c cs where c: "encode_magnitude w = c # cs" "128 \<le> unat c"
      by (rule encode_magnitude_hd)
    have "NOT b < c"
      using b(2) c(2) unat_byte_NOT [of b] by (simp add: word_less_nat_alt)
    then show ?thesis
      using 2 by (simp add: FastEncodeSignedVarInt_nonneg FastEncodeSignedVarInt_neg b(1) c(1))
  next
    case 3
    then have "unat (- w) < unat (- v)" using assms sint_cases [of v] sint_cases [of w] by linarith
    then show ?thesis
      using 3 assms
      by (simp add: FastEncodeSignedVarInt_neg bytes_prec_map_NOT encode_magnitude_prec)
  qed
qed

subsection \<open>Loading the number\<close>

lemma bit_above: "unat v < 2 ^ k \<Longrightarrow> k \<le> i \<Longrightarrow> \<not> bit v i" for v :: "'a::len word"
  using take_bit_word_small [of v k] bit_take_bit_iff [of k v i] by auto

lemma bit_top:
  fixes v :: "'a::len word"
  assumes "2 ^ k \<le> unat v" and "unat v < 2 ^ Suc k"
  shows "bit v k"
proof -
  have "unat v div 2 ^ k = 1"
    using assms by (intro div_nat_eqI) simp_all
  then have "bit (unat v) k" by (simp add: bit_iff_odd)
  then show ?thesis by (simp add: bit_unsigned_iff)
qed

lemma clz32_eq:
  assumes "2 ^ k \<le> unat v" and "unat v < 2 ^ Suc k" and "k < 32"
  shows "clz32 v = 31 - k"
proof -
  have "[0..<32] = [0..<k] @ k # [Suc k..<32]"
    using assms(3) upt_add_eq_append [of 0 k "32 - k"] by (simp add: upt_conv_Cons)
  then have "rev [0..<32] = rev [Suc k..<32] @ k # rev [0..<k]" by simp
  moreover have "takeWhile (\<lambda>i. \<not> bit v i) (rev [Suc k..<32] @ k # rev [0..<k])
      = rev [Suc k..<32]"
    using bit_top [OF assms(1,2)] bit_above [OF assms(2)]
    by (subst takeWhile_append2) auto
  ultimately show ?thesis by (simp add: clz32_def)
qed

lemma fold_bytes:
  "fold (\<lambda>b temp. push_bit 8 temp OR ucast b) bs acc
     = acc * 256 ^ length bs + (of_nat (be_val bs) :: u64)"
proof (induction bs arbitrary: acc)
  case (Cons b bs)
  have "unat (ucast b :: u64) < 2 ^ 8"
    using unat_byte_less [of b] by (simp add: unat_ucast)
  then have "push_bit 8 acc OR ucast b = push_bit 8 acc + ucast b"
    by (rule or_disjoint) (simp add: take_bit_push_bit)
  also have "\<dots> = acc * 256 + of_nat (unat b)"
    by (simp add: push_bit_eq_mult)
  finally show ?case
    using Cons.IH by (simp add: algebra_simps)
qed simp

lemma of_nat_be_val_drop:
  "(of_nat (be_val (drop (length bs - 8) bs)) :: u64) = of_nat (be_val bs)"
proof (cases "length bs \<le> 8")
  case False
  let ?t = "take (length bs - 8) bs" and ?d = "drop (length bs - 8) bs"
  have "be_val bs = be_val ?t * 256 ^ 8 + be_val ?d"
    using be_val_append [of ?t ?d] False by simp
  moreover have "(256 ^ 8 :: u64) = 0" by simp
  ultimately show ?thesis by (simp only: of_nat_add of_nat_mult of_nat_power of_nat_numeral) simp
qed simp

lemma load_loop_eq: "n \<le> length src \<Longrightarrow> load_loop src n = of_nat (be_val (take n src))"
  using of_nat_be_val_drop [of "take n src"]
  by (simp add: load_loop_def fold_bytes min_absorb2)

lemma load_unaligned_eq:
  assumes "n \<le> length src"
  shows "load_unaligned before src n
    = of_nat (be_val before) * 256 ^ n + of_nat (be_val (take n src))"
  using assms of_nat_be_val_drop [of "before @ take n src"]
  by (simp add: load_unaligned_def Let_def be_val_append min_absorb2)

definition varint_bits :: "nat \<Rightarrow> nat" where
  "varint_bits n = min 64 (7 * n - 1)"

lemma kVarIntMasks_eq:
  assumes "1 \<le> n" and "n \<le> 10"
  shows "kVarIntMasks ! n = mask (varint_bits n)"
proof -
  have "list_all (\<lambda>k. kVarIntMasks ! k = mask (varint_bits k)) [1..<11]"
    by (simp add: upt_rec kVarIntMasks_def varint_bits_def mask_eq_exp_minus_1)
  then show ?thesis using assms by (simp add: list_all_iff)
qed

lemma unat_of_nat_and_mask:
  assumes "k \<le> 64"
  shows "unat ((of_nat x :: u64) AND mask k) = x mod 2 ^ k"
proof -
  have "(2::nat) ^ k dvd 2 ^ 64" using assms by (rule le_imp_power_dvd)
  then have "x mod 2 ^ 64 mod 2 ^ k = x mod 2 ^ k" by (rule mod_mod_cancel)
  then show ?thesis by (simp add: unat_and_mask unat_of_nat)
qed

lemma masked_load:
  assumes "1 \<le> n" and "n \<le> length src"
  shows "load_unaligned before src n AND mask (varint_bits n)
      = of_nat (be_val (take n src)) AND mask (varint_bits n)"
    and "load_loop src n AND mask (varint_bits n)
      = of_nat (be_val (take n src)) AND mask (varint_bits n)"
proof -
  let ?k = "varint_bits n" and ?b = "be_val before" and ?t = "be_val (take n src)"
  have k: "?k \<le> 64" "?k \<le> 8 * n" using assms by (simp_all add: varint_bits_def)
  have "(2::nat) ^ ?k dvd 2 ^ (8 * n)" using k(2) by (rule le_imp_power_dvd)
  then have "(?b * 256 ^ n + ?t) mod 2 ^ ?k = ?t mod 2 ^ ?k"
    by (metis dvd_mult mod_add_left_eq mod_0_imp_dvd dvd_imp_mod_0 add_0 power_256)
  moreover have "load_unaligned before src n = of_nat (?b * 256 ^ n + ?t)"
    using load_unaligned_eq [OF assms(2)] by simp
  ultimately show "load_unaligned before src n AND mask ?k = of_nat ?t AND mask ?k"
    using k(1) by (intro word_unat_eq_iff [THEN iffD2]) (simp only: unat_of_nat_and_mask)
  show "load_loop src n AND mask ?k = of_nat ?t AND mask ?k"
    using load_loop_eq [OF assms(2)] by simp
qed

subsection \<open>Reading the length\<close>

lemma unat_varint_header:
  assumes "src \<noteq> []"
  shows "unat (varint_header src) = 256 * unat (src ! 0) + (if length src > 1 then unat (src ! 1) else 0)"
proof -
  let ?lo = "(if length src > 1 then ucast (src ! 1) else 0) :: u16"
  have lo: "unat ?lo = (if length src > 1 then unat (src ! 1) else 0)"
    using unat_byte_less [of "src ! 1"] by (simp add: unat_ucast)
  then have "unat ?lo < 2 ^ 8" using unat_byte_less [of "src ! 1"] by simp
  then have "varint_header src = push_bit 8 (ucast (src ! 0)) + ?lo"
    unfolding varint_header_def by (rule or_disjoint) (simp add: take_bit_push_bit)
  moreover have "unat (push_bit 8 (ucast (src ! 0)) :: u16) = 256 * unat (src ! 0)"
    using unat_byte_less [of "src ! 0"] by (simp add: unat_push_bit unat_ucast)
  ultimately show ?thesis
    using lo unat_byte_less [of "src ! 0"] unat_byte_less [of "src ! 1"]
    by (simp add: unat_word_ariths)
qed

lemma or_range:
  fixes x y :: "'a::len word"
  assumes "2 ^ k \<le> unat x" and "unat x < 2 ^ Suc k" and "unat y < 2 ^ Suc k"
  shows "2 ^ k \<le> unat (x OR y)" and "unat (x OR y) < 2 ^ Suc k"
proof -
  have "bit (x OR y) k" using bit_top [OF assms(1,2)] by (simp add: bit_or_iff)
  then show "2 ^ k \<le> unat (x OR y)" using bit_above [of "x OR y" k k] by force
  have "(x OR y) AND mask (Suc k) = x OR y"
    using take_bit_word_small [OF assms(2)] take_bit_word_small [OF assms(3)]
    by (simp add: take_bit_or flip: take_bit_eq_mask)
  then have "unat (x OR y) = unat (x OR y) mod 2 ^ Suc k" by (metis unat_and_mask)
  then show "unat (x OR y) < 2 ^ Suc k" by (metis mod_less_divisor zero_less_numeral zero_less_power)
qed

lemma unat_inverted_header:
  assumes "2 ^ 15 \<le> unat h"
  shows "unat (NOT (ucast h) AND 0x7fff :: u32) = 0xffff - unat (h :: u16)"
proof -
  let ?h = "ucast h :: u32"
  have h: "unat h < 2 ^ 16" using unsigned_less [of h] by simp
  then have u: "unat ?h = unat h" by (simp add: unat_ucast)
  have m: "(0x7fff :: u32) = mask 15" by (simp add: mask_eq_exp_minus_1)
  have le: "take_bit 15 ?h \<le> mask 15"
  proof -
    have "unat (take_bit 15 ?h) < 2 ^ 15" unfolding take_bit_eq_mask unat_and_mask by simp
    then show ?thesis by (simp add: word_le_nat_alt mask_eq_exp_minus_1)
  qed
  have "NOT ?h AND 0x7fff = take_bit 15 (NOT ?h)" by (simp add: take_bit_eq_mask m)
  also have "\<dots> = mask 15 - take_bit 15 ?h" by (simp add: take_bit_not_eq_mask_diff)
  finally have "unat (NOT ?h AND 0x7fff) = unat (mask 15 :: u32) - unat (take_bit 15 ?h)"
    using le by (simp add: unat_sub)
  also have "unat (take_bit 15 ?h) = unat h mod 2 ^ 15"
    unfolding take_bit_eq_mask unat_and_mask u by (rule refl)
  also have "unat h mod 2 ^ 15 = unat h - 2 ^ 15"
    using assms h by (simp add: mod_if)
  finally show ?thesis using assms by (simp add: mask_eq_exp_minus_1)
qed

lemma header_length:
  fixes h :: u16
  assumes "2 ^ 16 - 2 ^ (16 - n) \<le> unat h" and "unat h < 2 ^ 16 - 2 ^ (15 - n)"
    and "1 \<le> n" and "n \<le> 10"
  shows "clz32 ((NOT (ucast h) AND 0x7fff) OR 0x20) - 16 = n"
proof -
  let ?x = "NOT (ucast h) AND 0x7fff :: u32"
  have p: "(2::nat) ^ (16 - n) \<le> 2 ^ 15" "(2::nat) ^ 5 \<le> 2 ^ (15 - n)" "(2::nat) ^ 5 < 2 ^ (16 - n)"
    by ((rule power_increasing power_strict_increasing; use assms(3,4) in simp)+)
  have e: "16 - n = Suc (15 - n)" using assms(4) by simp
  have x: "unat ?x = 0xffff - unat h" by (rule unat_inverted_header) (use assms(1) p(1) in simp)
  have "2 ^ (15 - n) \<le> unat ?x" "unat ?x < 2 ^ Suc (15 - n)"
    using assms(1,2) p(1) unfolding x e [symmetric] by simp_all
  moreover have "unat (0x20 :: u32) < 2 ^ Suc (15 - n)" using p(3) e by simp
  ultimately have "clz32 (?x OR 0x20) = 31 - (15 - n)"
    by (intro clz32_eq or_range) simp_all
  then show ?thesis using assms(3,4) by simp
qed

text \<open>Any header gives a length between one and ten.\<close>

lemma header_length_range:
  "1 \<le> clz32 ((NOT (ucast (h :: u16)) AND 0x7fff) OR 0x20) - 16
   \<and> clz32 ((NOT (ucast h) AND 0x7fff) OR 0x20) - 16 \<le> 10"
proof -
  let ?x = "NOT (ucast h) AND 0x7fff :: u32"
  let ?y = "?x OR 0x20"
  have "unat (?x) < 2 ^ 15"
    using unat_and_mask [of "NOT (ucast h) :: u32" 15] by (simp add: mask_eq_exp_minus_1)
  then have "take_bit 15 ?y = ?y"
    using take_bit_word_small [of ?x 15] take_bit_word_small [of "0x20 :: u32" 15]
    by (simp only: take_bit_or) simp
  then have hi: "unat ?y < 2 ^ 15"
    using unat_and_mask [of ?y 15] by (simp add: take_bit_eq_mask mask_eq_exp_minus_1)
  have "bit ?y 5" by (simp add: bit_or_iff)
  then have lo: "2 ^ 5 \<le> unat ?y" using bit_above [of ?y 5 5] by force
  define k where "k = (GREATEST k. 2 ^ k \<le> unat ?y)"
  have bound: "\<And>j. 2 ^ j \<le> unat ?y \<Longrightarrow> j \<le> 14"
  proof (rule ccontr)
    fix j assume j: "2 ^ j \<le> unat ?y" "\<not> j \<le> 14"
    then have "(2::nat) ^ 15 \<le> 2 ^ j" by (intro power_increasing) simp_all
    with j hi show False by simp
  qed
  have k: "2 ^ k \<le> unat ?y" 
    unfolding k_def by (rule GreatestI_nat [of "\<lambda>k. 2 ^ k \<le> unat ?y" 5 14]) (use lo bound in blast)+
  have k5: "5 \<le> k" 
    unfolding k_def by (rule Greatest_le_nat [of "\<lambda>k. 2 ^ k \<le> unat ?y" 5 14]) (use lo bound in blast)+
  have "\<not> 2 ^ Suc k \<le> unat ?y"
    using Greatest_le_nat [of "\<lambda>k. 2 ^ k \<le> unat ?y" "Suc k" 14] bound unfolding k_def by force
  then have "clz32 ?y = 31 - k" using k bound [OF k] by (intro clz32_eq) simp_all
  then show ?thesis using k5 bound [OF k] by linarith
qed

subsection \<open>Decoding what was encoded\<close>

lemma code_header:
  assumes "be_val bs = 256 ^ length bs - 2 ^ (7 * length bs) + u" and "u < 2 ^ (7 * length bs - 1)"
    and "bs \<noteq> []" and "length bs \<le> 10"
    and "h = 256 * unat (bs ! 0) + c" and "length bs \<noteq> 1 \<Longrightarrow> c = unat (bs ! 1)" and "c < 256"
  shows "2 ^ 16 - 2 ^ (16 - length bs) \<le> h" and "h < 2 ^ 16 - 2 ^ (15 - length bs)"
proof -
  let ?n = "length bs"
  have n: "1 \<le> ?n" using assms(3) by (simp add: Suc_le_eq)
  have "2 ^ 16 - 2 ^ (16 - ?n) \<le> h \<and> h < 2 ^ 16 - 2 ^ (15 - ?n)"
  proof (cases "?n = 1")
    case True
    then obtain b where bs: "bs = [b]" by (cases bs) auto
    then have "unat b = 128 + u" "u < 64" using assms(1,2) by simp_all
    then show ?thesis using assms(5,7) bs by simp
  next
    case False
    then obtain b0 b1 rest where bs: "bs = b0 # b1 # rest"
      using assms(3) by (metis length_Cons list.exhaust list.size(3) One_nat_def)
    let ?k = "2 ^ (8 * ?n - 16) :: nat"
    have r: "256 ^ length rest = ?k"
      using bs by (simp add: power_256)
    have "h = 256 * unat b0 + unat b1" using assms(5) assms(6) [OF False] bs by simp
    then have "be_val bs = h * 256 ^ length rest + be_val rest" by (simp add: bs algebra_simps)
    then have v: "be_val bs = h * ?k + be_val rest" "be_val rest < ?k"
      using be_val_less [of rest] unfolding r by simp_all
    have "16 + (8 * ?n - 16) = 8 * ?n" "16 - ?n + (8 * ?n - 16) = 7 * ?n"
      "15 - ?n + (8 * ?n - 16) = 7 * ?n - 1"
      using n False assms(4) by auto
    then have e: "2 ^ 16 * ?k = 2 ^ (8 * ?n)" "2 ^ (16 - ?n) * ?k = 2 ^ (7 * ?n)"
      "2 ^ (15 - ?n) * ?k = 2 ^ (7 * ?n - 1)"
      by (simp_all only: power_add [symmetric])
    have d: "(2::nat) ^ (7 * ?n) = 2 * 2 ^ (7 * ?n - 1)"
      using n by (simp flip: power_Suc)
    have le: "(2::nat) ^ (7 * ?n) \<le> 2 ^ (8 * ?n)" by (rule power_increasing) simp_all
    have "(2 ^ 16 - 2 ^ (16 - ?n)) * ?k \<le> be_val bs"
      using assms(1) unfolding diff_mult_distrib e power_256 by simp
    also have "\<dots> < (h + 1) * ?k" using v by simp
    finally have "2 ^ 16 - 2 ^ (16 - ?n) < h + 1" by (simp only: mult_less_cancel2)
    moreover have "h * ?k < (2 ^ 16 - 2 ^ (15 - ?n)) * ?k"
      using assms(1,2) v(1) d le unfolding diff_mult_distrib e power_256 by linarith
    then have "h < 2 ^ 16 - 2 ^ (15 - ?n)" by (simp only: mult_less_cancel2)
    ultimately show ?thesis by simp
  qed
  then show "2 ^ 16 - 2 ^ (16 - length bs) \<le> h" and "h < 2 ^ 16 - 2 ^ (15 - length bs)" by simp_all
qed

lemma unat_u16_xor_ones: "unat (h XOR 0xffff) = 0xffff - unat (h :: u16)"
proof -
  have h: "unat h < 2 ^ 16" using unsigned_less [of h] by simp
  have m: "(0xffff :: u16) = - 1" by simp
  have "h XOR 0xffff = NOT h" by (simp only: m bit.xor_one_right)
  also have "\<dots> = - h - 1" by (simp add: not_eq_complement)
  also have "\<dots> = 0xffff - h" by simp
  finally show ?thesis using h by (simp add: unat_sub word_le_nat_alt)
qed

lemma header_sign: "h AND 0x8000 = 0 \<longleftrightarrow> unat h < 2 ^ 15" for h :: u16
proof -
  have "h AND 0x8000 = 0 \<longleftrightarrow> \<not> bit h 15"
  proof -
    have "(0x8000 :: u16) = push_bit 15 1" by simp
    then show ?thesis by (metis and_exp_eq_0_iff_not_bit push_bit_of_1)
  qed
  also have "\<dots> \<longleftrightarrow> unat h < 2 ^ 15"
    using bit_above [of h 15 15] bit_top [of 15 h] unsigned_less [of h] by force
  finally show ?thesis .
qed

lemma code_bound:
  fixes u :: u64
  assumes "unat u < 2 ^ (7 * n - 1)"
  shows "take_bit (varint_bits n) u = u"
  using assms unat_u64_less [of u] by (intro take_bit_word_small) (simp add: varint_bits_def min_def)

text \<open>The two ways the number is put back together, with and without a sign.\<close>

lemma assemble_nonneg:
  assumes "be_val bs = 256 ^ n - 2 ^ (7 * n) + unat u" and "unat u < 2 ^ (7 * n - 1)"
  shows "of_nat (be_val bs) AND mask (varint_bits n) = (u :: u64)"
proof -
  let ?k = "varint_bits n"
  have k: "?k \<le> 64" "?k \<le> 7 * n" "?k \<le> 8 * n" by (simp_all add: varint_bits_def)
  have d: "(2::nat) ^ ?k dvd 2 ^ (7 * n)" "(2::nat) ^ ?k dvd 2 ^ (8 * n)"
    using k(2,3) by (simp_all only: le_imp_power_dvd)
  have "(256 ^ n - 2 ^ (7 * n) + unat u) mod 2 ^ ?k = unat u mod 2 ^ ?k"
    using dvd_diff_nat [OF d(2,1)] unfolding power_256
    by (metis add_0 dvd_imp_mod_0 mod_add_left_eq)
  also have "\<dots> = unat (take_bit ?k u)" by (simp add: take_bit_eq_mask unat_and_mask)
  also have "\<dots> = unat u" using code_bound [OF assms(2)] by simp
  finally show ?thesis
    using assms(1) k(1) by (intro word_unat_eq_iff [THEN iffD2]) (simp only: unat_of_nat_and_mask)
qed

lemma assemble_neg:
  assumes "be_val bs = 256 ^ length bs - 2 ^ (7 * length bs) + unat u"
    and "unat u < 2 ^ (7 * length bs - 1)"
  shows "of_nat (be_val (map (\<lambda>b. NOT b) bs)) AND mask (varint_bits (length bs))
    OR NOT (mask (varint_bits (length bs))) = NOT (u :: u64)"
proof -
  let ?k = "varint_bits (length bs)" and ?x = "of_nat (be_val bs) :: u64"
  let ?y = "of_nat (be_val (map (\<lambda>b. NOT b) bs)) :: u64"
  have "?y + ?x + 1 = 256 ^ length bs"
    using arg_cong [OF be_val_map_NOT [of bs], of "of_nat :: nat \<Rightarrow> u64"] by (simp add: ac_simps)
  then have "?y = 256 ^ length bs + NOT ?x" by (simp add: not_eq_complement algebra_simps)
  then have y: "?y = of_nat (1 * 256 ^ length bs + unat (NOT ?x))" by simp
  have "(2::nat) ^ ?k dvd 2 ^ (8 * length bs)"
    by (rule le_imp_power_dvd) (simp add: varint_bits_def)
  then have "(1 * 256 ^ length bs + unat (NOT ?x)) mod 2 ^ ?k = unat (NOT ?x) mod 2 ^ ?k"
    unfolding power_256 mult_1 by (metis add_0 dvd_imp_mod_0 mod_add_left_eq)
  moreover have k: "?k \<le> 64" by (simp add: varint_bits_def)
  ultimately have "?y AND mask ?k = NOT ?x AND mask ?k"
    unfolding y by (intro word_unat_eq_iff [THEN iffD2])
      (subst unat_of_nat_and_mask [OF k], simp only: unat_and_mask)
  moreover have "?x AND mask ?k = u" by (rule assemble_nonneg [OF assms])
  ultimately show ?thesis
    by (auto simp: bit_eq_iff bit_simps)
qed

lemma decode_nonneg:
  assumes code: "be_val bs = 256 ^ length bs - 2 ^ (7 * length bs) + unat u"
      "unat u < 2 ^ (7 * length bs - 1)" "bs \<noteq> []" "length bs \<le> 10"
    and load: "load (bs @ rest) (length bs) AND mask (varint_bits (length bs))
      = of_nat (be_val bs) AND mask (varint_bits (length bs))"
  shows "FastDecodeSignedVarInt_with load (bs @ rest) = Inr (u, length bs)"
proof -
  let ?n = "length bs" and ?h = "varint_header (bs @ rest)"
  have n: "1 \<le> ?n" using code(3) by (simp add: Suc_le_eq)
  let ?c = "if length (bs @ rest) > 1 then unat ((bs @ rest) ! 1) else 0"
  have h: "unat ?h = 256 * unat (bs ! 0) + ?c"
    using unat_varint_header [of "bs @ rest"] code(3) by (simp add: nth_append)
  have c: "?n \<noteq> 1 \<Longrightarrow> ?c = unat (bs ! 1)" "?c < 256"
    using n unat_byte_less [of "(bs @ rest) ! 1"] by (auto simp: nth_append)
  note r = code_header [OF code h c]
  have "(2::nat) ^ (16 - ?n) \<le> 2 ^ 15" using n by (intro power_increasing) simp_all
  then have sign: "\<not> ?h AND 0x8000 = 0" using r(1) by (simp add: header_sign)
  have len: "clz32 ((NOT (ucast ?h) AND 0x7fff) OR 0x20) - 16 = ?n"
    by (rule header_length [OF r n code(4)])
  have "of_nat (be_val bs) AND mask (varint_bits ?n) = u" by (rule assemble_nonneg [OF code(1,2)])
  then show ?thesis
    using sign len load code(3) n code(4)
    by (simp add: FastDecodeSignedVarInt_with_def Let_def kVarIntMasks_eq)
qed

lemma decode_neg:
  assumes code: "be_val bs = 256 ^ length bs - 2 ^ (7 * length bs) + unat u"
      "unat u < 2 ^ (7 * length bs - 1)" "bs \<noteq> []" "length bs \<le> 10"
    and load: "load (map (\<lambda>b. NOT b) bs @ rest) (length bs) AND mask (varint_bits (length bs))
      = of_nat (be_val (map (\<lambda>b. NOT b) bs)) AND mask (varint_bits (length bs))"
  shows "FastDecodeSignedVarInt_with load (map (\<lambda>b. NOT b) bs @ rest) = Inr (- u, length bs)"
proof -
  let ?n = "length bs" and ?s = "map (\<lambda>b. NOT b) bs @ rest"
  let ?h = "varint_header ?s"
  have n: "1 \<le> ?n" using code(3) by (simp add: Suc_le_eq)
  let ?d = "if length ?s > 1 then unat (?s ! 1) else 0"
  have h: "unat ?h = 256 * unat (NOT (bs ! 0)) + ?d"
    using unat_varint_header [of ?s] code(3) by (simp add: nth_append)
  have d: "?d \<le> 255" using unat_byte_less [of "?s ! 1"] by simp
  have "unat (?h XOR 0xffff) = 0xffff - unat ?h" by (rule unat_u16_xor_ones)
  then have x: "unat (?h XOR 0xffff) = 256 * unat (bs ! 0) + (255 - ?d)"
    using h d unat_byte_NOT [of "bs ! 0"] by linarith
  have c: "?n \<noteq> 1 \<Longrightarrow> 255 - ?d = unat (bs ! 1)" "255 - ?d < 256"
    using n unat_byte_NOT [of "bs ! 1"] by (auto simp: nth_append)
  note r = code_header [OF code x c]
  have "(2::nat) ^ (16 - ?n) \<le> 2 ^ 15" using n by (intro power_increasing) simp_all
  then have "2 ^ 15 \<le> unat (?h XOR 0xffff)" using r(1) by simp
  then have sign: "?h AND 0x8000 = 0"
    using unat_u16_xor_ones [of ?h] by (simp add: header_sign)
  have len: "clz32 ((NOT (ucast (?h XOR 0xffff)) AND 0x7fff) OR 0x20) - 16 = ?n"
    by (rule header_length [OF r n code(4)])
  have "of_nat (be_val (map (\<lambda>b. NOT b) bs)) AND mask (varint_bits ?n)
      OR NOT (mask (varint_bits ?n)) = NOT u" by (rule assemble_neg [OF code(1,2)])
  moreover have "NOT u + 1 = - u" by (simp add: not_eq_complement)
  moreover have "(ucast (- 1 :: u64) :: u16) = 0xffff"
    by (simp add: unsigned_minus_1_eq_mask mask_eq_exp_minus_1)
  ultimately show ?thesis
    using sign len load code(3) n code(4)
    by (simp add: FastDecodeSignedVarInt_with_def Let_def kVarIntMasks_eq)
qed

text \<open>The unsigned decoder.\<close>

lemma kUnsignedVarIntSize_eq:
  assumes "256 - 2 ^ (9 - n) \<le> unat b" and "unat b < 256 - 2 ^ (9 - n) + 2 ^ (8 - n)"
    and "1 \<le> n" and "n \<le> 8"
  shows "kUnsignedVarIntSize b = n"
proof -
  let ?b = "push_bit 1 (ucast b) :: u32"
  have b: "unat ?b = 2 * unat b"
    using unat_byte_less [of b] unfolding unat_push_bit unat_ucast by simp
  have e: "9 - n = Suc (8 - n)" using assms(4) by simp
  have p: "(2::nat) ^ (8 - n) \<le> 2 ^ 7" using assms(3) by (intro power_increasing) simp_all
  have m: "(0x1ff :: u32) = mask 9" by (simp add: mask_eq_exp_minus_1)
  have "take_bit 9 ?b = ?b" using b unat_byte_less [of b] by (intro take_bit_word_small) simp
  then have "?b XOR 0x1ff = take_bit 9 (NOT ?b)"
    unfolding m by (metis bit.xor_one_right take_bit_minus_one_eq_mask take_bit_xor)
  also have "\<dots> = mask 9 - ?b"
    using \<open>take_bit 9 ?b = ?b\<close> by (simp add: take_bit_not_eq_mask_diff)
  finally have x: "unat (?b XOR 0x1ff) = 511 - 2 * unat b"
    using b unat_byte_less [of b] by (simp add: mask_eq_exp_minus_1 unat_sub word_le_nat_alt)
  have "2 ^ (9 - n) \<le> unat (?b XOR 0x1ff)" "unat (?b XOR 0x1ff) < 2 ^ Suc (9 - n)"
    using assms(1,2) p unfolding x e by simp_all
  then have "clz32 (?b XOR 0x1ff) = 31 - (9 - n)" by (rule clz32_eq) simp
  then show ?thesis using assms(3,4) by (simp add: kUnsignedVarIntSize_def)
qed

lemma unsigned_first_byte:
  assumes "UnsignedVarIntLength u = Suc k" and "k \<le> 7"
  obtains b where "FastEncodeUnsignedVarInt u = b # be_bytes k (unat u)"
    and "unat b = 256 - 2 ^ (8 - k) + unat u div 256 ^ k" and "unat u div 256 ^ k < 2 ^ (7 - k)"
proof -
  let ?bs = "FastEncodeUnsignedVarInt u"
  let ?b = "ucast (NOT (push_bit (8 - k) 1 - 1) OR drop_bit (8 * k) u) :: byte"
  have e: "?bs = ?b # be_bytes k (unat u)"
    using assms tail_bytes [of 1 "Suc k" u] by (simp add: FastEncodeUnsignedVarInt_def Let_def)
  have "unat u < 2 ^ (7 * Suc k)"
    using UnsignedVarIntLength_bounds(3) [of u] assms by simp
  also have "7 * Suc k = 7 - k + 8 * k" using assms(2) by simp
  finally have q: "unat u div 256 ^ k < 2 ^ (7 - k)"
    by (simp add: power_add power_256 div_less_iff_less_mult)
  have d: "unat (drop_bit (8 * k) u) = unat u div 256 ^ k"
    by (simp only: unat_drop_bit power_256)
  have "(2::nat) ^ (7 - k) \<le> 2 ^ (8 - k)" by (rule power_increasing) simp_all
  then have "unat ?b = 256 - 2 ^ (8 - k) + unat u div 256 ^ k"
    using unat_start_byte [of "drop_bit (8 * k) u" "8 - k"] q by (simp only: d)
  with e q that show ?thesis by blast
qed

lemma unsigned_decode_short:
  assumes "UnsignedVarIntLength u = Suc k" and "k \<le> 7"
  shows "FastDecodeUnsignedVarInt (FastEncodeUnsignedVarInt u @ rest) = Inr (u, Suc k)"
proof -
  obtain b where b: "FastEncodeUnsignedVarInt u = b # be_bytes k (unat u)"
    "unat b = 256 - 2 ^ (8 - k) + unat u div 256 ^ k" "unat u div 256 ^ k < 2 ^ (7 - k)"
    by (rule unsigned_first_byte [OF assms])
  let ?q = "unat u div 256 ^ k"
  have size: "kUnsignedVarIntSize b = Suc k"
    using b(2,3) assms(2) by (intro kUnsignedVarIntSize_eq) simp_all
  have p: "8 - k = Suc (7 - k)" using assms(2) by simp
  have "(2::nat) ^ (7 - k) dvd 256 - 2 ^ (8 - k)"
    using assms(2) le_imp_power_dvd [of "7 - k" 8 "2::nat"] le_imp_power_dvd [of "7 - k" "8 - k" "2::nat"]
    by (intro dvd_diff_nat) simp_all
  then obtain m where "256 - 2 ^ (8 - k) = (2::nat) ^ (7 - k) * m" by (rule dvdE)
  then have "unat b = ?q + 2 ^ (7 - k) * m" using b(2) by simp
  then have mod: "unat b mod 2 ^ (7 - k) = ?q"
    using b(3) by (simp only: mod_mult_self2 mod_less)
  have "unat (ucast b AND mask (7 - k) :: u64) = ?q"
    using mod unat_byte_less [of b] by (simp add: unat_and_mask unat_ucast)
  moreover have "?q < 2 ^ 64" by (rule le_less_trans [OF div_le_dividend unat_u64_less])
  then have "unat (of_nat ?q :: u64) = ?q" by (simp add: unat_of_nat)
  ultimately have "ucast b AND mask (7 - k) = (of_nat ?q :: u64)"
    by (intro word_unat_eq_iff [THEN iffD2]) simp
  then have start: "ucast b AND (2 ^ (7 - k) - 1) = (of_nat ?q :: u64)"
    by (simp add: mask_eq_exp_minus_1)
  have "of_nat ?q * 256 ^ k + (of_nat (unat u mod 256 ^ k) :: u64) = of_nat (?q * 256 ^ k + unat u mod 256 ^ k)"
    by simp
  also have "\<dots> = u" by (simp only: div_mult_mod_eq) simp
  finally have v: "of_nat ?q * 256 ^ k + (of_nat (unat u mod 256 ^ k) :: u64) = u" .
  show ?thesis
  proof (cases "k = 0")
    case True
    then have "unat b = unat u" "unat b < 128" using b(2,3) by simp_all
    then have "ucast (b AND 0x7f) = u"
      using unat_and_mask [of b 7]
      by (simp add: word_unat_eq_iff unat_ucast mask_eq_exp_minus_1)
    then show ?thesis
      using True b(1) size by (simp add: FastDecodeUnsignedVarInt_def Let_def)
  next
    case False
    then show ?thesis
      using assms(2) b(1) size start v
      by (simp add: FastDecodeUnsignedVarInt_def Let_def fold_bytes be_val_be_bytes)
  qed
qed

lemma unsigned_decode_long:
  assumes "UnsignedVarIntLength u = 9 \<or> UnsignedVarIntLength u = 10"
  shows "FastDecodeUnsignedVarInt (FastEncodeUnsignedVarInt u @ rest)
    = Inr (u, UnsignedVarIntLength u)"
proof -
  have size: "kUnsignedVarIntSize 0xff = 9"
    using clz32_eq [of 0 1] by (simp add: kUnsignedVarIntSize_def)
  from assms show ?thesis
  proof
    assume n: "UnsignedVarIntLength u = 9"
    let ?b = "ucast (drop_bit 56 u) :: byte"
    have e: "FastEncodeUnsignedVarInt u = [0xff, ?b] @ be_bytes 7 (unat u)"
      using n tail_bytes [of "Suc (Suc 0)" 9 u] by (simp add: FastEncodeUnsignedVarInt_def Let_def)
    have "unat (drop_bit 56 u) < 2 ^ 7"
      using n UnsignedVarIntLength_bounds(3) [of u]
      by (simp add: unat_drop_bit div_less_iff_less_mult)
    then have "\<not> bit ?b 7" by (intro bit_above [of _ 7]) (simp_all add: unat_ucast)
    moreover have "(0x80 :: byte) = push_bit 7 1" by simp
    ultimately have hi: "?b AND 0x80 = 0"
      by (metis and_exp_eq_0_iff_not_bit push_bit_of_1)
    have "be_val ([0xff, ?b] @ be_bytes 7 (unat u)) = 255 * 256 ^ 8 + unat u"
      using FastEncodeUnsignedVarInt_value(2) [of u] n unfolding e by simp
    then have "(of_nat (be_val ([0xff, ?b] @ be_bytes 7 (unat u))) :: u64) = u" by simp
    then show ?thesis
      using n hi size unfolding e
      by (simp add: FastDecodeUnsignedVarInt_def Let_def fold_bytes del: be_val.simps)
  next
    assume n: "UnsignedVarIntLength u = 10"
    have e: "FastEncodeUnsignedVarInt u = [0xff, 0x80] @ be_bytes 8 (unat u)"
      using n tail_bytes [of "Suc (Suc 0)" 10 u] by (simp add: FastEncodeUnsignedVarInt_def Let_def)
    have "be_val (be_bytes 8 (unat u)) = unat u"
      using unat_u64_less [of u] by (simp add: be_val_be_bytes)
    then have "(of_nat (be_val (be_bytes 8 (unat u))) :: u64) = u" by simp
    then show ?thesis
      using n size unfolding e
      by (simp add: FastDecodeUnsignedVarInt_def Let_def fold_bytes)
  qed
qed

subsection \<open>Round trips\<close>

lemma encode_magnitude_code:
  "be_val (encode_magnitude u)
     = 256 ^ length (encode_magnitude u) - 2 ^ (7 * length (encode_magnitude u)) + unat u"
  "unat u < 2 ^ (7 * length (encode_magnitude u) - 1)"
  "encode_magnitude u \<noteq> []" "length (encode_magnitude u) \<le> 10"
  using encode_magnitude_value [of u] SignedPositiveVarIntLength_bounds [of u] by auto

lemma length_FastEncodeSignedVarInt:
  "1 \<le> length (FastEncodeSignedVarInt v)" "length (FastEncodeSignedVarInt v) \<le> 10"
  using encode_magnitude_code(3,4) [of v] encode_magnitude_code(3,4) [of "- v"]
  by (cases "sint v < 0"; simp add: FastEncodeSignedVarInt_neg FastEncodeSignedVarInt_nonneg Suc_le_eq)+

lemma decode_with_encode:
  assumes "\<And>src n. 1 \<le> n \<Longrightarrow> n \<le> length src \<Longrightarrow> load src n AND mask (varint_bits n)
      = of_nat (be_val (take n src)) AND mask (varint_bits n)"
  shows "FastDecodeSignedVarInt_with load (FastEncodeSignedVarInt v @ rest)
    = Inr (v, length (FastEncodeSignedVarInt v))"
proof (cases "sint v < 0")
  case True
  let ?bs = "encode_magnitude (- v)"
  have "1 \<le> length ?bs" using encode_magnitude_code(3) [of "- v"] by (simp add: Suc_le_eq)
  then have "FastDecodeSignedVarInt_with load (map (\<lambda>b. NOT b) ?bs @ rest) = Inr (- (- v), length ?bs)"
    using assms [of "length ?bs" "map (\<lambda>b. NOT b) ?bs @ rest"]
    by (intro decode_neg encode_magnitude_code) simp
  then show ?thesis using True by (simp add: FastEncodeSignedVarInt_neg)
next
  case False
  let ?bs = "encode_magnitude v"
  have "1 \<le> length ?bs" using encode_magnitude_code(3) [of v] by (simp add: Suc_le_eq)
  then have "FastDecodeSignedVarInt_with load (?bs @ rest) = Inr (v, length ?bs)"
    using assms [of "length ?bs" "?bs @ rest"]
    by (intro decode_nonneg encode_magnitude_code) simp
  then show ?thesis using False by (simp add: FastEncodeSignedVarInt_nonneg)
qed

lemma FastDecodeSignedVarInt_encode:
  "FastDecodeSignedVarInt before (FastEncodeSignedVarInt v @ rest)
     = Inr (v, length (FastEncodeSignedVarInt v))"
  unfolding FastDecodeSignedVarInt_def
  by (rule decode_with_encode) (rule masked_load(1))

lemma FastDecodeSignedVarInt_slice_encode:
  "FastDecodeSignedVarInt_slice (before, FastEncodeSignedVarInt v @ rest)
     = Inr (v, before @ FastEncodeSignedVarInt v, rest)"
  by (simp add: FastDecodeSignedVarInt_slice_def FastDecodeSignedVarInt_encode remove_prefix_def)

lemma FastDecodeDescendingSignedVarInt_encode [simp]:
  "FastDecodeDescendingSignedVarInt (before, FastEncodeDescendingSignedVarInt v @ rest)
     = Inr (v, before @ FastEncodeDescendingSignedVarInt v, rest)"
  by (simp add: FastDecodeDescendingSignedVarInt_def FastEncodeDescendingSignedVarInt_def
      FastDecodeSignedVarInt_encode remove_prefix_def)

lemma FastDecodeUnsignedVarInt_encode:
  "FastDecodeUnsignedVarInt (FastEncodeUnsignedVarInt v @ rest)
     = Inr (v, length (FastEncodeUnsignedVarInt v))"
proof -
  note b = UnsignedVarIntLength_bounds [of v]
  consider k where "UnsignedVarIntLength v = Suc k" "k \<le> 7"
    | "UnsignedVarIntLength v = 9 \<or> UnsignedVarIntLength v = 10"
  proof (cases "UnsignedVarIntLength v \<le> 8")
    case True
    then show ?thesis using that(1) [of "UnsignedVarIntLength v - 1"] b(1) by simp
  next
    case False
    then show ?thesis using that(2) b(2) by linarith
  qed
  then show ?thesis
    by cases (simp_all add: unsigned_decode_short unsigned_decode_long FastEncodeUnsignedVarInt_value(1))
qed

lemma FastEncodeSignedVarInt_order:
  assumes "v \<noteq> w"
  shows "bytes_less (FastEncodeSignedVarInt v @ x) (FastEncodeSignedVarInt w @ y) \<longleftrightarrow> sint v < sint w"
proof -
  have "sint v \<noteq> sint w" using assms signed_word_eqI [where 'a = int] by blast
  then consider "sint v < sint w" | "sint w < sint v" by linarith
  then show ?thesis
  proof cases
    case 1
    then show ?thesis
      using bytes_prec_less [OF bytes_prec_append [OF FastEncodeSignedVarInt_prec [OF 1]]] by simp
  next
    case 2
    have "bytes_less (FastEncodeSignedVarInt w @ y) (FastEncodeSignedVarInt v @ x)"
      by (rule bytes_prec_less [OF bytes_prec_append [OF FastEncodeSignedVarInt_prec [OF 2]]])
    then show ?thesis using 2 bytes_less_trans bytes_less_irrefl by (meson less_asym)
  qed
qed

lemma FastEncodeUnsignedVarInt_order:
  assumes "v \<noteq> w"
  shows "bytes_less (FastEncodeUnsignedVarInt v @ x) (FastEncodeUnsignedVarInt w @ y) \<longleftrightarrow> v < w"
proof -
  consider "v < w" | "w < v" using assms by fastforce
  then show ?thesis
  proof cases
    case 1
    then have "unat v < unat w" by (simp add: word_less_nat_alt)
    then show ?thesis
      using 1 bytes_prec_less [OF bytes_prec_append [OF FastEncodeUnsignedVarInt_prec]] by blast
  next
    case 2
    then have "unat w < unat v" by (simp add: word_less_nat_alt)
    then have "bytes_less (FastEncodeUnsignedVarInt w @ y) (FastEncodeUnsignedVarInt v @ x)"
      by (rule bytes_prec_less [OF bytes_prec_append [OF FastEncodeUnsignedVarInt_prec]])
    then show ?thesis using 2 bytes_less_trans bytes_less_irrefl by (meson less_asym)
  qed
qed

subsection \<open>Properties\<close>

text \<open>
  C16: decoding a signed encoding returns the number and the length of the encoding, whatever
  follows it in the buffer and whatever bytes the release build reads in front of it. An
  encoding has one to ten bytes.
\<close>

theorem signed_varint_roundtrip:
  "FastDecodeSignedVarInt before (FastEncodeSignedVarInt v @ rest)
     = Inr (v, length (FastEncodeSignedVarInt v))
   \<and> FastDecodeSignedVarInt_slice (before, FastEncodeSignedVarInt v @ rest)
       = Inr (v, before @ FastEncodeSignedVarInt v, rest)
   \<and> 1 \<le> length (FastEncodeSignedVarInt v) \<and> length (FastEncodeSignedVarInt v) \<le> 10"
  using FastDecodeSignedVarInt_encode FastDecodeSignedVarInt_slice_encode
    length_FastEncodeSignedVarInt by blast

text \<open>
  C17: the byte order of signed encodings is the order of the numbers, also inside longer
  keys: two different numbers decide the comparison whatever follows them.
\<close>

theorem signed_varint_order:
  assumes "v \<noteq> w"
  shows "slice_compare (FastEncodeSignedVarInt v @ x) (FastEncodeSignedVarInt w @ y) < 0
    \<longleftrightarrow> sint v < sint w"
  using FastEncodeSignedVarInt_order [OF assms] by (simp add: slice_compare_less_iff)

theorem signed_varint_order_witness:
  "slice_compare (FastEncodeSignedVarInt (- 70) @ [0xff]) (FastEncodeSignedVarInt 3 @ []) < 0"
  using signed_varint_order [of "- 70" 3 "[0xff]" "[]"] by simp

text \<open>
  C31: the release build of the signed decoder, which loads eight bytes at once, and the loop
  of the sanitizer build agree on every input, correct or not.
\<close>

theorem signed_varint_decoders_agree:
  "FastDecodeSignedVarInt before src = FastDecodeSignedVarInt_sanitizer src"
proof -
  have "load_unaligned before src n AND kVarIntMasks ! n = load_loop src n AND kVarIntMasks ! n"
    if "1 \<le> n" "n \<le> 10" "n \<le> length src" for n
    using that masked_load(1) [of n src before] masked_load(2) [of n src]
    by (simp add: kVarIntMasks_eq)
  moreover have "1 \<le> clz32 ((NOT (ucast (h :: u16)) AND 0x7fff) OR 0x20) - 16"
    "clz32 ((NOT (ucast h) AND 0x7fff) OR 0x20) - 16 \<le> 10" for h
    using header_length_range [of h] by blast+
  ultimately show ?thesis
    unfolding FastDecodeSignedVarInt_def FastDecodeSignedVarInt_sanitizer_def
      FastDecodeSignedVarInt_with_def Let_def
    by (simp add: not_less)
qed

text \<open>
  C32: decoding an unsigned encoding returns the number and leaves what follows it; the
  byte order of unsigned encodings is the order of the numbers.
\<close>

theorem unsigned_varint_roundtrip_and_order:
  "FastDecodeUnsignedVarInt_slice (FastEncodeUnsignedVarInt v @ rest) = Inr (v, rest)
   \<and> (v \<noteq> w \<longrightarrow>
      (slice_compare (FastEncodeUnsignedVarInt v @ x) (FastEncodeUnsignedVarInt w @ y) < 0 \<longleftrightarrow> v < w))"
  using FastDecodeUnsignedVarInt_encode [of v rest] FastEncodeUnsignedVarInt_order [of v w x y]
  by (simp add: FastDecodeUnsignedVarInt_slice_def slice_compare_less_iff)

theorem unsigned_varint_roundtrip_and_order_witness:
  "FastDecodeUnsignedVarInt_slice (FastEncodeUnsignedVarInt 300 @ [7]) = Inr (300, [7])
   \<and> slice_compare (FastEncodeUnsignedVarInt 300 @ [9]) (FastEncodeUnsignedVarInt 5000 @ []) < 0"
  using unsigned_varint_roundtrip_and_order [of 300 "[7]" 5000 "[9]" "[]"] by simp

text \<open>
  C40: the variant of the unsigned decoder for a whole slice never returns a number: on the
  encoding of any number it builds a result from an OK status, which is a failed check.
\<close>

theorem unsigned_varint_whole_slice_crashes:
  "FastDecodeUnsignedVarInt_whole (FastEncodeUnsignedVarInt v) = Inl Fatal
   \<and> FastDecodeUnsignedVarInt_whole s \<noteq> Inr x"
proof -
  have "FastDecodeUnsignedVarInt_slice (FastEncodeUnsignedVarInt v) = Inr (v, [])"
    using FastDecodeUnsignedVarInt_encode [of v "[]"] by (simp add: FastDecodeUnsignedVarInt_slice_def)
  then show ?thesis
    by (auto simp: FastDecodeUnsignedVarInt_whole_def verify_result_eq_Inr)
qed

end
