(* ===== verification/Value_Type.thy ===== *)
theory Value_Type
  imports Fast_Varint Hybrid_Time
begin

text \<open>
  Value types (\<^verbatim>\<open>src/src/yb/docdb/value_type.h\<close>): the byte in front of every component of
  a DocDB key and of every stored value, and the sets of intent types that the same file
  declares.

  \<^verbatim>\<open>ValueType\<close> is an \<^verbatim>\<open>enum class\<close> over \<^verbatim>\<open>int\<close>, and a cast gives it values that are not
  enumerators; these are the constructor \<open>NotEnumerated\<close>. Plain \<^verbatim>\<open>char\<close> is signed, as on
  x86-64, so the enumerator with value \<^verbatim>\<open>'\xff'\<close> is - 1.
\<close>

unbundle bit_operations_syntax

subsection \<open>The enumeration\<close>

datatype ValueType =
    kLowest | kObsoleteIntentPrefix | kIntentTypeSet | kObsoleteIntentTypeSet
  | kObsoleteIntentType | kGroupEnd | kHybridTime | kNull | kCounter | kSSForward
  | kSSReverse | kRedisSet | kRedisList | kRedisTS | kRedisSortedSet | kInetaddress
  | kInetaddressDescending | kJsonb | kFrozen | kFrozenDescending | kArray | kVarInt
  | kFloat | kDouble | kDecimal | kFalse | kUInt16Hash | kInt32 | kInt64 | kSystemColumnId
  | kColumnId | kDoubleDescending | kFloatDescending | kUInt32 | kString | kTrue
  | kTombstone | kArrayIndex | kUuid | kUuidDescending | kStringDescending
  | kInt64Descending | kTimestampDescending | kDecimalDescending | kInt32Descending
  | kVarIntDescending | kUInt32Descending | kTrueDescending | kFalseDescending
  | kMergeFlags | kTimestamp | kTtl | kUserTimestamp | kWriteId | kTransactionId
  | kTableId | kObject | kNullDescending | kGroupEndDescending | kHighest | vt_kInvalid
  | kMaxByte
  | NotEnumerated int

definition DOCDB_VALUE_TYPES :: "(ValueType \<times> int) list" where
  "DOCDB_VALUE_TYPES =
    [(kLowest, 0), (kObsoleteIntentPrefix, 10), (kIntentTypeSet, 13),
     (kObsoleteIntentTypeSet, 15), (kObsoleteIntentType, 20), (kGroupEnd, 33),
     (kHybridTime, 35), (kNull, 36), (kCounter, 37), (kSSForward, 38), (kSSReverse, 39),
     (kRedisSet, 40), (kRedisList, 41), (kRedisTS, 43), (kRedisSortedSet, 44),
     (kInetaddress, 45), (kInetaddressDescending, 46), (kJsonb, 50), (kFrozen, 60),
     (kFrozenDescending, 62), (kArray, 65), (kVarInt, 66), (kFloat, 67), (kDouble, 68),
     (kDecimal, 69), (kFalse, 70), (kUInt16Hash, 71), (kInt32, 72), (kInt64, 73),
     (kSystemColumnId, 74), (kColumnId, 75), (kDoubleDescending, 76),
     (kFloatDescending, 77), (kUInt32, 79), (kString, 83), (kTrue, 84), (kTombstone, 88),
     (kArrayIndex, 91), (kUuid, 95), (kUuidDescending, 96), (kStringDescending, 97),
     (kInt64Descending, 98), (kTimestampDescending, 99), (kDecimalDescending, 100),
     (kInt32Descending, 101), (kVarIntDescending, 102), (kUInt32Descending, 103),
     (kTrueDescending, 104), (kFalseDescending, 105), (kMergeFlags, 107), (kTimestamp, 115),
     (kTtl, 116), (kUserTimestamp, 117), (kWriteId, 119), (kTransactionId, 120),
     (kTableId, 121), (kObject, 123), (kNullDescending, 124), (kGroupEndDescending, 125),
     (kHighest, 126), (vt_kInvalid, 127), (kMaxByte, - 1)]"

text \<open>\<^verbatim>\<open>to_underlying\<close>, and the cast from \<^verbatim>\<open>int\<close>.\<close>

definition underlying :: "ValueType \<Rightarrow> int" where
  "underlying t =
     (case t of NotEnumerated i \<Rightarrow> i | _ \<Rightarrow> the (map_of DOCDB_VALUE_TYPES t))"

definition value_type_cast :: "int \<Rightarrow> ValueType" where
  "value_type_cast i =
     (case map_of (map (\<lambda>(t, v). (v, t)) DOCDB_VALUE_TYPES) i of
        Some t \<Rightarrow> t | None \<Rightarrow> NotEnumerated i)"

text \<open>The byte of a value type: \<^verbatim>\<open>static_cast<char>\<close>, and \<^verbatim>\<open>ValueTypeAsChar\<close>.\<close>

definition value_type_char :: "ValueType \<Rightarrow> byte" where
  "value_type_char t = word_of_int (underlying t)"

definition kMinPrimitiveValueType :: ValueType where
  "kMinPrimitiveValueType = kNull"

definition kMaxPrimitiveValueType :: ValueType where
  "kMaxPrimitiveValueType = kNullDescending"

definition IsObjectType :: "ValueType \<Rightarrow> bool" where
  "IsObjectType value_type \<longleftrightarrow>
     value_type = kRedisTS \<or> value_type = kObject \<or> value_type = kRedisSet \<or>
     value_type = kRedisSortedSet \<or> value_type = kSSForward \<or> value_type = kSSReverse \<or>
     value_type = kRedisList"

definition IsCollectionType :: "ValueType \<Rightarrow> bool" where
  "IsCollectionType value_type \<longleftrightarrow> IsObjectType value_type \<or> value_type = kArray"

definition IsPrimitiveValueType :: "ValueType \<Rightarrow> bool" where
  "IsPrimitiveValueType value_type \<longleftrightarrow>
     underlying kMinPrimitiveValueType \<le> underlying value_type \<and>
     underlying value_type \<le> underlying kMaxPrimitiveValueType \<and>
     \<not> IsCollectionType value_type \<and> value_type \<noteq> kTombstone"

definition IsSpecialValueType :: "ValueType \<Rightarrow> bool" where
  "IsSpecialValueType value_type \<longleftrightarrow> value_type = kLowest \<or> value_type = kHighest"

definition IsPrimitiveOrSpecialValueType :: "ValueType \<Rightarrow> bool" where
  "IsPrimitiveOrSpecialValueType value_type \<longleftrightarrow>
     IsPrimitiveValueType value_type \<or> IsSpecialValueType value_type"

text \<open>
  \<^verbatim>\<open>DecodeValueType\<close> reads an unsigned byte of the slice, \<^verbatim>\<open>ConsumeValueType\<close> and the
  overload on a character a \<^verbatim>\<open>char\<close>: they differ from the byte 128 on.
\<close>

definition DecodeValueType :: "bytes \<Rightarrow> ValueType" where
  "DecodeValueType value =
     (case value of [] \<Rightarrow> vt_kInvalid | b # _ \<Rightarrow> value_type_cast (uint b))"

definition ConsumeValueType :: "cursor \<Rightarrow> ValueType \<times> cursor" where
  "ConsumeValueType sl =
     (case snd sl of [] \<Rightarrow> (vt_kInvalid, sl)
      | b # _ \<Rightarrow> (value_type_cast (sint b), remove_prefix 1 sl))"

definition DecodeValueType_char :: "byte \<Rightarrow> ValueType" where
  "DecodeValueType_char value_type_byte = value_type_cast (sint value_type_byte)"

definition IsMergeRecord :: "bytes \<Rightarrow> bool" where
  "IsMergeRecord value \<longleftrightarrow> DecodeValueType value = kMergeFlags"

text \<open>The values of the enumeration; no other value has a byte of its own.\<close>

definition enumerated :: "ValueType \<Rightarrow> bool" where
  "enumerated t \<longleftrightarrow> (case t of NotEnumerated _ \<Rightarrow> False | _ \<Rightarrow> True)"

subsection \<open>Lemmas\<close>

lemma underlying_simps [simp]:
  "underlying kLowest = 0"
  "underlying kObsoleteIntentPrefix = 10"
  "underlying kIntentTypeSet = 13"
  "underlying kObsoleteIntentTypeSet = 15"
  "underlying kObsoleteIntentType = 20"
  "underlying kGroupEnd = 33"
  "underlying kHybridTime = 35"
  "underlying kNull = 36"
  "underlying kCounter = 37"
  "underlying kSSForward = 38"
  "underlying kSSReverse = 39"
  "underlying kRedisSet = 40"
  "underlying kRedisList = 41"
  "underlying kRedisTS = 43"
  "underlying kRedisSortedSet = 44"
  "underlying kInetaddress = 45"
  "underlying kInetaddressDescending = 46"
  "underlying kJsonb = 50"
  "underlying kFrozen = 60"
  "underlying kFrozenDescending = 62"
  "underlying kArray = 65"
  "underlying kVarInt = 66"
  "underlying kFloat = 67"
  "underlying kDouble = 68"
  "underlying kDecimal = 69"
  "underlying kFalse = 70"
  "underlying kUInt16Hash = 71"
  "underlying kInt32 = 72"
  "underlying kInt64 = 73"
  "underlying kSystemColumnId = 74"
  "underlying kColumnId = 75"
  "underlying kDoubleDescending = 76"
  "underlying kFloatDescending = 77"
  "underlying kUInt32 = 79"
  "underlying kString = 83"
  "underlying kTrue = 84"
  "underlying kTombstone = 88"
  "underlying kArrayIndex = 91"
  "underlying kUuid = 95"
  "underlying kUuidDescending = 96"
  "underlying kStringDescending = 97"
  "underlying kInt64Descending = 98"
  "underlying kTimestampDescending = 99"
  "underlying kDecimalDescending = 100"
  "underlying kInt32Descending = 101"
  "underlying kVarIntDescending = 102"
  "underlying kUInt32Descending = 103"
  "underlying kTrueDescending = 104"
  "underlying kFalseDescending = 105"
  "underlying kMergeFlags = 107"
  "underlying kTimestamp = 115"
  "underlying kTtl = 116"
  "underlying kUserTimestamp = 117"
  "underlying kWriteId = 119"
  "underlying kTransactionId = 120"
  "underlying kTableId = 121"
  "underlying kObject = 123"
  "underlying kNullDescending = 124"
  "underlying kGroupEndDescending = 125"
  "underlying kHighest = 126"
  "underlying vt_kInvalid = 127"
  "underlying kMaxByte = - 1"
  "underlying (NotEnumerated i) = i"
  by (simp_all add: underlying_def DOCDB_VALUE_TYPES_def)

lemma value_type_char_simps [simp]:
  "value_type_char kLowest = 0"
  "value_type_char kObsoleteIntentPrefix = 10"
  "value_type_char kIntentTypeSet = 13"
  "value_type_char kObsoleteIntentTypeSet = 15"
  "value_type_char kObsoleteIntentType = 20"
  "value_type_char kGroupEnd = 33"
  "value_type_char kHybridTime = 35"
  "value_type_char kNull = 36"
  "value_type_char kCounter = 37"
  "value_type_char kSSForward = 38"
  "value_type_char kSSReverse = 39"
  "value_type_char kRedisSet = 40"
  "value_type_char kRedisList = 41"
  "value_type_char kRedisTS = 43"
  "value_type_char kRedisSortedSet = 44"
  "value_type_char kInetaddress = 45"
  "value_type_char kInetaddressDescending = 46"
  "value_type_char kJsonb = 50"
  "value_type_char kFrozen = 60"
  "value_type_char kFrozenDescending = 62"
  "value_type_char kArray = 65"
  "value_type_char kVarInt = 66"
  "value_type_char kFloat = 67"
  "value_type_char kDouble = 68"
  "value_type_char kDecimal = 69"
  "value_type_char kFalse = 70"
  "value_type_char kUInt16Hash = 71"
  "value_type_char kInt32 = 72"
  "value_type_char kInt64 = 73"
  "value_type_char kSystemColumnId = 74"
  "value_type_char kColumnId = 75"
  "value_type_char kDoubleDescending = 76"
  "value_type_char kFloatDescending = 77"
  "value_type_char kUInt32 = 79"
  "value_type_char kString = 83"
  "value_type_char kTrue = 84"
  "value_type_char kTombstone = 88"
  "value_type_char kArrayIndex = 91"
  "value_type_char kUuid = 95"
  "value_type_char kUuidDescending = 96"
  "value_type_char kStringDescending = 97"
  "value_type_char kInt64Descending = 98"
  "value_type_char kTimestampDescending = 99"
  "value_type_char kDecimalDescending = 100"
  "value_type_char kInt32Descending = 101"
  "value_type_char kVarIntDescending = 102"
  "value_type_char kUInt32Descending = 103"
  "value_type_char kTrueDescending = 104"
  "value_type_char kFalseDescending = 105"
  "value_type_char kMergeFlags = 107"
  "value_type_char kTimestamp = 115"
  "value_type_char kTtl = 116"
  "value_type_char kUserTimestamp = 117"
  "value_type_char kWriteId = 119"
  "value_type_char kTransactionId = 120"
  "value_type_char kTableId = 121"
  "value_type_char kObject = 123"
  "value_type_char kNullDescending = 124"
  "value_type_char kGroupEndDescending = 125"
  "value_type_char kHighest = 126"
  "value_type_char vt_kInvalid = 127"
  "value_type_char kMaxByte = - 1"
  by (simp_all add: value_type_char_def)


lemma enumerated_simps [simp]: "\<not> enumerated (NotEnumerated i)"
  by (simp add: enumerated_def)

lemma underlying_range: "enumerated t \<Longrightarrow> - 1 \<le> underlying t \<and> underlying t \<le> 127"
  by (cases t) simp_all

lemma value_type_cast_underlying: "enumerated t \<Longrightarrow> value_type_cast (underlying t) = t"
  by (cases t) (simp_all add: value_type_cast_def DOCDB_VALUE_TYPES_def)

lemma sint_value_type_char: "enumerated t \<Longrightarrow> sint (value_type_char t) = underlying t"
  using underlying_range [of t] by (cases t) simp_all

lemma value_type_cast_char [simp]:
  "enumerated t \<Longrightarrow> value_type_cast (sint (value_type_char t)) = t"
  by (simp add: sint_value_type_char value_type_cast_underlying)

lemma ConsumeValueType_char [simp]:
  "enumerated t \<Longrightarrow>
   ConsumeValueType (before, value_type_char t # rest) = (t, before @ [value_type_char t], rest)"
  by (simp add: ConsumeValueType_def remove_prefix_def)

lemma value_type_char_less:
  assumes "enumerated a" and "enumerated b" and "a \<noteq> kMaxByte" and "b \<noteq> kMaxByte"
  shows "value_type_char a < value_type_char b \<longleftrightarrow> underlying a < underlying b"
proof -
  have u: "unat (value_type_char t) = nat (underlying t)" if "enumerated t" "t \<noteq> kMaxByte" for t
    using that by (cases t) simp_all
  have "0 \<le> underlying a" using assms(1,3) by (cases a) simp_all
  then show ?thesis using u [of a] u [of b] assms by (auto simp add: word_less_nat_alt)
qed

lemma value_type_char_inj:
  "enumerated a \<Longrightarrow> enumerated b \<Longrightarrow> value_type_char a = value_type_char b \<longleftrightarrow> a = b"
  by (metis value_type_cast_char)

end
