(* ===== verification/Doc_Hybrid_Time.thy ===== *)
theory Doc_Hybrid_Time
  imports Fast_Varint Hybrid_Time
begin

text \<open>
  Document hybrid times (\<^verbatim>\<open>src/src/yb/common/doc_hybrid_time.cc\<close>): a hybrid time with the
  number of a write inside one operation, and its encoding at the end of every DocDB key.

  The encoding is four descending varints, and the low five bits of its last byte hold its
  own length, so that it can also be found from the end of a key. The main results: the
  byte order of encodings is the reverse of the order of document hybrid times, so the
  newest version of a key comes first; decoding from the front and from the end of a key
  returns what was encoded; and an encoding always fits the buffer the code gives it.
\<close>

unbundle bit_operations_syntax

subsection \<open>Model\<close>

record doc_hybrid_time =
  doc_ht :: hybrid_time
  write_id :: u32

definition kMaxWriteId :: u32 where
  "kMaxWriteId = - 1"

definition doc_ht_kInvalid :: doc_hybrid_time where
  "doc_ht_kInvalid = \<lparr>doc_ht = kInvalid, write_id = kMaxWriteId\<rparr>"

definition doc_ht_kMin :: doc_hybrid_time where
  "doc_ht_kMin = \<lparr>doc_ht = kMin, write_id = 0\<rparr>"

definition doc_ht_kMax :: doc_hybrid_time where
  "doc_ht_kMax = \<lparr>doc_ht = kMax, write_id = kMaxWriteId\<rparr>"

definition kMaxBytesPerEncodedHybridTime :: nat where
  "kMaxBytesPerEncodedHybridTime = 30"

definition kYugaByteMicrosecondEpoch :: u64 where
  "kYugaByteMicrosecondEpoch = 1500000000 * 1000000"

definition kNumBitsForHybridTimeSize :: nat where
  "kNumBitsForHybridTimeSize = 5"

definition kHybridTimeSizeMask :: byte where
  "kHybridTimeSizeMask = push_bit kNumBitsForHybridTimeSize 1 - 1"

definition DocHybridTime_CompareTo :: "doc_hybrid_time \<Rightarrow> doc_hybrid_time \<Rightarrow> int" where
  "DocHybridTime_CompareTo a b =
     (let ht_cmp = CompareTo (doc_ht a) (doc_ht b)
      in if ht_cmp \<noteq> 0 then ht_cmp
         else if write_id a < write_id b then - 1
         else if write_id b < write_id a then 1 else 0)"

definition EncodedInDocDbFormat :: "doc_hybrid_time \<Rightarrow> bytes" where
  "EncodedInDocDbFormat t =
     (let out = FastEncodeDescendingSignedVarInt 0
            @ FastEncodeDescendingSignedVarInt
                (GetPhysicalValueMicros (doc_ht t) - kYugaByteMicrosecondEpoch)
            @ FastEncodeDescendingSignedVarInt (ucast (GetLogicalValue (doc_ht t)))
            @ FastEncodeDescendingSignedVarInt
                (push_bit kNumBitsForHybridTimeSize (ucast (write_id t) + 1));
          last_byte = last out;
          encoded_size = of_nat (length out)
      in butlast out @ [(last_byte AND NOT kHybridTimeSizeMask) OR encoded_size])"

definition DocHybridTime_DecodeFrom :: "cursor \<Rightarrow> (doc_hybrid_time \<times> cursor) result" where
  "DocHybridTime_DecodeFrom s =
     (let previous_size = length (snd s)
      in verify_result (FastDecodeDescendingSignedVarInt s) (\<lambda>(_, s).
         verify_result (FastDecodeDescendingSignedVarInt s) (\<lambda>(micros, s).
         let decoded_micros = kYugaByteMicrosecondEpoch + micros
         in verify_result (FastDecodeDescendingSignedVarInt s) (\<lambda>(decoded_logical, s).
         let ht = FromMicrosecondsAndLogicalValue decoded_micros (ucast decoded_logical)
         in verify_result (FastDecodeDescendingSignedVarInt s) (\<lambda>(decoded_shifted_write_id, s).
         if sint decoded_shifted_write_id < 0 then Inl (Status Corruption)
         else
           let w = ucast (drop_bit kNumBitsForHybridTimeSize decoded_shifted_write_id - 1);
               bytes_decoded = previous_size - length (snd s);
               size_at_the_end = unat (last (fst s) AND kHybridTimeSizeMask)
           in if size_at_the_end \<noteq> bytes_decoded then Inl (Status Corruption)
              else Inr (\<lparr>doc_ht = ht, write_id = w\<rparr>, s))))))"

definition FullyDecodeFrom :: "cursor \<Rightarrow> doc_hybrid_time result" where
  "FullyDecodeFrom s =
     verify_result (DocHybridTime_DecodeFrom s)
       (\<lambda>(t, s). if snd s \<noteq> [] then Inl (Status Corruption) else Inr t)"

definition CheckEncodedSize :: "nat \<Rightarrow> nat \<Rightarrow> unit result" where
  "CheckEncodedSize encoded_ht_size encoded_key_size =
     (if encoded_key_size = 0 then Inl (Status RuntimeError)
      else if \<not> encoded_ht_size \<ge> 1 then Inl (Status Corruption)
      else if \<not> encoded_ht_size \<le> kMaxBytesPerEncodedHybridTime then Inl (Status Corruption)
      else if \<not> encoded_ht_size < encoded_key_size then Inl (Status Corruption)
      else Inr ())"

definition GetEncodedSize :: "bytes \<Rightarrow> nat" where
  "GetEncodedSize encoded_key =
     (if encoded_key = [] then 0 else unat (last encoded_key AND kHybridTimeSizeMask))"

definition CheckAndGetEncodedSize :: "bytes \<Rightarrow> nat result" where
  "CheckAndGetEncodedSize encoded_key =
     (let encoded_ht_size = GetEncodedSize encoded_key
      in verify_result (CheckEncodedSize encoded_ht_size (length encoded_key))
           (\<lambda>_. Inr encoded_ht_size))"

text \<open>Decoding from the end of a key; the second result is the key without the encoding.\<close>

definition DocHybridTime_DecodeFromEnd :: "cursor \<Rightarrow> (doc_hybrid_time \<times> bytes) result" where
  "DocHybridTime_DecodeFromEnd key =
     verify_result (CheckAndGetEncodedSize (snd key)) (\<lambda>encoded_size.
       let s = remove_prefix (length (snd key) - encoded_size) key
       in verify_result (FullyDecodeFrom s) (\<lambda>t.
            Inr (t, take (length (snd key) - encoded_size) (snd key))))"

subsection \<open>The four numbers\<close>

text \<open>
  The length stored in the last byte only changes the bits that the shifted write id leaves
  free: the encoding is that of a write id number with the complement of the length in its
  low bits.
\<close>

lemma descending_eq: "FastEncodeDescendingSignedVarInt v = FastEncodeSignedVarInt (- v)"
  by (simp add: FastEncodeDescendingSignedVarInt_def)

lemma SignedPositiveVarIntLength_unique:
  assumes "1 \<le> n" and "unat u < 2 ^ (7 * n - 1)" and "n \<noteq> 1 \<Longrightarrow> 2 ^ (7 * n - 8) \<le> unat u"
  shows "SignedPositiveVarIntLength u = n"
proof -
  let ?m = "SignedPositiveVarIntLength u"
  note b = SignedPositiveVarIntLength_bounds [of u]
  have "\<not> ?m < n"
  proof
    assume "?m < n"
    then have "(2::nat) ^ (7 * ?m - 1) \<le> 2 ^ (7 * n - 8)" by (intro power_increasing) auto
    then show False using b(1,3) assms(3) \<open>?m < n\<close> by linarith
  qed
  moreover have "\<not> n < ?m"
  proof
    assume "n < ?m"
    then have "(2::nat) ^ (7 * n - 1) \<le> 2 ^ (7 * ?m - 8)" by (intro power_increasing) auto
    then show False using b(4) assms(1,2) \<open>n < ?m\<close> by linarith
  qed
  ultimately show ?thesis by simp
qed

lemma dvd_gap: "(d::nat) dvd a \<Longrightarrow> d dvd b \<Longrightarrow> a < b \<Longrightarrow> a + d \<le> b"
  by (metis add_le_cancel_left dvd_diff_nat dvd_imp_le le_add_diff_inverse less_imp_le zero_less_diff)

lemma length_low_bits:
  assumes "32 dvd unat m" and "unat (m + r) = unat m + unat r" and "unat r < 32"
  shows "SignedPositiveVarIntLength (m + r) = SignedPositiveVarIntLength m"
proof -
  let ?n = "SignedPositiveVarIntLength m"
  note b = SignedPositiveVarIntLength_bounds [of m]
  have "(2::nat) ^ 5 dvd 2 ^ (7 * ?n - 1)" using b(1) by (intro le_imp_power_dvd) simp
  then have "unat m + 32 \<le> 2 ^ (7 * ?n - 1)" using b(3) assms(1) by (intro dvd_gap) simp_all
  then show ?thesis
    using b assms by (intro SignedPositiveVarIntLength_unique) simp_all
qed

lemma split_mask: "(l AND NOT m) + (l AND m) = l" for l m :: "'a::len word"
proof -
  have "(l AND NOT m) + (l AND m) = (l AND NOT m) OR (l AND m)"
    by (rule disjunctive_add) (auto simp: bit_simps)
  also have "\<dots> = l" by (rule bit_eqI) (auto simp: bit_simps)
  finally show ?thesis .
qed

lemma set_mask_read: "k AND m = k \<Longrightarrow> ((l AND NOT m) OR k) AND m = k" for k l m :: "'a::len word"
  by (simp add: bit_eq_iff bit_simps) blast

lemma set_mask_plus: "k AND m = k \<Longrightarrow> (l AND NOT m) OR k = (l AND NOT m) + k"
  for k l m :: "'a::len word"
  by (rule disjunctive_add [symmetric]) (auto simp: bit_eq_iff bit_simps)

lemma unat_set_low_bits:
  assumes "unat l mod 32 = 31" and "k < 32"
  shows "unat ((l AND NOT kHybridTimeSizeMask) OR of_nat k :: byte) = unat l - 31 + k"
    and "((l AND NOT kHybridTimeSizeMask) OR of_nat k) AND kHybridTimeSizeMask = of_nat k"
proof -
  let ?m = kHybridTimeSizeMask and ?k = "of_nat k :: byte"
  have and_m: "unat (x AND ?m) = unat x mod 32" for x
    using unat_and_mask [of x 5]
    by (simp add: kHybridTimeSizeMask_def kNumBitsForHybridTimeSize_def mask_eq_exp_minus_1)
  have k: "unat ?k = k" using assms(2) by (simp add: unat_of_nat)
  have km: "?k AND ?m = ?k" using and_m [of ?k] k assms(2) by (simp add: word_unat_eq_iff)
  have "unat (l AND ?m) = 31" using assms(1) and_m by simp
  then have lm: "l AND ?m = 31" by (simp add: word_unat_eq_iff)
  have h: "l AND NOT ?m = l - 31" using split_mask [of l ?m] unfolding lm by (simp add: eq_diff_eq)
  have le: "31 \<le> unat l" using assms(1) by (metis mod_less_eq_dividend)
  then have "unat (l AND NOT ?m) = unat l - 31"
    unfolding h by (simp add: unat_sub word_le_nat_alt)
  then show "unat ((l AND NOT ?m) OR ?k) = unat l - 31 + k"
    unfolding set_mask_plus [OF km] using k le assms(2) unat_byte_less [of l]
    by (simp add: unat_word_ariths)
  show "((l AND NOT ?m) OR ?k) AND ?m = ?k" by (rule set_mask_read [OF km])
qed

lemma size_in_last_byte:
  assumes dvd: "32 dvd unat m" and no_wrap: "unat m + 31 < 2 ^ 63" and pos: "0 < unat m"
    and k: "k < 32"
  defines "e \<equiv> FastEncodeDescendingSignedVarInt m"
  shows "butlast e @ [(last e AND NOT kHybridTimeSizeMask) OR of_nat k]
      = FastEncodeDescendingSignedVarInt (m + of_nat (31 - k))"
    and "e \<noteq> []"
    and "((last e AND NOT kHybridTimeSizeMask) OR of_nat k) AND kHybridTimeSizeMask = of_nat k"
proof -
  let ?r = "of_nat (31 - k) :: u64"
  have r: "unat ?r = 31 - k" by (simp add: unat_of_nat)
  have mr: "unat (m + ?r) = unat m + (31 - k)"
    using no_wrap r by (simp add: unat_word_ariths)
  have neg: "sint (- x) < 0" if "0 < unat x" "unat x < 2 ^ 63" for x :: u64
    using that by (simp add: sint_uminus del: of_nat_unat)
  let ?bs = "encode_magnitude m" and ?cs = "encode_magnitude (m + ?r)"
  have e: "e = map (\<lambda>b. NOT b) ?bs"
    using neg [of m] pos no_wrap by (simp add: e_def descending_eq FastEncodeSignedVarInt_neg)
  have e': "FastEncodeDescendingSignedVarInt (m + ?r) = map (\<lambda>b. NOT b) ?cs"
  proof -
    have "sint (- (m + ?r)) < 0" using mr pos no_wrap by (intro neg) simp_all
    from FastEncodeSignedVarInt_neg [OF this] show ?thesis by (simp only: descending_eq minus_minus)
  qed
  let ?n = "SignedPositiveVarIntLength m"
  have n: "SignedPositiveVarIntLength (m + ?r) = ?n"
    using dvd mr r by (intro length_low_bits) simp_all
  note vb = encode_magnitude_value [of m] and vc = encode_magnitude_value [of "m + ?r", unfolded n]
  have n1: "1 \<le> ?n" by (rule SignedPositiveVarIntLength_bounds)
  show ne: "e \<noteq> []" using e vb(1) n1 by auto
  then obtain i l where il: "e = i @ [l]" by (metis append_butlast_last_id)
  have len: "length e = ?n" using e vb(1) by simp
  have "(2::nat) ^ 5 dvd 2 ^ (7 * ?n)" "(2::nat) ^ 5 dvd 2 ^ (8 * ?n)"
    by (rule le_imp_power_dvd, use n1 in simp)+
  then have d32: "32 dvd be_val ?bs"
    using dvd vb(2) by (simp add: power_256 dvd_add dvd_diff_nat)
  have sum: "be_val e + be_val ?bs + 1 = 256 ^ ?n"
    using be_val_map_NOT [of ?bs] vb(1) by (simp add: e)
  have ev: "be_val e = be_val i * 256 + unat l" by (simp add: il be_val_append)
  have d256: "32 dvd (256::nat) ^ ?n" using \<open>2 ^ 5 dvd 2 ^ (8 * ?n)\<close> by (simp add: power_256)
  obtain x y where xy: "be_val ?bs = 32 * x" "256 ^ ?n = 32 * (y :: nat)"
    using d32 d256 by (auto elim!: dvdE)
  have "Suc (unat l) + 32 * (8 * be_val i + x) = 32 * y" using sum ev xy by simp
  then have "Suc (unat l) mod 32 = 0" by (metis mod_mult_self1_is_0 mod_mult_self2)
  then have l31: "unat l mod 32 = 31" by (simp add: mod_Suc split: if_splits)
  note low = unat_set_low_bits [OF l31 k]
  have ll: "butlast e = i" "last e = l" by (simp_all add: il)
  show "((last e AND NOT kHybridTimeSizeMask) OR of_nat k) AND kHybridTimeSizeMask = of_nat k"
    using low(2) by (simp add: ll)
  let ?new = "i @ [(l AND NOT kHybridTimeSizeMask) OR of_nat k]"
  have "31 \<le> unat l" using l31 by (metis mod_less_eq_dividend)
  then have "be_val ?new + 31 = be_val e + k" using low(1) ev by (simp add: be_val_append)
  moreover have "be_val ?cs = be_val ?bs + (31 - k)" using vb(2) vc(2) mr by simp
  moreover have "be_val (map (\<lambda>b. NOT b) ?cs) + be_val ?cs + 1 = 256 ^ ?n"
    using be_val_map_NOT [of ?cs] vc(1) by simp
  ultimately have "be_val ?new = be_val (map (\<lambda>b. NOT b) ?cs)" using sum k by linarith
  moreover have "length ?new = length (map (\<lambda>b. NOT b) ?cs)" using vc(1) len il by simp
  ultimately show "butlast e @ [(last e AND NOT kHybridTimeSizeMask) OR of_nat k]
      = FastEncodeDescendingSignedVarInt (m + ?r)"
    unfolding ll e' by (intro be_val_inj)
qed

subsection \<open>The encoding as four numbers\<close>

definition ht_micros :: "doc_hybrid_time \<Rightarrow> u64" where
  "ht_micros t = GetPhysicalValueMicros (doc_ht t) - kYugaByteMicrosecondEpoch"

definition ht_logical :: "doc_hybrid_time \<Rightarrow> u64" where
  "ht_logical t = ucast (GetLogicalValue (doc_ht t))"

definition ht_shifted :: "doc_hybrid_time \<Rightarrow> u64" where
  "ht_shifted t = push_bit kNumBitsForHybridTimeSize (ucast (write_id t) + 1)"

definition ht_size :: "doc_hybrid_time \<Rightarrow> nat" where
  "ht_size t = length (FastEncodeDescendingSignedVarInt 0)
     + length (FastEncodeDescendingSignedVarInt (ht_micros t))
     + length (FastEncodeDescendingSignedVarInt (ht_logical t))
     + length (FastEncodeDescendingSignedVarInt (ht_shifted t))"

lemma unat_ht_shifted: "unat (ht_shifted t) = 32 * (unat (write_id t) + 1)"
proof -
  have w: "unat (write_id t) < 2 ^ 32" using unsigned_less [of "write_id t"] by simp
  then have "unat (ucast (write_id t) + 1 :: u64) = unat (write_id t) + 1"
    by (simp add: unat_word_ariths unat_ucast)
  then show ?thesis
    using w unfolding ht_shifted_def kNumBitsForHybridTimeSize_def unat_push_bit by simp
qed

lemma unat_ht_shifted_bounds: "0 < unat (ht_shifted t)" "unat (ht_shifted t) \<le> 2 ^ 37"
  "32 dvd unat (ht_shifted t)"
proof -
  have "unat (write_id t) < 2 ^ 32" using unsigned_less [of "write_id t"] by simp
  then show "0 < unat (ht_shifted t)" "unat (ht_shifted t) \<le> 2 ^ 37" "32 dvd unat (ht_shifted t)"
    by (simp_all add: unat_ht_shifted)
qed

lemma unat_ht_logical: "unat (ht_logical t) = unat (GetLogicalValue (doc_ht t))"
  using unat_logical_bound [of "doc_ht t"] by (simp add: ht_logical_def unat_ucast)

lemma sint_of_int_small: "- (2 ^ 63) \<le> k \<Longrightarrow> k < 2 ^ 63 \<Longrightarrow> sint (word_of_int k :: u64) = k"
  using signed_take_bit_int_eq_self [of 63 k] by (simp add: sint_sbintrunc')

lemma sint_ht_micros:
  "sint (- ht_micros t) = 1500000000000000 - int (unat (GetPhysicalValueMicros (doc_ht t)))"
proof -
  let ?p = "GetPhysicalValueMicros (doc_ht t)"
  have "unat ?p < 2 ^ 52" by (rule unat_physical_bound)
  then have "uint ?p < 2 ^ 52" by (metis of_nat_less_iff of_nat_numeral of_nat_power of_nat_unat)
  moreover have "0 \<le> uint ?p" "(2::int) ^ 52 = 4503599627370496" "(2::int) ^ 63 = 9223372036854775808"
    by simp_all
  ultimately have "sint (word_of_int (1500000000000000 - uint ?p) :: u64) = 1500000000000000 - uint ?p"
    by (intro sint_of_int_small) linarith+
  moreover have "- ht_micros t = word_of_int (1500000000000000 - uint ?p)"
    by (simp add: ht_micros_def kYugaByteMicrosecondEpoch_def)
  ultimately show ?thesis by simp
qed

lemma length_signed_le:
  assumes "\<bar>sint v\<bar> < 2 ^ (7 * k - 1)" and "1 \<le> k"
  shows "length (FastEncodeSignedVarInt v) \<le> k"
proof -
  have len: "SignedPositiveVarIntLength u \<le> k" if "unat u < 2 ^ (7 * k - 1)" for u
  proof (rule ccontr)
    assume "\<not> SignedPositiveVarIntLength u \<le> k"
    then have "(2::nat) ^ (7 * k - 1) \<le> 2 ^ (7 * SignedPositiveVarIntLength u - 8)"
      by (intro power_increasing) auto
    then show False
      using that assms(2) SignedPositiveVarIntLength_bounds(4) [of u] \<open>\<not> _ \<le> k\<close> by linarith
  qed
  have nat: "n < 2 ^ (7 * k - 1)" if "int n < 2 ^ (7 * k - 1)" for n
    using that by (metis of_nat_less_iff of_nat_numeral of_nat_power)
  show ?thesis
  proof (cases "sint v < 0")
    case True
    then have "int (unat (- v)) < 2 ^ (7 * k - 1)" using sint_cases [of v] assms(1) by linarith
    from len [OF nat [OF this]] show ?thesis
      using True by (simp add: FastEncodeSignedVarInt_neg encode_magnitude_value(1))
  next
    case False
    then have "int (unat v) < 2 ^ (7 * k - 1)" using sint_cases [of v] assms(1) by linarith
    from len [OF nat [OF this]] show ?thesis
      using False by (simp add: FastEncodeSignedVarInt_nonneg encode_magnitude_value(1))
  qed
qed

lemma ht_size_bounds: "4 \<le> ht_size t" "ht_size t \<le> 17"
proof -
  have "length (FastEncodeSignedVarInt (- 0)) \<le> 1" by (rule length_signed_le) simp_all
  moreover have "length (FastEncodeSignedVarInt (- ht_micros t)) \<le> 8"
  proof (rule length_signed_le)
    define n where "n = unat (GetPhysicalValueMicros (doc_ht t))"
    have "n < 2 ^ 52" unfolding n_def by (rule unat_physical_bound)
    then show "\<bar>sint (- ht_micros t)\<bar> < 2 ^ (7 * 8 - 1)"
      unfolding sint_ht_micros n_def [symmetric] by simp
  qed simp
  moreover have "length (FastEncodeSignedVarInt (- ht_logical t)) \<le> 2"
  proof (rule length_signed_le)
    define n where "n = unat (ht_logical t)"
    have "n < 4096" unfolding n_def unat_ht_logical by (rule unat_logical_bound)
    then show "\<bar>sint (- ht_logical t)\<bar> < 2 ^ (7 * 2 - 1)"
      using sint_uminus [of "ht_logical t"] unfolding n_def [symmetric] by simp
  qed simp
  moreover have "length (FastEncodeSignedVarInt (- ht_shifted t)) \<le> 6"
  proof (rule length_signed_le)
    define n where "n = unat (ht_shifted t)"
    have "n \<le> 2 ^ 37" unfolding n_def by (rule unat_ht_shifted_bounds)
    then show "\<bar>sint (- ht_shifted t)\<bar> < 2 ^ (7 * 6 - 1)"
      using sint_uminus [of "ht_shifted t"] unfolding n_def [symmetric] by simp
  qed simp
  ultimately show "ht_size t \<le> 17" by (simp add: ht_size_def descending_eq)
  show "4 \<le> ht_size t"
    using length_FastEncodeSignedVarInt(1) [of "- 0"] length_FastEncodeSignedVarInt(1) [of "- ht_micros t"]
      length_FastEncodeSignedVarInt(1) [of "- ht_logical t"] length_FastEncodeSignedVarInt(1) [of "- ht_shifted t"]
    by (simp add: ht_size_def descending_eq)
qed

definition ht_last :: "doc_hybrid_time \<Rightarrow> u64" where
  "ht_last t = ht_shifted t + of_nat (31 - ht_size t)"

lemma unat_ht_last: "unat (ht_last t) = 32 * (unat (write_id t) + 1) + (31 - ht_size t)"
  "unat (ht_last t) < 2 ^ 63"
proof -
  have "unat (of_nat (31 - ht_size t) :: u64) = 31 - ht_size t" by (simp add: unat_of_nat)
  then have "unat (ht_last t) = unat (ht_shifted t) + (31 - ht_size t)"
    using unat_ht_shifted_bounds(2) [of t] unfolding ht_last_def by (simp add: unat_word_ariths)
  then show "unat (ht_last t) = 32 * (unat (write_id t) + 1) + (31 - ht_size t)"
    "unat (ht_last t) < 2 ^ 63"
    using unat_ht_shifted_bounds(2) [of t] by (simp_all add: unat_ht_shifted)
qed

lemma EncodedInDocDbFormat_eq:
  "EncodedInDocDbFormat t = FastEncodeDescendingSignedVarInt 0
     @ FastEncodeDescendingSignedVarInt (ht_micros t)
     @ FastEncodeDescendingSignedVarInt (ht_logical t)
     @ FastEncodeDescendingSignedVarInt (ht_last t)"
  and last_EncodedInDocDbFormat:
    "unat (last (EncodedInDocDbFormat t) AND kHybridTimeSizeMask) = ht_size t"
  and length_EncodedInDocDbFormat: "length (EncodedInDocDbFormat t) = ht_size t"
proof -
  let ?e = "FastEncodeDescendingSignedVarInt (ht_shifted t)"
  let ?p = "FastEncodeDescendingSignedVarInt 0 @ FastEncodeDescendingSignedVarInt (ht_micros t)
    @ FastEncodeDescendingSignedVarInt (ht_logical t)"
  let ?b = "(last ?e AND NOT kHybridTimeSizeMask) OR of_nat (ht_size t)"
  have k: "ht_size t < 32" using ht_size_bounds(2) [of t] by simp
  have "unat (ht_shifted t) + 31 < 2 ^ 63" using unat_ht_shifted_bounds(2) [of t] by simp
  note l = size_in_last_byte [OF unat_ht_shifted_bounds(3) this unat_ht_shifted_bounds(1) k]
  have e: "EncodedInDocDbFormat t = ?p @ butlast ?e @ [?b]"
    using l(2) by (simp add: EncodedInDocDbFormat_def Let_def ht_size_def butlast_append add.assoc
        flip: ht_micros_def ht_logical_def ht_shifted_def)
  then show eq: "EncodedInDocDbFormat t = FastEncodeDescendingSignedVarInt 0
     @ FastEncodeDescendingSignedVarInt (ht_micros t)
     @ FastEncodeDescendingSignedVarInt (ht_logical t)
     @ FastEncodeDescendingSignedVarInt (ht_last t)"
    using l(1) by (simp add: ht_last_def)
  have "unat (of_nat (ht_size t) :: byte) = ht_size t" using k by (simp add: unat_of_nat)
  then show "unat (last (EncodedInDocDbFormat t) AND kHybridTimeSizeMask) = ht_size t"
    using l(3) by (simp add: e)
  have "length (butlast ?e @ [?b]) = length ?e" using l(2) by simp
  then show "length (EncodedInDocDbFormat t) = ht_size t" unfolding e by (simp add: ht_size_def)
qed

subsection \<open>Decoding\<close>

lemma DocHybridTime_DecodeFrom_encoded:
  "DocHybridTime_DecodeFrom (before, EncodedInDocDbFormat t @ rest)
     = Inr (t, before @ EncodedInDocDbFormat t, rest)"
proof -
  have micros: "kYugaByteMicrosecondEpoch + ht_micros t = GetPhysicalValueMicros (doc_ht t)"
    by (simp add: ht_micros_def)
  have logical: "ucast (ht_logical t) = GetLogicalValue (doc_ht t)"
    using unat_logical_bound [of "doc_ht t"]
    by (intro word_unat_eq_iff [THEN iffD2]) (simp add: unat_ucast unat_ht_logical)
  have pos: "\<not> sint (ht_last t) < 0" using sint_small [OF unat_ht_last(2)] by simp
  have w: "ucast (drop_bit kNumBitsForHybridTimeSize (ht_last t) - 1) = write_id t"
  proof -
    have "unat (drop_bit kNumBitsForHybridTimeSize (ht_last t)) = unat (write_id t) + 1"
      unfolding kNumBitsForHybridTimeSize_def unat_drop_bit unat_ht_last by simp
    then have "unat (drop_bit kNumBitsForHybridTimeSize (ht_last t) - 1) = unat (write_id t)"
      by (subst unat_minus_one) (auto simp: unat_gt_0)
    moreover have "unat (write_id t) < 2 ^ 32" using unsigned_less [of "write_id t"] by simp
    ultimately show ?thesis
      by (intro word_unat_eq_iff [THEN iffD2]) (simp add: unat_ucast)
  qed
  have last: "unat (last (FastEncodeDescendingSignedVarInt (ht_last t)) AND kHybridTimeSizeMask) = ht_size t"
    "FastEncodeDescendingSignedVarInt (ht_last t) \<noteq> []"
  proof -
    show ne: "FastEncodeDescendingSignedVarInt (ht_last t) \<noteq> []"
      using length_FastEncodeSignedVarInt(1) [of "- ht_last t"] by (auto simp: descending_eq)
    then show "unat (last (FastEncodeDescendingSignedVarInt (ht_last t)) AND kHybridTimeSizeMask) = ht_size t"
      using last_EncodedInDocDbFormat [of t] by (simp add: EncodedInDocDbFormat_eq)
  qed
  have size: "length (FastEncodeDescendingSignedVarInt 0)
      + (length (FastEncodeDescendingSignedVarInt (ht_micros t))
      + (length (FastEncodeDescendingSignedVarInt (ht_logical t))
      + length (FastEncodeDescendingSignedVarInt (ht_last t)))) = ht_size t"
    using length_EncodedInDocDbFormat [of t] by (simp add: EncodedInDocDbFormat_eq)
  show ?thesis
    using pos last size
    by (simp add: DocHybridTime_DecodeFrom_def EncodedInDocDbFormat_eq Let_def micros logical w
        From_components)
qed

lemma FullyDecodeFrom_encoded: "FullyDecodeFrom (before, EncodedInDocDbFormat t) = Inr t"
  using DocHybridTime_DecodeFrom_encoded [of before t "[]"] by (simp add: FullyDecodeFrom_def)

lemma CheckAndGetEncodedSize_encoded:
  assumes "key \<noteq> []"
  shows "CheckAndGetEncodedSize (key @ EncodedInDocDbFormat t) = Inr (ht_size t)"
proof -
  have "EncodedInDocDbFormat t \<noteq> []"
    using length_EncodedInDocDbFormat [of t] ht_size_bounds(1) [of t] by auto
  then have "GetEncodedSize (key @ EncodedInDocDbFormat t) = ht_size t"
    by (simp add: GetEncodedSize_def last_EncodedInDocDbFormat)
  then show ?thesis
    using assms ht_size_bounds [of t]
    by (simp add: CheckAndGetEncodedSize_def CheckEncodedSize_def kMaxBytesPerEncodedHybridTime_def
        length_EncodedInDocDbFormat Let_def)
qed

lemma DocHybridTime_DecodeFromEnd_encoded:
  assumes "key \<noteq> []"
  shows "DocHybridTime_DecodeFromEnd (before, key @ EncodedInDocDbFormat t) = Inr (t, key)"
  using CheckAndGetEncodedSize_encoded [OF assms, of t] FullyDecodeFrom_encoded [of "before @ key" t]
    length_EncodedInDocDbFormat [of t]
  by (simp add: DocHybridTime_DecodeFromEnd_def Let_def remove_prefix_def)

subsection \<open>Order\<close>

lemma descending_prec:
  "sint (- w) < sint (- v) \<Longrightarrow>
   bytes_prec (FastEncodeDescendingSignedVarInt w) (FastEncodeDescendingSignedVarInt v)"
  unfolding descending_eq by (rule FastEncodeSignedVarInt_prec)

lemma EncodedInDocDbFormat_prec:
  assumes "DocHybridTime_CompareTo a b > 0"
  shows "bytes_prec (EncodedInDocDbFormat a) (EncodedInDocDbFormat b)"
proof -
  let ?p = "\<lambda>t. unat (GetPhysicalValueMicros (doc_ht t))"
  let ?l = "\<lambda>t. unat (GetLogicalValue (doc_ht t))" and ?w = "\<lambda>t. unat (write_id t)"
  have "unat (doc_ht b) < unat (doc_ht a) \<or> doc_ht a = doc_ht b \<and> ?w b < ?w a"
    using assms unfolding DocHybridTime_CompareTo_def CompareTo_def Let_def
    by (auto simp flip: word_less_nat_alt split: if_splits)
  moreover have "?p b < ?p a \<or> ?p b = ?p a \<and> ?l b < ?l a" if "unat (doc_ht b) < unat (doc_ht a)"
    using that less_iff_div_mod [of 4096 "unat (doc_ht b)" "unat (doc_ht a)"]
    by (simp add: unat_GetPhysicalValueMicros unat_GetLogicalValue)
  ultimately consider "?p b < ?p a" | "ht_micros b = ht_micros a" "?l b < ?l a"
    | "doc_ht a = doc_ht b" "?w b < ?w a"
    by (metis ht_micros_def word_unat_eq_iff)
  then show ?thesis
  proof cases
    case 1
    then have "sint (- ht_micros a) < sint (- ht_micros b)" unfolding sint_ht_micros by linarith
    then show ?thesis
      unfolding EncodedInDocDbFormat_eq by (simp add: bytes_prec_append descending_prec)
  next
    case 2
    have l: "sint (- ht_logical t) = - int (?l t)" for t
      using sint_uminus [of "ht_logical t"] unat_logical_bound [of "doc_ht t"]
      by (simp add: unat_ht_logical)
    have "sint (- ht_logical a) < sint (- ht_logical b)" using 2(2) unfolding l by linarith
    then show ?thesis
      using 2(1) unfolding EncodedInDocDbFormat_eq by (simp add: bytes_prec_append descending_prec)
  next
    case 3
    have "unat (ht_last b) < unat (ht_last a)" using 3(2) by (simp add: unat_ht_last(1))
    then have "sint (- ht_last a) < sint (- ht_last b)"
      unfolding sint_uminus [OF unat_ht_last(2)] by linarith
    moreover have "ht_micros a = ht_micros b" "ht_logical a = ht_logical b"
      using 3(1) by (simp_all add: ht_micros_def ht_logical_def)
    ultimately show ?thesis
      unfolding EncodedInDocDbFormat_eq by (simp add: bytes_prec_append descending_prec)
  qed
qed

lemma DocHybridTime_CompareTo_antisym:
  "a \<noteq> b \<Longrightarrow> DocHybridTime_CompareTo a b \<le> 0 \<Longrightarrow> DocHybridTime_CompareTo b a > 0"
  by (cases a; cases b)
    (auto simp: DocHybridTime_CompareTo_def CompareTo_def Let_def split: if_splits)

lemma EncodedInDocDbFormat_order:
  assumes "a \<noteq> b"
  shows "bytes_less (EncodedInDocDbFormat a @ x) (EncodedInDocDbFormat b @ y)
    \<longleftrightarrow> DocHybridTime_CompareTo a b > 0"
proof (cases "DocHybridTime_CompareTo a b > 0")
  case True
  from bytes_prec_less [OF bytes_prec_append [OF EncodedInDocDbFormat_prec [OF this]]]
  show ?thesis using True by simp
next
  case False
  then have "DocHybridTime_CompareTo b a > 0"
    using assms DocHybridTime_CompareTo_antisym by simp
  from bytes_prec_less [OF bytes_prec_append [OF EncodedInDocDbFormat_prec [OF this]]]
  show ?thesis using False bytes_less_trans bytes_less_irrefl by meson
qed

subsection \<open>Properties\<close>

text \<open>
  C11: encoded document hybrid times sort in descending order, whatever follows them: of two
  versions of a key, the one with the later hybrid time, or the same hybrid time and the
  larger write id, comes first.
\<close>

theorem doc_hybrid_time_order_descending:
  assumes "a \<noteq> b"
  shows "slice_compare (EncodedInDocDbFormat a @ x) (EncodedInDocDbFormat b @ y) < 0
    \<longleftrightarrow> DocHybridTime_CompareTo a b > 0"
  using EncodedInDocDbFormat_order [OF assms] by (simp add: slice_compare_less_iff)

theorem doc_hybrid_time_order_descending_witness:
  "slice_compare (EncodedInDocDbFormat \<lparr>doc_ht = 5, write_id = 9\<rparr> @ [1])
     (EncodedInDocDbFormat \<lparr>doc_ht = 5, write_id = 7\<rparr> @ []) < 0"
  using doc_hybrid_time_order_descending
    [of "\<lparr>doc_ht = 5, write_id = 9\<rparr>" "\<lparr>doc_ht = 5, write_id = 7\<rparr>" "[1]" "[]"]
  by (simp add: DocHybridTime_CompareTo_def CompareTo_def)

text \<open>
  C12: decoding an encoded document hybrid time from the front of a slice returns it and
  leaves what follows; decoding it from the end of a key returns it and the key without it.
\<close>

theorem doc_hybrid_time_roundtrip:
  "DocHybridTime_DecodeFrom (before, EncodedInDocDbFormat t @ rest)
     = Inr (t, before @ EncodedInDocDbFormat t, rest)
   \<and> (key \<noteq> [] \<longrightarrow>
      DocHybridTime_DecodeFromEnd (before, key @ EncodedInDocDbFormat t) = Inr (t, key))"
  using DocHybridTime_DecodeFrom_encoded DocHybridTime_DecodeFromEnd_encoded by blast

theorem doc_hybrid_time_roundtrip_witness:
  "DocHybridTime_DecodeFrom ([0], EncodedInDocDbFormat \<lparr>doc_ht = 77, write_id = 3\<rparr> @ [4])
     = Inr (\<lparr>doc_ht = 77, write_id = 3\<rparr>,
         [0] @ EncodedInDocDbFormat \<lparr>doc_ht = 77, write_id = 3\<rparr>, [4])
   \<and> DocHybridTime_DecodeFromEnd ([0], [8] @ EncodedInDocDbFormat \<lparr>doc_ht = 77, write_id = 3\<rparr>)
     = Inr (\<lparr>doc_ht = 77, write_id = 3\<rparr>, [8])"
  using doc_hybrid_time_roundtrip [of "[0]" "\<lparr>doc_ht = 77, write_id = 3\<rparr>" "[4]" "[8]"] by simp

text \<open>
  C33: an encoding has between 4 and 17 bytes, so it always fits the buffer of
  \<^verbatim>\<open>kMaxBytesPerEncodedHybridTime\<close> bytes and its length fits the five bits kept for it.
\<close>

theorem doc_hybrid_time_encoding_bounds:
  "4 \<le> length (EncodedInDocDbFormat t) \<and> length (EncodedInDocDbFormat t) \<le> 17
   \<and> 17 \<le> kMaxBytesPerEncodedHybridTime
   \<and> GetEncodedSize (key @ EncodedInDocDbFormat t) = length (EncodedInDocDbFormat t)"
proof -
  have "EncodedInDocDbFormat t \<noteq> []"
    using length_EncodedInDocDbFormat [of t] ht_size_bounds(1) [of t] by auto
  then show ?thesis
    using ht_size_bounds [of t]
    by (simp add: GetEncodedSize_def last_EncodedInDocDbFormat length_EncodedInDocDbFormat
        kMaxBytesPerEncodedHybridTime_def)
qed

end
