(* ===== verification/Kv_Util.thy ===== *)
theory Kv_Util
  imports Value_Type Doc_Hybrid_Time
begin

text \<open>
  The pieces that DocDB keys are made of: numbers
  (\<^verbatim>\<open>src/src/yb/util/kv_util.h\<close>, \<^verbatim>\<open>src/src/yb/docdb/doc_kv_util.h\<close>) and strings
  (\<^verbatim>\<open>src/src/yb/docdb/doc_kv_util.cc\<close>), stored so that the bytewise order of the keys is
  the order of the values.

  Signed integers are words read with \<open>sint\<close>. A \<^verbatim>\<open>float\<close> or \<^verbatim>\<open>double\<close> is its IEEE 754 bit
  pattern, which is what the code itself stores; \<open>float_less\<close> and \<open>double_less\<close> are the
  \<^verbatim>\<open><\<close> of the language on these patterns. A function that appends to a string takes the
  string and returns the longer one. Where the code passes a null pointer for a decoded
  string it is not interested in, the model drops the string.
\<close>

unbundle bit_operations_syntax

subsection \<open>Numbers\<close>

text \<open>\<^verbatim>\<open>BigEndian::Store16\<close> to \<^verbatim>\<open>BigEndian::Load64\<close> of \<^verbatim>\<open>gutil/endian.h\<close>.\<close>

definition Store16 :: "u16 \<Rightarrow> bytes" where
  "Store16 v = be_bytes 2 (unat v)"

definition Store32 :: "u32 \<Rightarrow> bytes" where
  "Store32 v = be_bytes 4 (unat v)"

definition Store64 :: "u64 \<Rightarrow> bytes" where
  "Store64 v = be_bytes 8 (unat v)"

definition Load16 :: "bytes \<Rightarrow> u16" where
  "Load16 p = of_nat (be_val (take 2 p))"

definition Load32 :: "bytes \<Rightarrow> u32" where
  "Load32 p = of_nat (be_val (take 4 p))"

definition Load64 :: "bytes \<Rightarrow> u64" where
  "Load64 p = of_nat (be_val (take 8 p))"

definition kInt64SignBitFlipMask :: u64 where
  "kInt64SignBitFlipMask = 0x8000000000000000"

definition kInt32SignBitFlipMask :: u32 where
  "kInt32SignBitFlipMask = 0x80000000"

definition AppendInt32ToKey :: "u32 \<Rightarrow> bytes \<Rightarrow> bytes" where
  "AppendInt32ToKey val dest = dest @ Store32 (val XOR kInt32SignBitFlipMask)"

definition AppendBigEndianUInt32 :: "u32 \<Rightarrow> bytes \<Rightarrow> bytes" where
  "AppendBigEndianUInt32 u dest = dest @ Store32 u"

definition AppendFloatToKey :: "u32 \<Rightarrow> bytes \<Rightarrow> bool \<Rightarrow> bytes" where
  "AppendFloatToKey val dest descending =
     (let v = val;
          v = (if drop_bit 31 v \<noteq> 0 then NOT v else v XOR kInt32SignBitFlipMask);
          v = (if descending then NOT v else v)
      in dest @ Store32 v)"

definition AppendDoubleToKey :: "u64 \<Rightarrow> bytes \<Rightarrow> bool \<Rightarrow> bytes" where
  "AppendDoubleToKey val dest descending =
     (let v = val;
          v = (if drop_bit 63 v \<noteq> 0 then NOT v else v XOR kInt64SignBitFlipMask);
          v = (if descending then NOT v else v)
      in dest @ Store64 v)"

definition DecodeInt32FromKey :: "bytes \<Rightarrow> u64" where
  "DecodeInt32FromKey sl = ucast (Load32 sl XOR kInt32SignBitFlipMask)"

definition DecodeInt64FromKey :: "bytes \<Rightarrow> u64" where
  "DecodeInt64FromKey sl = Load64 sl XOR kInt64SignBitFlipMask"

definition DecodeDoubleFromKey :: "bytes \<Rightarrow> bool \<Rightarrow> u64" where
  "DecodeDoubleFromKey sl descending =
     (let v = Load64 sl;
          v = (if descending then NOT v else v)
      in if drop_bit 63 v \<noteq> 0 then v XOR kInt64SignBitFlipMask else NOT v)"

definition DecodeFloatFromKey :: "bytes \<Rightarrow> bool \<Rightarrow> u32" where
  "DecodeFloatFromKey sl descending =
     (let v = Load32 sl;
          v = (if descending then NOT v else v)
      in if drop_bit 31 v \<noteq> 0 then v XOR kInt32SignBitFlipMask else NOT v)"

definition AppendInt64ToKey :: "u64 \<Rightarrow> bytes \<Rightarrow> bytes" where
  "AppendInt64ToKey val dest = dest @ Store64 (val XOR kInt64SignBitFlipMask)"

definition AppendBigEndianUInt64 :: "u64 \<Rightarrow> bytes \<Rightarrow> bytes" where
  "AppendBigEndianUInt64 u dest = dest @ Store64 u"

definition AppendUInt16ToKey :: "u16 \<Rightarrow> bytes \<Rightarrow> bytes" where
  "AppendUInt16ToKey val dest = dest @ Store16 val"

definition AppendUInt32ToKey :: "u32 \<Rightarrow> bytes \<Rightarrow> bytes" where
  "AppendUInt32ToKey val dest = dest @ Store32 val"

type_synonym column_id = u32

definition AppendColumnIdToKey :: "column_id \<Rightarrow> bytes \<Rightarrow> bytes" where
  "AppendColumnIdToKey val dest = dest @ FastEncodeSignedVarInt (scast val)"

subsection \<open>Strings\<close>

fun append_encoded_chars :: "byte \<Rightarrow> bytes \<Rightarrow> bytes \<Rightarrow> bytes" where
  "append_encoded_chars END_OF_STRING [] dest = dest"
| "append_encoded_chars END_OF_STRING (c # s) dest =
     append_encoded_chars END_OF_STRING s
       (if c = 0 then dest @ [END_OF_STRING, END_OF_STRING XOR 1]
        else dest @ [END_OF_STRING XOR c])"

definition AppendEncodedStrToKey :: "byte \<Rightarrow> bytes \<Rightarrow> bytes \<Rightarrow> bytes" where
  "AppendEncodedStrToKey END_OF_STRING s dest =
     (if END_OF_STRING = 0 \<and> 0 \<notin> set s then dest @ s
      else append_encoded_chars END_OF_STRING s dest)"

definition AppendZeroEncodedStrToKey :: "bytes \<Rightarrow> bytes \<Rightarrow> bytes" where
  "AppendZeroEncodedStrToKey s dest = AppendEncodedStrToKey 0 s dest"

definition AppendComplementZeroEncodedStrToKey :: "bytes \<Rightarrow> bytes \<Rightarrow> bytes" where
  "AppendComplementZeroEncodedStrToKey s dest = AppendEncodedStrToKey 0xff s dest"

definition TerminateEncodedKeyStr :: "byte \<Rightarrow> bytes \<Rightarrow> bytes" where
  "TerminateEncodedKeyStr a dest = dest @ [a, a]"

definition TerminateZeroEncodedKeyStr :: "bytes \<Rightarrow> bytes" where
  "TerminateZeroEncodedKeyStr dest = TerminateEncodedKeyStr 0 dest"

definition TerminateComplementZeroEncodedKeyStr :: "bytes \<Rightarrow> bytes" where
  "TerminateComplementZeroEncodedKeyStr dest = TerminateEncodedKeyStr 0xff dest"

definition ZeroEncodeAndAppendStrToKey :: "bytes \<Rightarrow> bytes \<Rightarrow> bytes" where
  "ZeroEncodeAndAppendStrToKey s dest =
     TerminateZeroEncodedKeyStr (AppendZeroEncodedStrToKey s dest)"

definition ComplementZeroEncodeAndAppendStrToKey :: "bytes \<Rightarrow> bytes \<Rightarrow> bytes" where
  "ComplementZeroEncodeAndAppendStrToKey s dest =
     TerminateComplementZeroEncodedKeyStr (AppendComplementZeroEncodedStrToKey s dest)"

definition ZeroEncodeStr :: "bytes \<Rightarrow> bytes" where
  "ZeroEncodeStr s = ZeroEncodeAndAppendStrToKey s []"

text \<open>The loop from \<^verbatim>\<open>p\<close> to \<^verbatim>\<open>end\<close>; \<open>n\<close> is the distance of \<^verbatim>\<open>p\<close> from the start.\<close>

fun decode_encoded_chars :: "byte \<Rightarrow> bytes \<Rightarrow> nat \<Rightarrow> bytes \<Rightarrow> (bytes \<times> nat) result" where
  "decode_encoded_chars END_OF_STRING [] n result = Inr (result, n)"
| "decode_encoded_chars END_OF_STRING [c] n result =
     (if c = END_OF_STRING then Inl (Status Corruption)
      else Inr (result @ [c XOR END_OF_STRING], n + 1))"
| "decode_encoded_chars END_OF_STRING (c # d # p) n result =
     (if c = END_OF_STRING then
        if d = END_OF_STRING then Inr (result, n + 2)
        else if d = END_OF_STRING XOR 1 then
          decode_encoded_chars END_OF_STRING p (n + 2) (result @ [END_OF_STRING XOR END_OF_STRING])
        else Inl (Status Corruption)
      else
        decode_encoded_chars END_OF_STRING (d # p) (n + 1) (result @ [c XOR END_OF_STRING]))"

definition DecodeEncodedStr :: "byte \<Rightarrow> cursor \<Rightarrow> (bytes \<times> cursor) result" where
  "DecodeEncodedStr END_OF_STRING sl =
     verify_result (decode_encoded_chars END_OF_STRING (snd sl) 0 [])
       (\<lambda>(result, n). Inr (result, remove_prefix n sl))"

definition DecodeComplementZeroEncodedStr :: "cursor \<Rightarrow> (bytes \<times> cursor) result" where
  "DecodeComplementZeroEncodedStr sl = DecodeEncodedStr 0xff sl"

definition DecodeZeroEncodedStr :: "cursor \<Rightarrow> (bytes \<times> cursor) result" where
  "DecodeZeroEncodedStr sl = DecodeEncodedStr 0 sl"

text \<open>The version on a whole string dies on a malformed one.\<close>

definition DecodeZeroEncodedStr_whole :: "bytes \<Rightarrow> bytes result" where
  "DecodeZeroEncodedStr_whole encoded_str =
     (case DecodeZeroEncodedStr ([], encoded_str) of
        Inl _ \<Rightarrow> Inl Fatal
      | Inr (result, sl) \<Rightarrow> check_that (snd sl = []) (Inr result))"

subsection \<open>Hybrid times at the end of a key\<close>

definition ConsumeHybridTimeFromKey :: "cursor \<Rightarrow> (doc_hybrid_time \<times> cursor) result" where
  "ConsumeHybridTimeFromKey sl = DocHybridTime_DecodeFrom sl"

definition DecodeHybridTimeFromEndOfKey :: "cursor \<Rightarrow> doc_hybrid_time result" where
  "DecodeHybridTimeFromEndOfKey key =
     verify_result (DocHybridTime_DecodeFromEnd key) (\<lambda>(t, _). Inr t)"

definition CheckHybridTimeSizeAndValueType :: "bytes \<Rightarrow> nat result" where
  "CheckHybridTimeSizeAndValueType key =
     verify_result (CheckAndGetEncodedSize key) (\<lambda>ht_byte_size.
       let hybrid_time_value_type_offset = length key - ht_byte_size - 1;
           value_type = DecodeValueType_char (key ! hybrid_time_value_type_offset)
       in if value_type \<noteq> kHybridTime then Inl (Status Corruption) else Inr ht_byte_size)"

definition KeyBelongsToDocKeyInTest :: "bytes \<Rightarrow> bytes \<Rightarrow> bool" where
  "KeyBelongsToDocKeyInTest key encoded_doc_key =
     (if take (length encoded_doc_key) key = encoded_doc_key then
        let n = length encoded_doc_key
        in length key \<ge> n + 2 \<and> key ! n = 0 \<and> key ! (n + 1) = 0
      else False)"

subsection \<open>The order of floating point numbers\<close>

text \<open>Sign and magnitude of a bit pattern; equal on the two zeros.\<close>

definition float_is_nan :: "u32 \<Rightarrow> bool" where
  "float_is_nan x \<longleftrightarrow> take_bit 31 x > 0x7f800000"

definition double_is_nan :: "u64 \<Rightarrow> bool" where
  "double_is_nan x \<longleftrightarrow> take_bit 63 x > 0x7ff0000000000000"

definition float_rank :: "u32 \<Rightarrow> int" where
  "float_rank x = (if bit x 31 then - uint (take_bit 31 x) else uint (take_bit 31 x))"

definition double_rank :: "u64 \<Rightarrow> int" where
  "double_rank x = (if bit x 63 then - uint (take_bit 63 x) else uint (take_bit 63 x))"

definition float_less :: "u32 \<Rightarrow> u32 \<Rightarrow> bool" where
  "float_less x y \<longleftrightarrow> \<not> float_is_nan x \<and> \<not> float_is_nan y \<and> float_rank x < float_rank y"

definition double_less :: "u64 \<Rightarrow> u64 \<Rightarrow> bool" where
  "double_less x y \<longleftrightarrow> \<not> double_is_nan x \<and> \<not> double_is_nan y \<and> double_rank x < double_rank y"

subsection \<open>Words with a sign bit\<close>

lemma unat_bound: "unat v < 2 ^ LENGTH('a)" for v :: "'a::len word"
  by (rule unsigned_less)

lemma top_bit_split:
  fixes x :: "'a::len word"
  assumes "LENGTH('a) = Suc n"
  shows "uint x = (if bit x n then 2 ^ n else 0) + uint (take_bit n x)"
    and "sint x = (if bit x n then - (2 ^ n) else 0) + uint (take_bit n x)"
    and "uint (take_bit n x) < 2 ^ n"
proof -
  have "uint x < 2 ^ Suc n" using unsigned_less [of x] assms by metis
  then have "uint x = take_bit (Suc n) (uint x)" by (simp add: take_bit_int_eq_self)
  then have u: "uint x = of_bool (bit (uint x) n) * 2 ^ n + take_bit n (uint x)"
    using take_bit_Suc_from_most [of n "uint x"] by (simp add: mult.commute)
  have t: "uint (take_bit n x) = take_bit n (uint x)" by (simp add: unsigned_take_bit_eq)
  show 1: "uint x = (if bit x n then 2 ^ n else 0) + uint (take_bit n x)"
    using u t assms by (auto simp: bit_uint_iff)
  have "sint x = take_bit (Suc n) (uint x) - 2 ^ Suc n * of_bool (bit (uint x) n)"
    using assms by (simp add: sint_uint signed_take_bit_eq_take_bit_minus)
  also have "\<dots> = uint x - 2 ^ Suc n * of_bool (bit x n)"
    using \<open>uint x = take_bit (Suc n) (uint x)\<close> by (simp add: bit_uint_iff bit_imp_le_length)
  finally show "sint x = (if bit x n then - (2 ^ n) else 0) + uint (take_bit n x)"
    using 1 by simp
  show "uint (take_bit n x) < 2 ^ n" by (simp add: t)
qed

lemma flip_top_bit:
  fixes x :: "'a::len word"
  assumes "LENGTH('a) = Suc n"
  shows "int (unat (x XOR 2 ^ n)) = sint x + 2 ^ n"
proof -
  have b: "bit (x XOR 2 ^ n) n \<longleftrightarrow> \<not> bit x n"
    using assms by (simp add: bit_xor_iff bit_exp_iff)
  have "take_bit n (2 ^ n :: 'a word) = 0" by (rule bit_word_eqI) (auto simp: bit_simps)
  then have "take_bit n (x XOR 2 ^ n) = take_bit n x" by (simp add: take_bit_xor)
  then show ?thesis
    using top_bit_split [OF assms, of x] top_bit_split(1) [OF assms, of "x XOR 2 ^ n"] b
    by simp
qed

lemma drop_top_bit:
  fixes x :: "'a::len word"
  assumes "LENGTH('a) = Suc n"
  shows "drop_bit n x = 0 \<longleftrightarrow> \<not> bit x n"
proof -
  have "\<not> bit x i" if "n < i" for i using that assms bit_imp_le_length [of x i] by auto
  then have "bit (drop_bit n x) i \<longleftrightarrow> i = 0 \<and> bit x n" for i
    by (cases i) (simp_all add: bit_drop_bit_eq)
  then show ?thesis by (metis bit_0_eq bot_apply bot_bool_def bit_word_eqI)
qed

lemma mask32: "kInt32SignBitFlipMask = 2 ^ 31" and mask64: "kInt64SignBitFlipMask = 2 ^ 63"
  by (simp_all add: kInt32SignBitFlipMask_def kInt64SignBitFlipMask_def)

lemma Store_prec:
  "a < b \<Longrightarrow> bytes_prec (Store16 a) (Store16 b)"
  "a' < b' \<Longrightarrow> bytes_prec (Store32 a') (Store32 b')"
  "a'' < b'' \<Longrightarrow> bytes_prec (Store64 a'') (Store64 b'')"
proof -
  have u: "unat x < 2 ^ 16" "unat y < 2 ^ 32" "unat z < 2 ^ 64" for x :: u16 and y :: u32 and z :: u64
    using unat_bound [of x] unat_bound [of y] unat_bound [of z] by simp_all
  have *: "bytes_prec (be_bytes n v) (be_bytes n w)" if "v < w" "w < 256 ^ n" for n v w
    using that by (subst bytes_prec_same_length) (simp_all add: bytes_less_be_val be_val_be_bytes)
  show "a < b \<Longrightarrow> bytes_prec (Store16 a) (Store16 b)"
    using u(1) [of b] by (simp add: Store16_def word_less_nat_alt *)
  show "a' < b' \<Longrightarrow> bytes_prec (Store32 a') (Store32 b')"
    using u(2) [of b'] by (simp add: Store32_def word_less_nat_alt *)
  show "a'' < b'' \<Longrightarrow> bytes_prec (Store64 a'') (Store64 b'')"
    using u(3) [of b''] by (simp add: Store64_def word_less_nat_alt *)
qed

lemma Load_Store [simp]:
  "Load16 (Store16 a @ rest) = a"
  "Load32 (Store32 b @ rest) = b"
  "Load64 (Store64 c @ rest) = c"
  using unat_bound [of a] unat_bound [of b] unat_bound [of c]
  by (simp_all add: Load16_def Store16_def Load32_def Store32_def Load64_def Store64_def
      be_val_be_bytes)

lemma length_Store [simp]:
  "length (Store16 a) = 2" "length (Store32 b) = 4" "length (Store64 c) = 8"
  by (simp_all add: Store16_def Store32_def Store64_def)

lemma flip32_less: "a XOR kInt32SignBitFlipMask < b XOR kInt32SignBitFlipMask \<longleftrightarrow> sint a < sint b"
proof -
  have "int (unat (x XOR kInt32SignBitFlipMask)) = sint x + 2 ^ 31" for x
    using flip_top_bit [of 31 x] by (simp add: mask32)
  from this [of a] this [of b] show ?thesis by (simp add: word_less_def)
qed

lemma flip64_less: "a XOR kInt64SignBitFlipMask < b XOR kInt64SignBitFlipMask \<longleftrightarrow> sint a < sint b"
proof -
  have "int (unat (x XOR kInt64SignBitFlipMask)) = sint x + 2 ^ 63" for x
    using flip_top_bit [of 63 x] by (simp add: mask64)
  from this [of a] this [of b] show ?thesis by (simp add: word_less_def)
qed

lemma xor_mask_twice [simp]: "(a XOR m) XOR m = a" for a m :: "'a::len word"
  by (simp add: xor.assoc)


text \<open>The transformation both floating point widths share.\<close>

definition float_flip :: "nat \<Rightarrow> 'a::len word \<Rightarrow> 'a word" where
  "float_flip n v = (if bit v n then NOT v else v XOR 2 ^ n)"

lemma uint_NOT: "uint (NOT v) = 2 ^ LENGTH('a) - 1 - uint v" for v :: "'a::len word"
proof -
  have "NOT v = - 1 - v" by (simp add: not_eq_complement)
  moreover have "v \<le> - 1" by simp
  ultimately show ?thesis by (simp add: uint_minus_simple_alt [THEN iffD1] unsigned_minus_1_eq_mask mask_eq_exp_minus_1)
qed

lemma word_NOT_less: "NOT v < NOT w \<longleftrightarrow> w < v" for v w :: "'a::len word"
  by (simp add: word_less_def uint_NOT)

lemma float_flip_less:
  fixes x y :: "'a::len word"
  assumes "LENGTH('a) = Suc n"
    and "(if bit x n then - uint (take_bit n x) else uint (take_bit n x)) <
         (if bit y n then - uint (take_bit n y) else uint (take_bit n y))"
  shows "float_flip n x < float_flip n y"
proof -
  have "uint (float_flip n v) =
    (if bit v n then 2 ^ n - 1 - uint (take_bit n v) else 2 ^ n + uint (take_bit n v))"
    for v :: "'a word"
    using top_bit_split [OF assms(1), of v] flip_top_bit [OF assms(1), of v] assms(1)
    by (auto simp: float_flip_def uint_NOT)
  note f = this [of x] this [of y]
  show ?thesis using assms(2) uint_ge_0 [of "take_bit n x"] uint_ge_0 [of "take_bit n y"]
    unfolding word_less_def f by (cases "bit x n"; cases "bit y n"; simp only: if_True if_False; linarith)
qed

lemma bit_float_flip:
  fixes x :: "'a::len word"
  assumes "LENGTH('a) = Suc n"
  shows "bit (float_flip n x) n \<longleftrightarrow> \<not> bit x n"
  using assms by (auto simp: float_flip_def bit_simps)

lemma float_unflip:
  fixes x :: "'a::len word"
  assumes "LENGTH('a) = Suc n"
  shows "(if bit (float_flip n x) n then float_flip n x XOR 2 ^ n else NOT (float_flip n x)) = x"
  unfolding bit_float_flip [OF assms] by (simp add: float_flip_def xor.assoc)

subsection \<open>Floating point keys\<close>

lemma AppendFloatToKey_eq:
  "AppendFloatToKey v dest d = dest @ Store32 (if d then NOT (float_flip 31 v) else float_flip 31 v)"
  using drop_top_bit [of 31 v] by (auto simp: AppendFloatToKey_def Let_def float_flip_def mask32)

lemma AppendDoubleToKey_eq:
  "AppendDoubleToKey v dest d = dest @ Store64 (if d then NOT (float_flip 63 v) else float_flip 63 v)"
  using drop_top_bit [of 63 v] by (auto simp: AppendDoubleToKey_def Let_def float_flip_def mask64)

lemma DecodeFloatFromKey_encode [simp]:
  "DecodeFloatFromKey (AppendFloatToKey v [] d @ rest) d = v"
  using float_unflip [of 31 v] drop_top_bit [of 31 "float_flip 31 v"]
  by (auto split: if_splits simp: DecodeFloatFromKey_def AppendFloatToKey_eq Let_def mask32)

lemma DecodeDoubleFromKey_encode [simp]:
  "DecodeDoubleFromKey (AppendDoubleToKey v [] d @ rest) d = v"
  using float_unflip [of 63 v] drop_top_bit [of 63 "float_flip 63 v"]
  by (auto split: if_splits simp: DecodeDoubleFromKey_def AppendDoubleToKey_eq Let_def mask64)

lemma float_order:
  "float_less x y \<Longrightarrow> bytes_prec (AppendFloatToKey x [] False) (AppendFloatToKey y [] False)"
  "float_less x y \<Longrightarrow> bytes_prec (AppendFloatToKey y [] True) (AppendFloatToKey x [] True)"
  using float_flip_less [of 31 x y]
  by (simp_all add: float_less_def float_rank_def AppendFloatToKey_eq Store_prec word_NOT_less)

lemma double_order:
  "double_less x y \<Longrightarrow> bytes_prec (AppendDoubleToKey x [] False) (AppendDoubleToKey y [] False)"
  "double_less x y \<Longrightarrow> bytes_prec (AppendDoubleToKey y [] True) (AppendDoubleToKey x [] True)"
  using float_flip_less [of 63 x y]
  by (simp_all add: double_less_def double_rank_def AppendDoubleToKey_eq Store_prec word_NOT_less)

subsection \<open>Zero-encoded strings\<close>

fun zero_encoded :: "bytes \<Rightarrow> bytes" where
  "zero_encoded [] = []"
| "zero_encoded (c # s) = (if c = 0 then [0, 1] else [c]) @ zero_encoded s"

lemma zero_encoded_plain: "0 \<notin> set s \<Longrightarrow> zero_encoded s = s"
  by (induction s) auto

lemma byte_xor_ff: "0xff XOR c = NOT c" for c :: byte
proof -
  have ff: "(0xff :: byte) = - 1" by simp
  show ?thesis unfolding ff by simp
qed

lemma byte_complement_simps:
  "NOT c = 0xff \<longleftrightarrow> c = 0" "NOT c = 0xff XOR 1 \<longleftrightarrow> c = 1" "NOT c XOR 0xff = c"
  for c :: byte
proof -
  have ff: "(0xff :: byte) = NOT 0" by simp
  show "NOT c = 0xff \<longleftrightarrow> c = 0" unfolding ff by (simp only: bit.compl_eq_compl_iff)
  show "NOT c = 0xff XOR 1 \<longleftrightarrow> c = 1" by (simp only: byte_xor_ff bit.compl_eq_compl_iff)
  show "NOT c XOR 0xff = c" by (simp only: xor.commute [of "NOT c"] byte_xor_ff bit.double_compl)
qed

lemma append_encoded_chars_eq:
  "append_encoded_chars 0 s dest = dest @ zero_encoded s"
  "append_encoded_chars 0xff s dest = dest @ map (\<lambda>b. NOT b) (zero_encoded s)"
proof (induction s arbitrary: dest)
  case (Cons c s)
  { case 1 show ?case by (simp add: Cons) }
  { case 2 show ?case using byte_xor_ff [of c] byte_xor_ff [of 1] by (simp add: Cons) }
qed simp_all

lemma ZeroEncodeAndAppendStrToKey_eq:
  "ZeroEncodeAndAppendStrToKey s dest = dest @ zero_encoded s @ [0, 0]"
  by (simp add: ZeroEncodeAndAppendStrToKey_def AppendZeroEncodedStrToKey_def
      AppendEncodedStrToKey_def TerminateZeroEncodedKeyStr_def TerminateEncodedKeyStr_def
      append_encoded_chars_eq zero_encoded_plain)

lemma ComplementZeroEncodeAndAppendStrToKey_eq:
  "ComplementZeroEncodeAndAppendStrToKey s dest =
     dest @ map (\<lambda>b. NOT b) (zero_encoded s @ [0, 0])"
  by (simp add: ComplementZeroEncodeAndAppendStrToKey_def AppendComplementZeroEncodedStrToKey_def
      AppendEncodedStrToKey_def TerminateComplementZeroEncodedKeyStr_def
      TerminateEncodedKeyStr_def append_encoded_chars_eq)

text \<open>Both decoders are one loop up to complementing the bytes.\<close>

lemma decode_encoded_chars_zero:
  "decode_encoded_chars 0 (zero_encoded s @ 0 # 0 # rest) n result =
     Inr (result @ s, n + length (zero_encoded s) + 2)"
proof (induction s arbitrary: n result)
  case (Cons c s)
  obtain d q where dq: "zero_encoded s @ 0 # 0 # rest = d # q"
    by (cases "zero_encoded s @ 0 # 0 # rest") auto
  show ?case
  proof (cases "c = 0")
    case True
    then show ?thesis using Cons [of "n + 2" "result @ [0]"] by simp
  next
    case False
    then show ?thesis using Cons [of "n + 1" "result @ [c]"] by (simp add: dq)
  qed
qed simp

lemma decode_encoded_chars_complement:
  "decode_encoded_chars 0xff (map (\<lambda>b. NOT b) p) n result = decode_encoded_chars 0 p n result"
proof (induction "0 :: byte" p n result rule: decode_encoded_chars.induct)
  case (2 c n result)
  show ?case by (simp only: list.map decode_encoded_chars.simps byte_complement_simps) simp
next
  case (3 c d p n result)
  then show ?case
    by (simp only: list.map decode_encoded_chars.simps byte_complement_simps) simp
qed simp


lemma DecodeZeroEncodedStr_encode:
  "DecodeZeroEncodedStr (before, ZeroEncodeAndAppendStrToKey s [] @ rest) =
     Inr (s, before @ ZeroEncodeAndAppendStrToKey s [], rest)"
  using decode_encoded_chars_zero [of s rest 0 "[]"]
  by (simp add: DecodeZeroEncodedStr_def DecodeEncodedStr_def ZeroEncodeAndAppendStrToKey_eq
      remove_prefix_def)

lemma DecodeComplementZeroEncodedStr_encode:
  "DecodeComplementZeroEncodedStr (before, ComplementZeroEncodeAndAppendStrToKey s [] @ rest) =
     Inr (s, before @ ComplementZeroEncodeAndAppendStrToKey s [], rest)"
proof -
  let ?z = "zero_encoded s @ [0, 0]" and ?r = "map (\<lambda>b. NOT b) rest"
  have "map (\<lambda>b. NOT b) ?z @ rest = map (\<lambda>b. NOT b) (?z @ ?r)" by (simp add: comp_def)
  then have "decode_encoded_chars 0xff (map (\<lambda>b. NOT b) ?z @ rest) 0 [] =
    decode_encoded_chars 0 (zero_encoded s @ 0 # 0 # ?r) 0 []"
    by (simp only: decode_encoded_chars_complement) simp
  then show ?thesis
    by (simp add: DecodeComplementZeroEncodedStr_def DecodeEncodedStr_def
        ComplementZeroEncodeAndAppendStrToKey_eq decode_encoded_chars_zero remove_prefix_def)
qed

lemma zero_encoded_prec:
  "bytes_less s t \<Longrightarrow> bytes_prec (zero_encoded s @ [0, 0]) (zero_encoded t @ [0, 0])"
proof (induction s t rule: bytes_less.induct)
  case (2 y ys)
  then show ?case by (simp add: word_neq_0_conv)
next
  case (3 x xs y ys)
  then show ?case by (auto simp: word_neq_0_conv)
qed simp

lemma zero_encoded_str_order:
  "bytes_less s t \<Longrightarrow>
   bytes_prec (ZeroEncodeAndAppendStrToKey s []) (ZeroEncodeAndAppendStrToKey t [])"
  "bytes_less s t \<Longrightarrow>
   bytes_prec (ComplementZeroEncodeAndAppendStrToKey t [])
     (ComplementZeroEncodeAndAppendStrToKey s [])"
  using zero_encoded_prec [of s t]
    bytes_prec_map_NOT [of "zero_encoded t @ [0, 0]" "zero_encoded s @ [0, 0]"]
  by (simp_all add: ZeroEncodeAndAppendStrToKey_eq ComplementZeroEncodeAndAppendStrToKey_eq)

lemma int32_key_order: "sint a < sint b \<Longrightarrow> bytes_prec (AppendInt32ToKey a []) (AppendInt32ToKey b [])"
  by (simp add: AppendInt32ToKey_def Store_prec flip32_less)

lemma int64_key_order: "sint a < sint b \<Longrightarrow> bytes_prec (AppendInt64ToKey a []) (AppendInt64ToKey b [])"
  by (simp add: AppendInt64ToKey_def Store_prec flip64_less)

lemma DecodeInt64FromKey_encode [simp]: "DecodeInt64FromKey (AppendInt64ToKey v [] @ rest) = v"
  by (simp add: DecodeInt64FromKey_def AppendInt64ToKey_def)

lemma int32_key_order_descending:
  "sint a < sint b \<Longrightarrow> bytes_prec (AppendInt32ToKey (NOT b) []) (AppendInt32ToKey (NOT a) [])"
  by (simp add: AppendInt32ToKey_def Store_prec word_NOT_less flip32_less)

lemma int64_key_order_descending:
  "sint a < sint b \<Longrightarrow> bytes_prec (AppendInt64ToKey (NOT b) []) (AppendInt64ToKey (NOT a) [])"
  by (simp add: AppendInt64ToKey_def Store_prec word_NOT_less flip64_less)

subsection \<open>Hybrid times behind a key\<close>

lemma CheckHybridTimeSizeAndValueType_encoded:
  "CheckHybridTimeSizeAndValueType (key @ value_type_char kHybridTime # EncodedInDocDbFormat t) =
     Inr (length (EncodedInDocDbFormat t))"
proof -
  have "CheckAndGetEncodedSize ((key @ [value_type_char kHybridTime]) @ EncodedInDocDbFormat t) =
      Inr (length (EncodedInDocDbFormat t))"
    by (simp add: CheckAndGetEncodedSize_encoded length_EncodedInDocDbFormat del: append_assoc)
  then show ?thesis
    by (simp add: CheckHybridTimeSizeAndValueType_def DecodeValueType_char_def
        value_type_cast_def DOCDB_VALUE_TYPES_def)
qed

subsection \<open>Properties\<close>

lemma zero_encoded_str_less_iff:
  assumes "s \<noteq> t"
  shows "bytes_less (ZeroEncodeAndAppendStrToKey s [] @ u) (ZeroEncodeAndAppendStrToKey t [] @ v)
      \<longleftrightarrow> bytes_less s t"
    and "bytes_less (ComplementZeroEncodeAndAppendStrToKey s [] @ u)
           (ComplementZeroEncodeAndAppendStrToKey t [] @ v) \<longleftrightarrow> bytes_less t s"
proof -
  have asym: "\<not> bytes_less b a" if "bytes_less a b" for a b
    using that bytes_less_trans [of a b a] by auto
  note p = zero_encoded_str_order [THEN bytes_prec_append, THEN bytes_prec_less]
  show "bytes_less (ZeroEncodeAndAppendStrToKey s [] @ u) (ZeroEncodeAndAppendStrToKey t [] @ v)
      \<longleftrightarrow> bytes_less s t"
    using bytes_less_linear [of s t] assms p(1) [of s t u v] p(1) [of t s v u] asym by blast
  show "bytes_less (ComplementZeroEncodeAndAppendStrToKey s [] @ u)
           (ComplementZeroEncodeAndAppendStrToKey t [] @ v) \<longleftrightarrow> bytes_less t s"
    using bytes_less_linear [of s t] assms p(2) [of s t v u] p(2) [of t s u v] asym by blast
qed

text \<open>
  C20: a string stored in a key is read back, whatever follows it, and the order of two keys
  that hold different strings at the same place is the order of the strings; the
  complemented form, used for descending columns, reverses it.
\<close>

theorem zero_encoded_strings:
  "DecodeZeroEncodedStr (before, ZeroEncodeAndAppendStrToKey s [] @ rest) =
     Inr (s, before @ ZeroEncodeAndAppendStrToKey s [], rest) \<and>
   DecodeComplementZeroEncodedStr (before, ComplementZeroEncodeAndAppendStrToKey s [] @ rest) =
     Inr (s, before @ ComplementZeroEncodeAndAppendStrToKey s [], rest) \<and>
   (s \<noteq> t \<longrightarrow>
     (slice_compare (ZeroEncodeAndAppendStrToKey s [] @ u)
        (ZeroEncodeAndAppendStrToKey t [] @ v) < 0 \<longleftrightarrow> slice_compare s t < 0) \<and>
     (slice_compare (ComplementZeroEncodeAndAppendStrToKey s [] @ u)
        (ComplementZeroEncodeAndAppendStrToKey t [] @ v) < 0 \<longleftrightarrow> slice_compare t s < 0))"
  by (simp add: slice_compare_less_iff zero_encoded_str_less_iff DecodeZeroEncodedStr_encode
      DecodeComplementZeroEncodedStr_encode)

theorem zero_encoded_strings_witness:
  "[97, 0] \<noteq> ([97] :: bytes) \<and>
   slice_compare (ZeroEncodeAndAppendStrToKey [97] [] @ [9])
     (ZeroEncodeAndAppendStrToKey [97, 0] []) < 0"
  using zero_encoded_strings [of "[]" "[97]" "[]" "[97, 0]" "[9]" "[]"]
  by (simp add: slice_compare_less_iff)

text \<open>
  C25: a floating point number stored in a key is read back from its bits, and whenever one
  number is less than another its key sorts first, or last in a descending column; this
  covers negative numbers, denormals and infinities.
\<close>

theorem floating_point_keys:
  "DecodeDoubleFromKey (AppendDoubleToKey x [] descending @ rest) descending = x \<and>
   DecodeFloatFromKey (AppendFloatToKey f [] descending @ rest) descending = f \<and>
   (double_less x y \<longrightarrow>
      slice_compare (AppendDoubleToKey x [] False @ u) (AppendDoubleToKey y [] False @ v) < 0 \<and>
      slice_compare (AppendDoubleToKey y [] True @ u) (AppendDoubleToKey x [] True @ v) < 0) \<and>
   (float_less f g \<longrightarrow>
      slice_compare (AppendFloatToKey f [] False @ u) (AppendFloatToKey g [] False @ v) < 0 \<and>
      slice_compare (AppendFloatToKey g [] True @ u) (AppendFloatToKey f [] True @ v) < 0)"
  by (simp add: slice_compare_less_iff bytes_prec_less bytes_prec_append float_order double_order)

text \<open>The numbers - 1.5 and 0.0, as a double and as a float.\<close>

theorem floating_point_keys_witness:
  "double_less 0xbff8000000000000 0 \<and> float_less 0xbfc00000 0 \<and>
   slice_compare (AppendDoubleToKey 0xbff8000000000000 [] False) (AppendDoubleToKey 0 [] False) < 0"
  using floating_point_keys [of "0xbff8000000000000" False "[]" "0xbfc00000" 0 "[]" "[]" 0]
  by (simp add: double_less_def double_is_nan_def double_rank_def float_less_def
      float_is_nan_def float_rank_def take_bit_eq_mod)

end
