(* ===== verification/Var_Int.thy ===== *)
theory Var_Int
  imports Kv_Util
begin

text \<open>
  Integers of any size (\<^verbatim>\<open>src/src/yb/util/varint.cc\<close>): the comparable encoding used in
  keys, with its reserved bits, the two's complement encoding of the client protocol, and
  the conversions to and from 64-bit integers.

  \<^verbatim>\<open>VarInt\<close> wraps a \<^verbatim>\<open>BIGNUM\<close> of OpenSSL, a library the repository only calls. A
  \<^verbatim>\<open>BIGNUM\<close> is represented by the integer it holds, and the functions of the library are a
  parameter, the record \<open>BN\<close>; \<open>BN_documented\<close> collects what its manual says about them and
  the proofs use.
\<close>

unbundle bit_operations_syntax

subsection \<open>The library\<close>

type_synonym BIGNUM = int

record BN =
  BN_is_zero :: "BIGNUM \<Rightarrow> bool"
  BN_is_negative :: "BIGNUM \<Rightarrow> bool"
  BN_set_negative :: "BIGNUM \<Rightarrow> bool \<Rightarrow> BIGNUM"
  BN_set_word :: "u64 \<Rightarrow> BIGNUM"
  BN_get_word :: "BIGNUM \<Rightarrow> u64"
  BN_num_bits :: "BIGNUM \<Rightarrow> nat"
  BN_bn2bin :: "BIGNUM \<Rightarrow> bytes"
  BN_bin2bn :: "bytes \<Rightarrow> BIGNUM"
  BN_cmp :: "BIGNUM \<Rightarrow> BIGNUM \<Rightarrow> int"
  BN_add :: "BIGNUM \<Rightarrow> BIGNUM \<Rightarrow> BIGNUM"
  BN_sub :: "BIGNUM \<Rightarrow> BIGNUM \<Rightarrow> BIGNUM"
  BN_bn2dec :: "BIGNUM \<Rightarrow> string"
  BN_dec2bn :: "string \<Rightarrow> nat \<times> BIGNUM"

text \<open>Decimal notation: digits, their value and their characters.\<close>

fun dec_digits :: "nat \<Rightarrow> nat list" where
  "dec_digits n = (if n < 10 then [n] else dec_digits (n div 10) @ [n mod 10])"

declare dec_digits.simps [simp del]

definition dec_value :: "nat list \<Rightarrow> nat" where
  "dec_value ds = foldl (\<lambda>v d. 10 * v + d) 0 ds"

definition digit_string :: "nat list \<Rightarrow> string" where
  "digit_string ds = map (\<lambda>d. char_of (48 + d)) ds"

text \<open>
  \<^verbatim>\<open>BN_get_word\<close> returns all ones when the number does not fit; \<^verbatim>\<open>BN_set_negative\<close> keeps
  zero; \<^verbatim>\<open>BN_bn2bin\<close> writes the absolute value in \<^verbatim>\<open>BN_num_bytes\<close> big-endian bytes;
  \<^verbatim>\<open>BN_dec2bn\<close> returns the number of characters it has used.
\<close>

definition BN_documented :: "BN \<Rightarrow> bool" where
  "BN_documented bn \<longleftrightarrow>
     (\<forall>x. BN_is_zero bn x \<longleftrightarrow> x = 0) \<and>
     (\<forall>x. BN_is_negative bn x \<longleftrightarrow> x < 0) \<and>
     (\<forall>x b. BN_set_negative bn x b = (if b then - \<bar>x\<bar> else \<bar>x\<bar>)) \<and>
     (\<forall>w. BN_set_word bn w = uint w) \<and>
     (\<forall>x. BN_get_word bn x = (if \<bar>x\<bar> < 2 ^ 64 then word_of_int \<bar>x\<bar> else - 1)) \<and>
     (\<forall>x. nat \<bar>x\<bar> < 2 ^ BN_num_bits bn x) \<and>
     (\<forall>x k. nat \<bar>x\<bar> < 2 ^ k \<longrightarrow> BN_num_bits bn x \<le> k) \<and>
     (\<forall>x. length (BN_bn2bin bn x) = (BN_num_bits bn x + 7) div 8) \<and>
     (\<forall>x. be_val (BN_bn2bin bn x) = nat \<bar>x\<bar>) \<and>
     (\<forall>bs. BN_bin2bn bn bs = int (be_val bs)) \<and>
     (\<forall>x y. (BN_cmp bn x y < 0 \<longleftrightarrow> x < y) \<and> (BN_cmp bn x y = 0 \<longleftrightarrow> x = y)) \<and>
     (\<forall>x y. BN_add bn x y = x + y) \<and>
     (\<forall>x y. BN_sub bn x y = x - y) \<and>
     (\<forall>x. BN_bn2dec bn x =
        (if x < 0 then CHR ''-'' # digit_string (dec_digits (nat \<bar>x\<bar>))
         else digit_string (dec_digits (nat \<bar>x\<bar>)))) \<and>
     (\<forall>ds. ds \<noteq> [] \<longrightarrow> list_all (\<lambda>d. d < 10) ds \<longrightarrow>
        BN_dec2bn bn (digit_string ds) = (length ds, int (dec_value ds)) \<and>
        BN_dec2bn bn (CHR ''-'' # digit_string ds) = (Suc (length ds), - int (dec_value ds)))"

subsection \<open>Model\<close>

type_synonym VarInt = BIGNUM

text \<open>The constructor from \<^verbatim>\<open>int64_t\<close>: negation wraps at the smallest value.\<close>

definition VarInt_from_int64 :: "BN \<Rightarrow> u64 \<Rightarrow> VarInt" where
  "VarInt_from_int64 bn int64_val =
     (if 0 \<le> sint int64_val then BN_set_word bn int64_val
      else BN_set_negative bn (BN_set_word bn (- int64_val)) True)"

definition VarInt_ToInt64 :: "BN \<Rightarrow> VarInt \<Rightarrow> u64 result" where
  "VarInt_ToInt64 bn x =
     (let val = BN_get_word bn x;
          negative = BN_is_negative bn x;
          bound = (if negative then 2 ^ 63 else 2 ^ 63 - 1)
      in if val > bound then Inl (Status InvalidArgument)
         else Inr (if negative then - val else val))"

definition VarInt_ToString :: "BN \<Rightarrow> VarInt \<Rightarrow> string" where
  "VarInt_ToString bn x = BN_bn2dec bn x"

definition VarInt_FromString :: "BN \<Rightarrow> string \<Rightarrow> VarInt result" where
  "VarInt_FromString bn cstr =
     (let cstr = (case cstr of c # cs \<Rightarrow> if c = CHR ''+'' then cs else cstr | [] \<Rightarrow> []);
          (parsed, temp) = BN_dec2bn bn cstr
      in if parsed = 0 \<or> parsed \<noteq> length cstr then Inl (Status InvalidArgument) else Inr temp)"

definition VarInt_CompareTo :: "BN \<Rightarrow> VarInt \<Rightarrow> VarInt \<Rightarrow> int" where
  "VarInt_CompareTo bn x other = BN_cmp bn x other"

definition FlipBits :: "bytes \<Rightarrow> bytes" where
  "FlipBits data = map (\<lambda>b. NOT b) data"

text \<open>Fill the header with ones: whole bytes, then the high bits of the next byte.\<close>

fun fill_ones :: "nat \<Rightarrow> nat \<Rightarrow> bytes \<Rightarrow> bytes" where
  "fill_ones idx num_ones data =
     (if num_ones > 8 then fill_ones (idx + 1) (num_ones - 8) (data[idx := 0xff])
      else data[idx := data ! idx OR (0xff XOR (push_bit (8 - num_ones) 1 - 1))])"

declare fill_ones.simps [simp del]

definition VarInt_EncodeToComparable :: "BN \<Rightarrow> VarInt \<Rightarrow> nat \<Rightarrow> bytes" where
  "VarInt_EncodeToComparable bn x num_reserved_bits =
     (if BN_is_zero bn x then [drop_bit num_reserved_bits 0x80]
      else
        let num_bits = BN_num_bits bn x;
            total_num_bits = num_bits + 1 + num_reserved_bits;
            num_bytes = (total_num_bits + 6) div 7;
            rounding_padding = num_bytes * 7 - total_num_bits;
            header_length = 1 + num_bytes + rounding_padding;
            words_count = (num_bits + header_length + 8 - 1) div 8;
            offset = words_count - (num_bits + 8 - 1) div 8;
            data = replicate words_count 0;
            bin = BN_bn2bin bn x;
            data = take offset data @ bin @ drop (offset + length bin) data;
            num_ones = num_bytes + num_reserved_bits;
            data = fill_ones 0 num_ones data;
            data = (if BN_is_negative bn x then FlipBits data else data)
        in if num_reserved_bits \<noteq> 0
           then data[0 := data ! 0 AND (push_bit (8 - num_reserved_bits) 1 - 1)] else data)"

text \<open>Skip the bytes of the header that are all ones, then the ones of the next byte.\<close>

function skip_full_bytes :: "bytes \<Rightarrow> nat \<Rightarrow> nat \<Rightarrow> (nat \<times> nat) result" where
  "skip_full_bytes buffer idx num_ones =
     (if idx < length buffer \<and> buffer ! idx = 0xff then
        if idx + 1 \<ge> length buffer then Inl (Status Corruption)
        else skip_full_bytes buffer (idx + 1) (num_ones + 8)
      else Inr (idx, num_ones))"
  by auto
termination by (relation "measure (\<lambda>(buffer, idx, _). length buffer - idx)") auto

function strip_ones :: "byte \<Rightarrow> byte \<Rightarrow> nat \<Rightarrow> byte \<times> nat" where
  "strip_ones b temp num_ones =
     (if b AND temp \<noteq> 0 then strip_ones (b XOR temp) (drop_bit 1 temp) (num_ones + 1)
      else (b, num_ones))"
  by auto
termination
proof (relation "measure (\<lambda>(_, temp, _). unat temp)")
  fix b temp :: byte and n
  assume "b AND temp \<noteq> 0"
  then have "temp \<noteq> 0" by auto
  then have "0 < unat temp" by (simp add: unat_gt_0)
  then show "((b XOR temp, drop_bit 1 temp, n + 1), b, temp, n)
    \<in> measure (\<lambda>(_, temp, _). unat temp)" by (simp add: unat_drop_bit)
qed simp

declare skip_full_bytes.simps [simp del] strip_ones.simps [simp del]

text \<open>The results are the value and \<^verbatim>\<open>num_decoded_bytes\<close>.\<close>

definition VarInt_DecodeFromComparable ::
  "BN \<Rightarrow> bytes \<Rightarrow> nat \<Rightarrow> (VarInt \<times> nat) result" where
  "VarInt_DecodeFromComparable bn sl num_reserved_bits =
     (let len = length sl
      in if len = 0 then Inl (Status Corruption)
         else
           let negative = (sl ! 0 AND drop_bit num_reserved_bits 0x80 = 0);
               buffer = (if negative then FlipBits sl else sl);
               buffer = (if num_reserved_bits \<noteq> 0
                 then buffer[0 := buffer ! 0 OR NOT (push_bit (8 - num_reserved_bits) 1 - 1)]
                 else buffer)
           in verify_result (skip_full_bytes buffer 0 0) (\<lambda>(idx, num_ones).
                let (b, num_ones) = strip_ones (buffer ! idx) 0x80 num_ones;
                    buffer = buffer[idx := b];
                    num_ones = num_ones - num_reserved_bits
                in if num_ones > len then Inl (Status Corruption)
                   else
                     let x = BN_bin2bn bn (take (num_ones - idx) (drop idx buffer))
                     in Inr (if negative then BN_set_negative bn x True else x, num_ones)))"

text \<open>
  The carry and the borrow of the two's complement encodings: from the last byte towards the
  first, up to the byte that absorbs it. The second result is the index \<^verbatim>\<open>back\<close> ends at;
  running past the first byte would write in front of the buffer.
\<close>

fun carry_up :: "byte \<Rightarrow> byte \<Rightarrow> nat \<Rightarrow> bytes \<Rightarrow> (nat \<times> bytes) option" where
  "carry_up old new 0 data = None"
| "carry_up old new (Suc back) data =
     (if data ! back = old then carry_up old new back (data[back := new])
      else Some (back, data))"

definition VarInt_EncodeToTwosComplement :: "BN \<Rightarrow> VarInt \<Rightarrow> bytes result" where
  "VarInt_EncodeToTwosComplement bn x =
     (if BN_is_zero bn x then Inr [0]
      else
        let num_bits = BN_num_bits bn x;
            offset = (if num_bits mod 8 = 0 then 1 else 0);
            count = (num_bits + 8 - 1) div 8 + offset;
            data = replicate count 0;
            bin = BN_bn2bin bn x;
            data = take offset data @ bin @ drop (offset + length bin) data
        in if BN_is_negative bn x then
             case carry_up 0xff 0 (length data) (FlipBits data) of
               None \<Rightarrow> Inl Undefined
             | Some (back, data) \<Rightarrow>
                 let data = data[back := data ! back + 1]
                 in Inr (if offset = 1 \<and> back > 0 \<and> data ! 1 AND 0x80 \<noteq> 0 then tl data else data)
           else Inr data)"

definition VarInt_DecodeFromTwosComplement :: "BN \<Rightarrow> bytes \<Rightarrow> VarInt result" where
  "VarInt_DecodeFromTwosComplement bn input =
     (if length input = 0 then Inl (Status Corruption)
      else if input ! 0 AND 0x80 = 0 then Inr (BN_bin2bn bn input)
      else
        case carry_up 0 0xff (length input) input of
          None \<Rightarrow> Inl Undefined
        | Some (back, data) \<Rightarrow>
            let data = FlipBits (data[back := data ! back - 1])
            in Inr (BN_set_negative bn (BN_bin2bn bn data) True))"

definition VarInt_Negate :: "BN \<Rightarrow> VarInt \<Rightarrow> VarInt" where
  "VarInt_Negate bn x = BN_set_negative bn x (\<not> BN_is_negative bn x)"

definition VarInt_Sign :: "BN \<Rightarrow> VarInt \<Rightarrow> int" where
  "VarInt_Sign bn x = (if BN_is_zero bn x then 0 else if BN_is_negative bn x then - 1 else 1)"

definition VarInt_plus :: "BN \<Rightarrow> VarInt \<Rightarrow> VarInt \<Rightarrow> VarInt" where
  "VarInt_plus bn lhs rhs = BN_add bn lhs rhs"

definition VarInt_minus :: "BN \<Rightarrow> VarInt \<Rightarrow> VarInt \<Rightarrow> VarInt" where
  "VarInt_minus bn lhs rhs = BN_sub bn lhs rhs"

subsection \<open>The header of an encoding\<close>


lemma power_split_le: "a \<le> b \<Longrightarrow> (2::nat) ^ b = 2 ^ (b - a) * 2 ^ a"
  by (simp flip: power_add)

lemma be_bytes_unique: "length xs = n \<Longrightarrow> be_val xs = v \<Longrightarrow> be_bytes n v = xs"
  using be_val_less [of xs] by (intro be_val_inj) (auto simp: be_val_be_bytes)

lemma be_val_small_head:
  assumes "be_val (d # ds) < k * 256 ^ length ds"
  shows "unat d < k"
proof (rule ccontr)
  assume "\<not> unat d < k"
  then have "k * 256 ^ length ds \<le> unat d * 256 ^ length ds" by (intro mult_le_mono1) simp
  then show False using assms unfolding be_val.simps by linarith
qed

lemma unat_mask_byte: "c \<le> 8 \<Longrightarrow> unat (mask c :: byte) = 2 ^ c - 1"
proof -
  assume "c \<le> 8"
  then have "uint (mask c :: byte) = 2 ^ c - 1"
    by (subst uint_mask_eq) (simp add: mask_eq_exp_minus_1 min_def)
  then have "nat (uint (mask c :: byte)) = nat (2 ^ c - 1)" by (rule arg_cong)
  then show ?thesis by (simp add: nat_diff_distrib nat_power_eq)
qed

lemma header_byte:
  fixes d :: byte
  assumes "1 \<le> k" and "k \<le> 8" and "unat d < 2 ^ (8 - k)"
  shows "unat (d OR (0xff XOR (push_bit (8 - k) 1 - 1))) = 256 - 2 ^ (8 - k) + unat d"
proof -
  let ?c = "8 - k"
  have m: "push_bit ?c 1 - 1 = (mask ?c :: byte)"
    by (simp add: mask_eq_exp_minus_1 push_bit_eq_mult)
  have n: "0xff XOR (push_bit ?c 1 - 1) = (NOT (mask ?c) :: byte)"
    unfolding m by (rule byte_xor_ff)
  have "take_bit ?c (NOT (mask ?c) :: byte) = 0"
    by (rule bit_word_eqI) (auto simp: bit_simps)
  then have "NOT (mask ?c) OR d = NOT (mask ?c) + d" by (rule or_disjoint [OF assms(3)])
  then have o: "d OR NOT (mask ?c) = NOT (mask ?c) + d" by (simp add: or.commute)
  have u: "unat (NOT (mask ?c) :: byte) = 256 - 2 ^ ?c"
    using unat_byte_NOT [of "mask ?c"] assms(1) power_increasing [of ?c 7 "2 :: nat"]
    by (simp add: unat_mask_byte)
  have "(2::nat) ^ ?c \<le> 2 ^ 8" by (intro power_increasing) auto
  then have "256 - 2 ^ ?c + unat d < (256::nat)" using assms(3) by simp
  then show ?thesis unfolding n o using u by (simp add: unat_word_ariths)
qed

lemma fill_ones_value:
  assumes "1 \<le> k" and "k \<le> 8 * length ds" and "be_val ds < 2 ^ (8 * length ds - k)"
  shows "fill_ones (length pre) k (pre @ ds) =
    pre @ be_bytes (length ds) (256 ^ length ds - 2 ^ (8 * length ds - k) + be_val ds)"
  using assms
proof (induction k arbitrary: pre ds rule: less_induct)
  case (less k)
  obtain d ds' where ds: "ds = d # ds'" using less.prems by (cases ds) auto
  let ?n = "length ds'"
  show ?case
  proof (cases "k > 8")
    case True
    then have e: "8 * length ds - k = 8 * ?n - (k - 8)" by (simp add: ds)
    have le: "(2::nat) ^ (8 * ?n - (k - 8)) \<le> 256 ^ ?n" unfolding power_256 by (intro power_increasing) auto
    have "be_val (d # ds') < 1 * 256 ^ ?n" using less.prems(3) le unfolding e by (simp add: ds)
    then have "unat d < 1" by (rule be_val_small_head)
    then have d: "d = 0" by (simp add: unat_eq_0)
    have v: "be_val ds' < 2 ^ (8 * ?n - (k - 8))" using less.prems(3) unfolding e by (simp add: ds d)
    have "fill_ones (length (pre @ [0xff])) (k - 8) ((pre @ [0xff]) @ ds') = (pre @ [0xff]) @
      be_bytes ?n (256 ^ ?n - 2 ^ (8 * ?n - (k - 8)) + be_val ds')"
      using True less.prems(1,2) by (intro less.IH [OF _ _ _ v]) (auto simp: ds)
    moreover have "fill_ones (length pre) k (pre @ ds) =
      fill_ones (length (pre @ [0xff])) (k - 8) ((pre @ [0xff]) @ ds')"
      using True by (subst fill_ones.simps) (simp add: ds)
    moreover have "be_bytes (length ds) (256 ^ length ds - 2 ^ (8 * length ds - k) + be_val ds) =
      0xff # be_bytes ?n (256 ^ ?n - 2 ^ (8 * ?n - (k - 8)) + be_val ds')"
      using le v unfolding e
      by (intro be_bytes_unique) (simp_all add: ds d be_val_be_bytes)
    ultimately show ?thesis by simp
  next
    case False
    have p: "(2::nat) ^ (8 * length ds - k) = 2 ^ (8 - k) * 256 ^ ?n"
      using False unfolding power_256 by (simp add: ds flip: power_add)
    have "unat d < 2 ^ (8 - k)"
      using less.prems(3) unfolding p by (intro be_val_small_head [of d ds']) (simp add: ds)
    define b where "b = d OR (0xff XOR (push_bit (8 - k) 1 - 1))"
    have h: "unat b = 256 - 2 ^ (8 - k) + unat d"
      unfolding b_def using \<open>unat d < 2 ^ (8 - k)\<close> False less.prems(1) by (intro header_byte) auto
    have "be_bytes (length ds) (256 ^ length ds - 2 ^ (8 * length ds - k) + be_val ds) = b # ds'"
      unfolding p
      by (intro be_bytes_unique) (simp_all add: ds h add_mult_distrib diff_mult_distrib)
    then show ?thesis using False by (subst fill_ones.simps) (simp add: ds b_def)
  qed
qed

subsection \<open>Reading a header\<close>


lemma strip_ones_table:
  "list_all (\<lambda>k. list_all (\<lambda>d. strip_ones (of_nat (256 - 2 ^ (8 - k) + d)) 0x80 0 = (of_nat d, k))
     [0..<2 ^ (7 - k)]) [0..<8]"
  by code_simp

lemma strip_ones_acc:
  "strip_ones b t (c + e) = (fst (strip_ones b t c), snd (strip_ones b t c) + e)"
proof (induction b t c rule: strip_ones.induct)
  case (1 b t c)
  show ?case
  proof (cases "b AND t \<noteq> 0")
    case True
    then show ?thesis using 1 [OF True] by (subst (1 2 3) strip_ones.simps) simp
  qed (subst (1 2 3) strip_ones.simps, simp)
qed

lemma strip_ones_eq:
  assumes "k < 8" and "d < 2 ^ (7 - k)"
  shows "strip_ones (of_nat (256 - 2 ^ (8 - k) + d)) 0x80 c = (of_nat d, c + k)"
  using strip_ones_table assms
    strip_ones_acc [of "of_nat (256 - 2 ^ (8 - k) + d)" "0x80" 0 c]
  by (simp add: list_all_iff)

lemma unat_of_nat_byte: "v < 256 \<Longrightarrow> unat (of_nat v :: byte) = v"
  by (simp add: unat_of_nat)

lemma unat_numeral_ff: "unat (0xff :: byte) = 255"
  by simp

lemma ones_split:
  assumes "k \<le> 8 * n" and "m < 2 ^ (8 * n - k)"
  defines "j \<equiv> k div 8" and "q \<equiv> n - k div 8"
  shows "be_bytes n (256 ^ n - 2 ^ (8 * n - k) + m) =
    replicate j 0xff @ be_bytes q (256 ^ q - 2 ^ (8 * q - k mod 8) + m)"
proof (rule be_bytes_unique)
  have jq: "j + q = n" using assms(1) unfolding j_def q_def by linarith
  have e: "8 * n - k = 8 * q - k mod 8" using assms(1) unfolding j_def q_def by presburger
  have le: "(2::nat) ^ (8 * q - k mod 8) \<le> 256 ^ q" unfolding power_256 by (intro power_increasing) auto
  have r: "be_val (replicate i (0xff :: byte)) = 256 ^ i - 1" for i
  proof (induction i)
    case (Suc i)
    have "unat (0xff :: byte) = 255" by simp
    then have "be_val (replicate (Suc i) (0xff :: byte)) = 255 * 256 ^ i + (256 ^ i - 1)"
      unfolding replicate_Suc be_val.simps Suc by simp
    then show ?case by simp
  qed simp
  have p: "(256::nat) ^ n = 256 ^ j * 256 ^ q" unfolding jq [symmetric] by (rule power_add)
  have "2 ^ (8 * q - k mod 8) \<le> 256 ^ j * (256::nat) ^ q" using le by (rule order_trans) simp
  then show "be_val (replicate j 0xff @ be_bytes q (256 ^ q - 2 ^ (8 * q - k mod 8) + m)) =
    256 ^ n - 2 ^ (8 * n - k) + m"
    using le assms(2) unfolding be_val_append r be_val_be_bytes e p
    by (simp add: diff_mult_distrib)
  show "length (replicate j (0xff :: byte) @ be_bytes q (256 ^ q - 2 ^ (8 * q - k mod 8) + m)) = n"
    using jq by simp
qed

lemma be_bytes_Suc_add:
  assumes "m < c * 256 ^ n" and "a + c \<le> 256"
  shows "be_bytes (Suc n) (a * 256 ^ n + m) = of_nat (a + m div 256 ^ n) # be_bytes n (m mod 256 ^ n)"
proof (rule be_bytes_unique)
  have "m div 256 ^ n < c" using assms(1) by (simp add: less_mult_imp_div_less)
  then have "unat (of_nat (a + m div 256 ^ n) :: byte) = a + m div 256 ^ n"
    using assms(2) by (simp add: unat_of_nat del: of_nat_add)
  then show "be_val (of_nat (a + m div 256 ^ n) # be_bytes n (m mod 256 ^ n)) = a * 256 ^ n + m"
    using div_mult_mod_eq [of m "256 ^ n"]
    by (simp only: be_val.simps be_val_be_bytes length_be_bytes mod_mod_trivial add_mult_distrib)
qed simp

lemma skip_full_bytes_replicate:
  assumes "b \<noteq> 0xff"
  shows "skip_full_bytes (pre @ replicate j 0xff @ b # rest) (length pre) c =
    Inr (length pre + j, c + 8 * j)"
proof (induction j arbitrary: pre c)
  case 0
  then show ?case using assms by (subst skip_full_bytes.simps) simp
next
  case (Suc j)
  show ?case using Suc [of "pre @ [0xff]" "c + 8"]
    by (subst skip_full_bytes.simps) (simp add: replicate_app_Cons_same)
qed


text \<open>Decoding a number behind a header of \<open>k\<close> ones and a zero.\<close>

lemma skip_and_strip:
  assumes "k < 8 * n" and "m < 2 ^ (8 * n - k - 1)"
  obtains j b bs where "j = k div 8" and "j < n"
    and "be_bytes n (256 ^ n - 2 ^ (8 * n - k) + m) = replicate j 0xff @ b # bs"
    and "b \<noteq> 0xff" and "\<forall>c. strip_ones b 0x80 c = (of_nat (m div 256 ^ length bs), c + k mod 8)"
    and "be_val (of_nat (m div 256 ^ length bs) # bs) = m" and "length bs = n - j - 1"
proof -
  let ?j = "k div 8" and ?q = "n - k div 8" and ?r = "k mod 8"
  have jn: "?j < n" using assms(1) by linarith
  then obtain p where p: "?q = Suc p" by (cases ?q) auto
  have r8: "?r < 8" by simp
  have "k = 8 * ?j + ?r" by simp
  then have e1: "8 * n - k - 1 = (7 - ?r) + 8 * p" using jn p r8 by linarith
  have m: "m < 2 ^ (7 - ?r) * 256 ^ p" using assms(2) unfolding e1 power_256 power_add .
  have d: "m div 256 ^ p < 2 ^ (7 - ?r)" using m by (simp add: less_mult_imp_div_less)
  have le: "2 ^ (8 - ?r) \<le> (256::nat)" using power_increasing [of "8 - ?r" 8 "2 :: nat"] by simp
  have "8 - ?r = Suc (7 - ?r)" using r8 by linarith
  then have two: "(2::nat) ^ (8 - ?r) = 2 * 2 ^ (7 - ?r)" by simp
  have mm: "m < 2 ^ (8 * n - k)" by (rule less_le_trans [OF assms(2)]) (intro power_increasing, auto)
  have e: "256 ^ ?q - 2 ^ (8 * ?q - ?r) + m = (256 - 2 ^ (8 - ?r)) * 256 ^ p + m"
  proof -
    have "8 * ?q - ?r = (8 - ?r) + 8 * p" using p r8 by linarith
    then have "2 ^ (8 * ?q - ?r) = 2 ^ (8 - ?r) * (256::nat) ^ p"
      unfolding power_256 power_add [symmetric] by (rule arg_cong)
    then show ?thesis by (simp add: p diff_mult_distrib)
  qed
  let ?b = "of_nat (256 - 2 ^ (8 - ?r) + m div 256 ^ p) :: byte"
  have bytes: "be_bytes n (256 ^ n - 2 ^ (8 * n - k) + m) =
    replicate ?j 0xff @ ?b # be_bytes p (m mod 256 ^ p)"
  proof -
    have "be_bytes ?q (256 ^ ?q - 2 ^ (8 * ?q - ?r) + m) = ?b # be_bytes p (m mod 256 ^ p)"
      unfolding e unfolding p using m le two by (intro be_bytes_Suc_add) auto
    then show ?thesis using ones_split [of k n m] assms(1) mm by (simp only: less_imp_le)
  qed
  have ub: "unat ?b = 256 - 2 ^ (8 - ?r) + m div 256 ^ p"
    by (rule unat_of_nat_byte) (use d le two in linarith)
  then have "unat ?b < 255" using d two le by linarith
  then have "?b \<noteq> 0xff" by (metis less_irrefl unat_numeral_ff)
  moreover have "\<forall>c. strip_ones ?b 0x80 c = (of_nat (m div 256 ^ p), c + ?r)"
    using strip_ones_eq [OF r8 d] by blast
  moreover have "be_val (of_nat (m div 256 ^ p) # be_bytes p (m mod 256 ^ p)) = m"
  proof -
    have "m div 256 ^ p < 256" using d le two by linarith
    then have "unat (of_nat (m div 256 ^ p) :: byte) = m div 256 ^ p" by (simp add: unat_of_nat)
    then show ?thesis by (simp add: be_val_be_bytes div_mult_mod_eq)
  qed
  moreover have "p = n - ?j - 1" using p by simp
  ultimately show ?thesis using that [OF refl jn bytes] by simp
qed

subsection \<open>The value of an encoding\<close>


definition varint_bytes :: "BN \<Rightarrow> VarInt \<Rightarrow> nat \<Rightarrow> nat" where
  "varint_bytes bn x r = (BN_num_bits bn x + 1 + r + 6) div 7"

lemma varint_bytes_bounds:
  assumes "BN_documented bn" and "x \<noteq> 0" and "r < 8"
  defines "N \<equiv> varint_bytes bn x r" and "m \<equiv> nat \<bar>x\<bar>"
  shows "1 \<le> N" and "r + 2 \<le> 7 * N" and "m < 2 ^ (7 * N - r - 1)"
    and "BN_num_bits bn x + 1 + r \<le> 7 * N" and "0 < m" and "8 * N - (N + r) = 7 * N - r"
    and "N + r < 8 * N" and "7 * N \<le> BN_num_bits bn x + 7 + r"
proof -
  let ?L = "BN_num_bits bn x"
  have m: "m < 2 ^ ?L" using assms(1) by (simp add: BN_documented_def m_def)
  show "0 < m" using assms(2) by (simp add: m_def)
  then have L: "1 \<le> ?L" using m by (cases ?L) auto
  show b: "?L + 1 + r \<le> 7 * N" unfolding N_def varint_bytes_def by linarith
  show "7 * N \<le> ?L + 7 + r" unfolding N_def varint_bytes_def by linarith
  show "1 \<le> N" "r + 2 \<le> 7 * N" using b L by linarith+
  have "(2::nat) ^ ?L \<le> 2 ^ (7 * N - r - 1)" using b by (intro power_increasing) auto
  then show "m < 2 ^ (7 * N - r - 1)" using m by linarith
  show "8 * N - (N + r) = 7 * N - r" "N + r < 8 * N" using b by linarith+
qed

text \<open>The number with the whole header: the reserved bits set too.\<close>

definition header_value :: "nat \<Rightarrow> nat \<Rightarrow> nat \<Rightarrow> nat" where
  "header_value N r m = 256 ^ N - 2 ^ (7 * N - r) + m"

definition code_value :: "nat \<Rightarrow> nat \<Rightarrow> bool \<Rightarrow> nat \<Rightarrow> nat" where
  "code_value N r negative m =
     (if negative then 2 ^ (7 * N - r) - 1 - m else 2 ^ (8 * N - r) - 2 ^ (7 * N - r) + m)"

lemma header_value_bound:
  assumes "m < 2 ^ (7 * N - r)"
  shows "header_value N r m < 256 ^ N" and "2 ^ (7 * N - r) \<le> (256::nat) ^ N"
proof -
  show "2 ^ (7 * N - r) \<le> (256::nat) ^ N" unfolding power_256 by (intro power_increasing) auto
  then show "header_value N r m < 256 ^ N" using assms by (simp add: header_value_def)
qed

lemma unflip_bytes: "map (\<lambda>b. NOT b) (be_bytes n v) = be_bytes n (256 ^ n - 1 - v)"
  if "v < 256 ^ n" for v n
proof (rule be_bytes_unique [symmetric])
  show "be_val (map (\<lambda>b. NOT b) (be_bytes n v)) = 256 ^ n - 1 - v"
    using be_val_map_NOT [of "be_bytes n v"] that by (simp add: be_val_be_bytes)
qed simp

lemma clear_reserved:
  assumes "1 \<le> n" and "1 \<le> r" and "r < 8"
  shows "(be_bytes n v)[0 := be_bytes n v ! 0 AND (push_bit (8 - r) 1 - 1)] =
    be_bytes n (v mod 2 ^ (8 * n - r))"
proof -
  obtain p where p: "n = Suc p" using assms(1) by (cases n) auto
  let ?d = "of_nat (v div 256 ^ p) :: byte"
  have m: "push_bit (8 - r) 1 - 1 = (mask (8 - r) :: byte)"
    by (simp add: mask_eq_exp_minus_1 push_bit_eq_mult)
  have "(2::nat) ^ (8 - r) dvd 256" using le_imp_power_dvd [of "8 - r" 8 "2 :: nat"] by simp
  then have u: "unat (?d AND mask (8 - r)) = v div 256 ^ p mod 2 ^ (8 - r)"
    by (simp add: unat_and_mask unat_of_nat mod_mod_cancel)
  have e: "(2::nat) ^ (8 * n - r) = 256 ^ p * 2 ^ (8 - r)"
    using assms(3) unfolding power_256 power_add [symmetric] by (simp add: p)
  have "be_bytes n (v mod 2 ^ (8 * n - r)) = (?d AND mask (8 - r)) # be_bytes p v"
  proof (rule be_bytes_unique)
    show "be_val ((?d AND mask (8 - r)) # be_bytes p v) = v mod 2 ^ (8 * n - r)"
      unfolding e mod_mult2_eq by (simp add: u be_val_be_bytes)
  qed (simp add: p)
  then show ?thesis unfolding m by (simp add: p)
qed


lemma header_value_mod:
  assumes "m < 2 ^ (7 * N - r)" and "r \<le> 7 * N"
  shows "header_value N r m mod 2 ^ (8 * N - r) = 2 ^ (8 * N - r) - 2 ^ (7 * N - r) + m"
proof -
  let ?a = "2 ^ (8 * N - r) :: nat" and ?b = "2 ^ (7 * N - r) :: nat"
  have le: "?b \<le> ?a" by (intro power_increasing) auto
  have "(256::nat) ^ N = 2 ^ r * ?a" using assms(2) unfolding power_256 power_add [symmetric] by simp
  moreover have "2 ^ r * ?a - ?b + m = (2 ^ r - 1) * ?a + (?a - ?b + m)"
  proof -
    have "?a \<le> 2 ^ r * ?a" by simp
    then have "2 ^ r * ?a = (2 ^ r - 1) * ?a + ?a" by (simp add: diff_mult_distrib)
    then show ?thesis using le by linarith
  qed
  ultimately have "header_value N r m = (2 ^ r - 1) * ?a + (?a - ?b + m)"
    by (simp only: header_value_def)
  moreover have "?a - ?b + m < ?a" using le assms(1) by linarith
  ultimately show ?thesis by (simp only: mod_mult_self3 mod_less)
qed

lemma VarInt_EncodeToComparable_value:
  assumes "BN_documented bn" and "x \<noteq> 0" and "r < 8"
  defines "N \<equiv> varint_bytes bn x r" and "m \<equiv> nat \<bar>x\<bar>"
  shows "VarInt_EncodeToComparable bn x r = be_bytes N (code_value N r (x < 0) m)"
proof -
  note b = varint_bytes_bounds [OF assms(1-3), folded N_def m_def]
  let ?L = "BN_num_bits bn x" and ?bin = "BN_bn2bin bn x"
  have lib: "\<not> BN_is_zero bn x" "BN_is_negative bn x \<longleftrightarrow> x < 0" "length ?bin = (?L + 7) div 8"
    "be_val ?bin = m"
    using assms(1,2) by (auto simp: BN_documented_def m_def)
  define pad where "pad = N * 7 - (?L + 1 + r)"
  have "?L + (1 + N + pad) + 8 - 1 = 8 * N + (7 - r)" using b(4) assms(3) unfolding pad_def by linarith
  then have wc: "(?L + (1 + N + pad) + 8 - 1) div 8 = N" by simp
  define offset where "offset = N - (?L + 7) div 8"
  have off: "offset + length ?bin = N" using b(4) unfolding offset_def lib(3) by linarith
  define ds where "ds = replicate offset 0 @ ?bin"
  have ds: "length ds = N" "be_val ds = m"
  proof -
    have "be_val (replicate i 0) = 0" for i by (induction i) auto
    then show "length ds = N" "be_val ds = m" using off by (simp_all add: ds_def be_val_append lib(4))
  qed
  have m: "m < 2 ^ (7 * N - r)"
    by (rule less_le_trans [OF b(3)]) (intro power_increasing, auto)
  have fill: "fill_ones 0 (N + r) ds = be_bytes N (header_value N r m)"
    using fill_ones_value [of "N + r" ds "[]"] b(1,6,7) m by (simp add: ds header_value_def)
  have data: "take offset (replicate N 0) @ ?bin @ drop (offset + length ?bin) (replicate N 0) = ds"
    using off by (simp add: ds_def min_def)
  note hb = header_value_bound [OF m]
  let ?v = "if x < 0 then 256 ^ N - 1 - header_value N r m else header_value N r m"
  have flip: "(if x < 0 then FlipBits (be_bytes N (header_value N r m))
      else be_bytes N (header_value N r m)) = be_bytes N ?v"
    using unflip_bytes [OF hb(1)] by (simp add: FlipBits_def)
  have v: "?v mod 2 ^ (8 * N - r) = code_value N r (x < 0) m"
  proof (cases "x < 0")
    case True
    have "256 ^ N - 1 - header_value N r m = 2 ^ (7 * N - r) - 1 - m"
      using hb m unfolding header_value_def by linarith
    moreover have "2 ^ (7 * N - r) \<le> (2::nat) ^ (8 * N - r)" by (intro power_increasing) auto
    then have "2 ^ (7 * N - r) - 1 - m < 2 ^ (8 * N - r)" using m by linarith
    ultimately show ?thesis using True by (simp add: code_value_def)
  next
    case False
    then show ?thesis using header_value_mod [OF m] b(2) by (simp add: code_value_def)
  qed
  have r0: "be_bytes N ?v = be_bytes N (code_value N r (x < 0) m)" if "r = 0"
  proof -
    have "?v < 256 ^ N" using hb(1) by auto
    then show ?thesis using v that by (simp add: power_256)
  qed
  have n: "(?L + 1 + r + 6) div 7 = N" by (simp add: N_def varint_bytes_def)
  have o: "N - (?L + 8 - 1) div 8 = offset" by (simp add: offset_def)
  have "VarInt_EncodeToComparable bn x r = (let data = be_bytes N ?v in
    if r \<noteq> 0 then data[0 := data ! 0 AND (push_bit (8 - r) 1 - 1)] else data)"
    unfolding VarInt_EncodeToComparable_def Let_def
    by (simp only: lib(1,2) n pad_def [symmetric] wc o data fill flip if_False)
  also have "\<dots> = be_bytes N (code_value N r (x < 0) m)"
    using clear_reserved [OF b(1) _ assms(3), of ?v] v r0 by (simp add: Let_def)
  finally show ?thesis .
qed

subsection \<open>Decoding\<close>


lemma set_reserved:
  assumes "1 \<le> n" and "1 \<le> r" and "r < 8"
  shows "(be_bytes n v)[0 := be_bytes n v ! 0 OR NOT (push_bit (8 - r) 1 - 1)] =
    be_bytes n (256 ^ n - 2 ^ (8 * n - r) + v mod 2 ^ (8 * n - r))"
proof -
  let ?m = "push_bit (8 - r) 1 - 1 :: byte"
  let ?c = "be_bytes n (v mod 2 ^ (8 * n - r))"
  obtain d ds where b: "be_bytes n v = d # ds" using assms(1) by (cases n) auto
  have c: "?c = (d AND ?m) # ds" using clear_reserved [OF assms, of v] by (simp add: b)
  have d: "d OR NOT ?m = (d AND ?m) OR (0xff XOR ?m)"
    unfolding byte_xor_ff by (rule bit_word_eqI) (auto simp: bit_simps)
  have "fill_ones 0 r ?c = be_bytes n (256 ^ n - 2 ^ (8 * n - r) + v mod 2 ^ (8 * n - r))"
  proof -
    have lt: "(2::nat) ^ (8 * n - r) \<le> 256 ^ n" unfolding power_256 by (intro power_increasing) auto
    have "v mod 2 ^ (8 * n - r) < 2 ^ (8 * n - r)" by simp
    then have "v mod 2 ^ (8 * n - r) < 256 ^ n" using lt by (rule less_le_trans)
    then have "be_val ?c = v mod 2 ^ (8 * n - r)" by (simp only: be_val_be_bytes mod_less)
    then show ?thesis using fill_ones_value [of r ?c "[]"] assms by simp
  qed
  moreover have "fill_ones 0 r ?c = (d OR NOT ?m) # ds"
    using assms(3) unfolding c d by (subst fill_ones.simps) simp
  ultimately show ?thesis unfolding b by simp
qed

lemma sign_bit_of_code:
  assumes "1 \<le> N" and "r < 7" and "v < 2 ^ (8 * N - r)"
  shows "be_bytes N v ! 0 AND drop_bit r 0x80 = 0 \<longleftrightarrow> v < 2 ^ (8 * N - r - 1)"
proof -
  obtain p where p: "N = Suc p" using assms(1) by (cases N) auto
  let ?d = "of_nat (v div 256 ^ p) :: byte"
  have "r = 0 \<or> r = 1 \<or> r = 2 \<or> r = 3 \<or> r = 4 \<or> r = 5 \<or> r = 6" using assms(2) by arith
  then have mask: "drop_bit r 0x80 = (2 ^ (7 - r) :: byte)"
    by (elim disjE) (simp_all add: drop_bit_eq_div)
  have e1: "(2::nat) ^ (8 * N - r) = 2 ^ (8 - r) * 256 ^ p"
    and e2: "(2::nat) ^ (8 * N - r - 1) = 2 ^ (7 - r) * 256 ^ p"
    using assms(2) unfolding power_256 power_add [symmetric] by (simp_all add: p)
  have lt: "v div 256 ^ p < 2 ^ (8 - r)" using assms(3) unfolding e1 by (rule less_mult_imp_div_less)
  moreover have "(2::nat) ^ (8 - r) \<le> 256" using power_increasing [of "8 - r" 8 "2 :: nat"] by simp
  ultimately have u: "unat ?d = v div 256 ^ p" by (intro unat_of_nat_byte) linarith
  have "?d AND 2 ^ (7 - r) = 0 \<longleftrightarrow> \<not> bit ?d (7 - r)" by (rule and_exp_eq_0_iff_not_bit)
  also have "\<dots> \<longleftrightarrow> unat ?d < 2 ^ (7 - r)"
  proof -
    have "8 - r = Suc (7 - r)" using assms(2) by linarith
    then have "unat ?d < 2 ^ Suc (7 - r)" using lt u by simp
    then show ?thesis using bit_top [of "7 - r" ?d] bit_above [of ?d "7 - r" "7 - r"]
      by (cases "unat ?d < 2 ^ (7 - r)") (auto simp: not_less)
  qed
  also have "\<dots> \<longleftrightarrow> v < 2 ^ (8 * N - r - 1)" unfolding u e2 by (simp add: div_less_iff_less_mult)
  finally show ?thesis by (simp add: mask p)
qed

lemma code_value_sign:
  assumes "m < 2 ^ (7 * N - r - 1)" and "1 \<le> N" and "r < 7 * N"
  shows "code_value N r negative m < 2 ^ (8 * N - r)"
    and "code_value N r negative m < 2 ^ (8 * N - r - 1) \<longleftrightarrow> negative"
proof -
  have a: "(2::nat) ^ (7 * N - r) = 2 * 2 ^ (7 * N - r - 1)"
    and b: "(2::nat) ^ (8 * N - r) = 2 * 2 ^ (8 * N - r - 1)"
    using assms(2,3) by (simp_all flip: power_Suc)
  have c: "(2::nat) ^ (7 * N - r) \<le> 2 ^ (8 * N - r - 1)"
    using assms(2) by (intro power_increasing) auto
  have "0 < (2::nat) ^ (7 * N - r - 1)" by simp
  then show "code_value N r negative m < 2 ^ (8 * N - r)"
    and "code_value N r negative m < 2 ^ (8 * N - r - 1) \<longleftrightarrow> negative"
    using a b c assms(1) unfolding code_value_def
    by (cases negative; simp only: if_True if_False simp_thms; linarith)+
qed


lemma normalised_buffer:
  fixes negative :: bool and rest :: bytes
  assumes "m < 2 ^ (7 * N - r - 1)" and "1 \<le> N" and "r < 7"
  defines "sl \<equiv> be_bytes N (code_value N r negative m) @ rest"
  defines "buf \<equiv> if negative then FlipBits sl else sl"
  shows "\<exists>rest'. (if r \<noteq> 0 then buf[0 := buf ! 0 OR NOT (push_bit (8 - r) 1 - 1)] else buf) =
    be_bytes N (header_value N r m) @ rest' \<and> length rest' = length rest"
proof -
  have r7: "r < 7 * N" "r \<le> 7 * N" using assms(2,3) by linarith+
  note cs = code_value_sign [OF assms(1,2) r7(1), of negative]
  have m: "m < 2 ^ (7 * N - r)"
    by (rule less_le_trans [OF assms(1)]) (intro power_increasing, auto)
  note hb = header_value_bound [OF m]
  have le: "(2::nat) ^ (8 * N - r) \<le> 256 ^ N" "(2::nat) ^ (7 * N - r) \<le> 2 ^ (8 * N - r)"
    unfolding power_256 by (intro power_increasing; simp)+
  let ?w = "if negative then header_value N r m else code_value N r negative m"
  define rest' where "rest' = (if negative then FlipBits rest else rest)"
  have buf: "buf = be_bytes N ?w @ rest'"
  proof (cases negative)
    case True
    have "256 ^ N - 1 - code_value N r negative m = header_value N r m"
      using True hb(2) m unfolding code_value_def header_value_def by simp
    moreover have "code_value N r negative m < 256 ^ N" using cs(1) le(1) by linarith
    ultimately show ?thesis
      using True unflip_bytes [of "code_value N r negative m" N]
      by (simp add: buf_def sl_def rest'_def FlipBits_def)
  qed (simp add: buf_def sl_def rest'_def)
  have w: "256 ^ N - 2 ^ (8 * N - r) + ?w mod 2 ^ (8 * N - r) = header_value N r m"
  proof -
    have "?w mod 2 ^ (8 * N - r) = 2 ^ (8 * N - r) - 2 ^ (7 * N - r) + m"
      using header_value_mod [OF m r7(2)] cs(1) unfolding code_value_def
      by (cases negative; simp only: if_True if_False mod_less)
    then show ?thesis using le m unfolding header_value_def by linarith
  qed
  have "(if r \<noteq> 0 then buf[0 := buf ! 0 OR NOT (push_bit (8 - r) 1 - 1)] else buf) =
    be_bytes N (header_value N r m) @ rest'"
  proof (cases "r = 0")
    case True
    then have "?w = header_value N r m" by (simp add: code_value_def header_value_def power_256)
    then show ?thesis using True buf by simp
  next
    case False
    have ne: "0 < length (be_bytes N ?w)" using assms(2) by simp
    have "buf[0 := buf ! 0 OR NOT (push_bit (8 - r) 1 - 1)] =
      (be_bytes N ?w)[0 := be_bytes N ?w ! 0 OR NOT (push_bit (8 - r) 1 - 1)] @ rest'"
      unfolding buf using ne by (simp add: list_update_append nth_append del: length_be_bytes)
    also have "\<dots> = be_bytes N (header_value N r m) @ rest'"
      using False assms(3) by (subst set_reserved [OF assms(2)]) (simp_all only: w)
    finally show ?thesis using False by simp
  qed
  moreover have "length rest' = length rest" by (simp add: rest'_def FlipBits_def)
  ultimately show ?thesis by blast
qed

lemma decode_code_value:
  assumes doc: "BN_documented bn"
    and "m < 2 ^ (7 * N - r - 1)" and "1 \<le> N" and "r < 7" 
  shows "VarInt_DecodeFromComparable bn (be_bytes N (code_value N r negative m) @ rest) r =
    Inr (if negative then - int m else int m, N)"
proof -
  let ?sl = "be_bytes N (code_value N r negative m) @ rest"
  let ?buf = "if negative then FlipBits ?sl else ?sl"
  let ?norm = "if r \<noteq> 0 then ?buf[0 := ?buf ! 0 OR NOT (push_bit (8 - r) 1 - 1)] else ?buf"
  have r7: "r < 7 * N" using assms(3,4) by linarith
  note cs = code_value_sign [OF assms(2,3) r7, of negative]
  obtain rest' where norm: "?norm = be_bytes N (header_value N r m) @ rest'"
    and len: "length rest' = length rest"
    using normalised_buffer [OF assms(2-4), of negative rest] by blast
  have ne: "be_bytes N (code_value N r negative m) \<noteq> []" using assms(3) by (cases N) auto
  have sign: "?sl ! 0 AND drop_bit r 0x80 = 0 \<longleftrightarrow> negative"
    using sign_bit_of_code [OF assms(3,4) cs(1)] cs(2) assms(3) by (simp add: nth_append)
  have k: "N + r < 8 * N" "8 * N - (N + r) = 7 * N - r" using r7 by linarith+
  have "m < 2 ^ (8 * N - (N + r) - 1)" unfolding k(2) by (rule assms(2))
  then obtain j b bs where j: "j = (N + r) div 8" "j < N"
    and h: "be_bytes N (header_value N r m) = replicate j 0xff @ b # bs"
    and b: "b \<noteq> 0xff" "\<forall>c. strip_ones b 0x80 c =
      (of_nat (m div 256 ^ length bs), c + (N + r) mod 8)"
      "be_val (of_nat (m div 256 ^ length bs) # bs) = m" "length bs = N - j - 1"
    unfolding header_value_def using skip_and_strip [OF k(1)] k(2) by metis
  let ?b = "of_nat (m div 256 ^ length bs) :: byte"
  have skip: "skip_full_bytes (replicate j 0xff @ b # bs @ rest') 0 0 = Inr (j, 8 * j)"
    using skip_full_bytes_replicate [OF b(1), of "[]" j "bs @ rest'" 0] by simp
  have ones: "8 * j + (N + r) mod 8 - r = N" unfolding j(1) by simp
  have tk: "take (N - j) (drop j ((replicate j 0xff @ b # bs @ rest')[j := ?b])) = ?b # bs"
    using b(4) j(2) by (simp add: list_update_append take_Cons')
  have lib: "BN_bin2bn bn (?b # bs) = int m" "BN_set_negative bn (int m) True = - int m"
    using doc b(3) by (simp_all add: BN_documented_def)
  have l: "length ?sl \<noteq> 0" "\<not> N > length ?sl" using ne assms(3) by simp_all
  have nj: "(replicate j 0xff @ b # bs @ rest') ! j = b" by (simp add: nth_append)
  show ?thesis
    unfolding VarInt_DecodeFromComparable_def Let_def sign norm h
    using l skip nj b(2) ones tk lib by (simp add: verify_result_def)
qed

subsection \<open>Round trip and order\<close>


lemma VarInt_code:
  fixes x :: VarInt
  assumes "BN_documented bn" and "r < 7"
  defines "N \<equiv> (if x = 0 then 1 else varint_bytes bn x r)" and "m \<equiv> nat \<bar>x\<bar>"
  shows "VarInt_EncodeToComparable bn x r = be_bytes N (code_value N r (x < 0) m)"
    and "1 \<le> N" and "m < 2 ^ (7 * N - r - 1)"
proof -
  have "VarInt_EncodeToComparable bn x r = be_bytes N (code_value N r (x < 0) m) \<and> 1 \<le> N \<and>
    m < 2 ^ (7 * N - r - 1)"
  proof (cases "x = 0")
    case True
    have "r = 0 \<or> r = 1 \<or> r = 2 \<or> r = 3 \<or> r = 4 \<or> r = 5 \<or> r = 6" using assms(2) by arith
    then have "drop_bit r 0x80 = (of_nat (2 ^ (8 - r) - 2 ^ (7 - r)) :: byte)"
      by (elim disjE) (simp_all add: drop_bit_eq_div)
    moreover have "BN_is_zero bn x" using assms(1) True by (simp add: BN_documented_def)
    ultimately show ?thesis
      using True by (simp add: VarInt_EncodeToComparable_def N_def m_def code_value_def)
  next
    case False
    then show ?thesis
      using VarInt_EncodeToComparable_value [OF assms(1) False] varint_bytes_bounds [OF assms(1) False]
        assms(2) by (simp add: N_def m_def)
  qed
  then show "VarInt_EncodeToComparable bn x r = be_bytes N (code_value N r (x < 0) m)"
    and "1 \<le> N" and "m < 2 ^ (7 * N - r - 1)" by auto
qed

lemma VarInt_DecodeFromComparable_encode:
  assumes "BN_documented bn" and "r < 7"
  shows "VarInt_DecodeFromComparable bn (VarInt_EncodeToComparable bn x r @ rest) r =
    Inr (x, length (VarInt_EncodeToComparable bn x r))"
proof -
  note c = VarInt_code [OF assms, of x]
  show ?thesis
    using decode_code_value [OF assms(1) c(3,2) assms(2), of "x < 0" rest] unfolding c(1) by simp
qed

lemma varint_bytes_mono:
  assumes "BN_documented bn" and "\<bar>x\<bar> \<le> \<bar>y\<bar>" and "y \<noteq> 0"
  shows "(if x = 0 then 1 else varint_bytes bn x r) \<le> varint_bytes bn y r"
proof -
  have "nat \<bar>x\<bar> \<le> nat \<bar>y\<bar>" using assms(2) by simp
  moreover have "nat \<bar>y\<bar> < 2 ^ BN_num_bits bn y" using assms(1) by (simp add: BN_documented_def)
  ultimately have "nat \<bar>x\<bar> < 2 ^ BN_num_bits bn y" by linarith
  then have "BN_num_bits bn x \<le> BN_num_bits bn y" using assms(1) by (simp add: BN_documented_def)
  then have "varint_bytes bn x r \<le> varint_bytes bn y r" by (simp add: varint_bytes_def div_le_mono)
  moreover have "1 \<le> varint_bytes bn y r" unfolding varint_bytes_def by linarith
  ultimately show ?thesis by simp
qed

lemma code_prec_nonneg:
  assumes "m < 2 ^ (7 * N - r - 1)" and "m' < 2 ^ (7 * N' - r - 1)" and "1 \<le> N" and "r < 7"
    and "N < N' \<or> N = N' \<and> m < m'"
  shows "bytes_prec (be_bytes N (code_value N r False m)) (be_bytes N' (code_value N' r False m'))"
proof -
  let ?v = "code_value N r False m" and ?w = "code_value N' r False m'"
  have N': "1 \<le> N'" "r < 7 * N'" "r < 7 * N" using assms(3-5) by linarith+
  have le: "(2::nat) ^ (8 * i - r) \<le> 256 ^ i" for i unfolding power_256 by (intro power_increasing) auto
  have v: "?v < 256 ^ N" using code_value_sign(1) [OF assms(1,3) N'(3), of False] le [of N] by linarith
  have w: "?w < 256 ^ N'" using code_value_sign(1) [OF assms(2) N'(1,2), of False] le [of N'] by linarith
  show ?thesis
  proof (cases "N = N'")
    case True
    then have "?v < ?w" using assms(5) by (simp add: code_value_def del: Nat.add_diff_assoc2 Nat.diff_add_assoc2)
    then show ?thesis using True v w
      by (subst bytes_prec_same_length) (simp_all add: bytes_less_be_val be_val_be_bytes)
  next
    case False
    then have lt: "N < N'" using assms(5) by simp
    let ?d = "N' - N"
    have h: "(2::nat) ^ (7 * N - r) = 2 * 2 ^ (7 * N - r - 1)" using N'(3) by (simp flip: power_Suc)
    have a: "(2::nat) ^ (7 * N - r) \<le> 2 ^ (8 * N - r)" "(2::nat) ^ (7 * N' - r) \<le> 2 ^ (8 * N' - r)"
      by (intro power_increasing; simp)+
    have "?v + 1 \<le> 2 ^ (8 * N - r) - 2 ^ (7 * N - r - 1)"
      using h a(1) assms(1) unfolding code_value_def if_False by linarith
    then have "(?v + 1) * 256 ^ ?d \<le> (2 ^ (8 * N - r) - 2 ^ (7 * N - r - 1)) * 256 ^ ?d"
      by (rule mult_le_mono1)
    also have "\<dots> = 2 ^ (8 * N' - r) - 2 ^ (7 * N - r - 1 + 8 * ?d)"
    proof -
      have "8 * N' - r = 8 * N - r + 8 * ?d" using lt N'(3) by linarith
      then show ?thesis by (simp only: diff_mult_distrib power_256 power_add)
    qed
    also have "\<dots> \<le> 2 ^ (8 * N' - r) - 2 ^ (7 * N' - r)"
    proof -
      have "7 * N' - r \<le> 7 * N - r - 1 + 8 * ?d" using lt N'(3) by linarith
      then have "(2::nat) ^ (7 * N' - r) \<le> 2 ^ (7 * N - r - 1 + 8 * ?d)" by (intro power_increasing) auto
      then show ?thesis by (rule diff_le_mono2)
    qed
    also have "\<dots> \<le> ?w" by (simp add: code_value_def)
    finally show ?thesis using lt v w
      by (intro bytes_prec_be_val) (simp_all add: be_val_be_bytes add_mult_distrib)
  qed
qed

lemma header_prec:
  assumes "m < 2 ^ (7 * N - r - 1)" and "m' < 2 ^ (7 * N' - r - 1)" and "1 \<le> N" and "r < 7"
    and "N < N' \<or> N = N' \<and> m < m'"
  shows "bytes_prec (be_bytes N (header_value N r m)) (be_bytes N' (header_value N' r m'))"
proof -
  have N': "1 \<le> N'" "r < 7 * N'" "r < 7 * N" using assms(3-5) by linarith+
  have bound: "header_value i r n < 256 ^ i" if "n < 2 ^ (7 * i - r - 1)" for i n
    using that power_increasing [of "7 * i - r - 1" "7 * i - r" "2 :: nat"]
    by (intro header_value_bound(1)) linarith
  note v = bound [OF assms(1)] and w = bound [OF assms(2)]
  show ?thesis
  proof (cases "N = N'")
    case True
    then have "header_value N r m < header_value N' r m'" using assms(5) by (simp add: header_value_def)
    then show ?thesis using True v w
      by (subst bytes_prec_same_length) (simp_all add: bytes_less_be_val be_val_be_bytes)
  next
    case False
    then have lt: "N < N'" using assms(5) by simp
    have e: "8 * i - (i + r) = 7 * i - r" for i by simp
    show ?thesis
    proof (rule prefix_code_prec [where a = "N + r" and b = "N' + r" and u = m and w = m'])
      show "m < 2 ^ (8 * length (be_bytes N (header_value N r m)) - (N + r) - 1)"
        using assms(1) by (simp add: e)
    qed (use v w lt N' in \<open>simp_all add: be_val_be_bytes header_value_def e\<close>)
  qed
qed

lemma code_value_negative:
  assumes "m < 2 ^ (7 * N - r - 1)"
  shows "be_bytes N (code_value N r True m) = map (\<lambda>b. NOT b) (be_bytes N (header_value N r m))"
proof -
  have m: "m < 2 ^ (7 * N - r)"
    using assms power_increasing [of "7 * N - r - 1" "7 * N - r" "2 :: nat"] by linarith
  note hb = header_value_bound [OF m]
  have "256 ^ N - 1 - header_value N r m = code_value N r True m"
    using hb m unfolding header_value_def code_value_def by simp
  then show ?thesis using unflip_bytes [OF hb(1)] by simp
qed

lemma code_prec_sign:
  assumes "m < 2 ^ (7 * N - r - 1)" and "m' < 2 ^ (7 * N' - r - 1)" and "1 \<le> N" and "1 \<le> N'" and "r < 7"
  shows "bytes_prec (be_bytes N (code_value N r True m)) (be_bytes N' (code_value N' r False m'))"
proof -
  have first: "\<exists>d ds. be_bytes i v = d # ds \<and> unat d = v div 256 ^ (i - 1)"
    if v: "v < 2 ^ (8 * i - r)" and i: "1 \<le> i" for i v
  proof -
    obtain p where p: "i = Suc p" using i by (cases i) auto
    have "v < 256 ^ i" using v power_increasing [of "8 * i - r" "8 * i" "2 :: nat"]
      unfolding power_256 by linarith
    then have "v div 256 ^ p < 256" by (simp add: p less_mult_imp_div_less)
    then show ?thesis using p by (simp add: unat_of_nat_byte)
  qed
  have e: "(2::nat) ^ (8 * i - r - 1) = 2 ^ (7 - r) * 256 ^ (i - 1)" if "1 \<le> i" for i
    using that assms(5) unfolding power_256 power_add [symmetric] by (intro arg_cong [of _ _ "power 2"]) linarith
  have r7: "r < 7 * N" "r < 7 * N'" using assms(3-5) by linarith+
  note a = code_value_sign [OF assms(1,3) r7(1), of True]
  note b = code_value_sign [OF assms(2,4) r7(2), of False]
  obtain d ds where d: "be_bytes N (code_value N r True m) = d # ds"
    "unat d = code_value N r True m div 256 ^ (N - 1)" using first [OF a(1) assms(3)] by blast
  obtain c cs where c: "be_bytes N' (code_value N' r False m') = c # cs"
    "unat c = code_value N' r False m' div 256 ^ (N' - 1)" using first [OF b(1) assms(4)] by blast
  have "unat d < 2 ^ (7 - r)" unfolding d(2) using a(2) e [OF assms(3)]
    by (intro less_mult_imp_div_less) simp
  moreover have "2 ^ (7 - r) \<le> unat c" unfolding c(2) using b(2) e [OF assms(4)]
    by (simp add: not_less less_eq_div_iff_mult_less_eq)
  ultimately have "d < c" by (simp add: word_less_nat_alt)
  then show ?thesis by (simp add: d c)
qed

lemma VarInt_EncodeToComparable_prec:
  assumes "BN_documented bn" and "r < 7" and "x < y"
  shows "bytes_prec (VarInt_EncodeToComparable bn x r) (VarInt_EncodeToComparable bn y r)"
proof -
  define N m where "N = (if x = 0 then 1 else varint_bytes bn x r)" and "m = nat \<bar>x\<bar>"
  define N' m' where "N' = (if y = 0 then 1 else varint_bytes bn y r)" and "m' = nat \<bar>y\<bar>"
  note a = VarInt_code [OF assms(1,2), of x, folded N_def m_def]
  note b = VarInt_code [OF assms(1,2), of y, folded N'_def m'_def]
  consider "x < 0" "0 \<le> y" | "0 \<le> x" | "y < 0" using assms(3) by linarith
  then show ?thesis
  proof cases
    case 1
    then show ?thesis unfolding a(1) b(1)
      using code_prec_sign [OF a(3) b(3) a(2) b(2) assms(2)] by simp
  next
    case 2
    have "N \<le> N'"
      using varint_bytes_mono [OF assms(1), of x y r] 2 assms(3) by (simp add: N_def N'_def)
    moreover have "m < m'" using 2 assms(3) by (simp add: m_def m'_def)
    moreover have "\<not> x < 0" "\<not> y < 0" using 2 assms(3) by simp_all
    ultimately show ?thesis unfolding a(1) b(1)
      using code_prec_nonneg [OF a(3) b(3) a(2) assms(2)] by (simp add: le_less)
  next
    case 3
    have "N' \<le> N"
      using varint_bytes_mono [OF assms(1), of y x r] 3 assms(3) by (simp add: N_def N'_def)
    moreover have "m' < m" using 3 assms(3) by (simp add: m_def m'_def)
    moreover have "x < 0" "y < 0" using 3 assms(3) by simp_all
    ultimately show ?thesis unfolding a(1) b(1)
      using header_prec [OF b(3) a(3) b(2) assms(2)]
        code_value_negative [OF a(3)] code_value_negative [OF b(3)]
      by (simp add: le_less bytes_prec_map_NOT)
  qed
qed




subsection \<open>Two's complement\<close>

lemma trailing_run:
  assumes "\<exists>x \<in> set data. x \<noteq> old"
  obtains pre b k where "data = pre @ b # replicate k old" and "b \<noteq> old"
proof -
  have "\<exists>pre b k. data = pre @ b # replicate k old \<and> b \<noteq> old"
    using assms
  proof (induction data rule: rev_induct)
    case (snoc x xs)
    show ?case
    proof (cases "x = old")
      case True
      then obtain pre b k where "xs = pre @ b # replicate k old" "b \<noteq> old" using snoc by auto
      then have "xs @ [x] = pre @ b # replicate (Suc k) old"
        using True by (simp add: replicate_append_same)
      then show ?thesis using \<open>b \<noteq> old\<close> by blast
    next
      case False
      then have "xs @ [x] = xs @ x # replicate 0 old" by simp
      then show ?thesis using False by blast
    qed
  qed simp
  then show thesis using that by blast
qed

lemma carry_up_run:
  assumes "b \<noteq> old"
  shows "carry_up old new (length pre + 1 + k) (pre @ b # replicate k old @ post) =
    Some (length pre, pre @ b # replicate k new @ post)"
proof (induction k arbitrary: post)
  case 0
  then show ?case using assms by simp
next
  case (Suc k)
  have r: "replicate (Suc k) c @ p = replicate k c @ c # p" for c :: byte and p
    by (simp add: replicate_app_Cons_same)
  have "(pre @ b # replicate k old @ old # post) ! (length pre + 1 + k) = old"
    by (simp add: nth_append)
  moreover have "(pre @ b # replicate k old @ old # post)[length pre + 1 + k := new] =
    pre @ b # replicate k old @ new # post"
    by (simp add: list_update_append)
  ultimately show ?case using Suc [of "new # post"] unfolding r by simp
qed

lemma be_val_ones: "be_val (replicate k (0xff :: byte)) = 256 ^ k - 1"
proof (induction k)
  case (Suc k)
  have "be_val (replicate (Suc k) (0xff :: byte)) = 255 * 256 ^ k + (256 ^ k - 1)"
    unfolding replicate_Suc be_val.simps Suc unat_numeral_ff by simp
  then show ?case by simp
qed simp

lemma be_val_zeros: "be_val (replicate k (0 :: byte)) = 0"
  by (induction k) auto

lemma increment_bytes:
  assumes "be_val data < 256 ^ length data - 1"
  obtains pos data' where "carry_up 0xff 0 (length data) data = Some (pos, data')"
    and "length data' = length data" and "pos < length data"
    and "be_val (data'[pos := data' ! pos + 1]) = be_val data + 1"
    and "1 < length data \<longrightarrow> data ! 0 = 0xff \<longrightarrow> 0 < pos"
proof -
  have "\<exists>x \<in> set data. x \<noteq> 0xff"
  proof (rule ccontr)
    assume "\<not> ?thesis"
    then have "data = replicate (length data) 0xff" by (simp add: replicate_length_same [symmetric])
    then have "be_val data = 256 ^ length data - 1" using be_val_ones by metis
    then show False using assms by simp
  qed
  then obtain pre b k where d: "data = pre @ b # replicate k 0xff" and b: "b \<noteq> 0xff"
    by (rule trailing_run)
  have c: "carry_up 0xff 0 (length data) data = Some (length pre, pre @ b # replicate k 0)"
    using carry_up_run [OF b, of 0 pre k "[]"] by (simp add: d)
  have "unat b < 256" "unat b \<noteq> 255"
    using b unat_byte_less [of b] unat_numeral_ff by (auto simp: word_unat_eq_iff)
  then have ub: "unat (b + 1) = unat b + 1" by (simp add: unat_word_ariths)
  have "be_val ((b + 1) # replicate k 0) = be_val (b # replicate k 0xff) + 1"
    unfolding be_val.simps ub be_val_ones be_val_zeros by simp
  then have "be_val ((pre @ b # replicate k 0)[length pre := (pre @ b # replicate k 0) ! length pre + 1])
    = be_val data + 1"
    by (simp add: d be_val_append list_update_append nth_append del: be_val.simps)
  moreover have "1 < length data \<longrightarrow> data ! 0 = 0xff \<longrightarrow> 0 < length pre"
    using b by (cases pre) (auto simp: d)
  ultimately show thesis using that [OF c] by (simp add: d)
qed

lemma decrement_bytes:
  assumes "0 < be_val data"
  obtains pos data' where "carry_up 0 0xff (length data) data = Some (pos, data')"
    and "length data' = length data"
    and "be_val (data'[pos := data' ! pos - 1]) = be_val data - 1"
proof -
  have "\<exists>x \<in> set data. x \<noteq> 0"
  proof (rule ccontr)
    assume "\<not> ?thesis"
    then have "data = replicate (length data) 0" by (simp add: replicate_length_same [symmetric])
    then have "be_val data = 0" using be_val_zeros by metis
    then show False using assms by simp
  qed
  then obtain pre b k where d: "data = pre @ b # replicate k 0" and b: "b \<noteq> 0"
    by (rule trailing_run)
  have c: "carry_up 0 0xff (length data) data = Some (length pre, pre @ b # replicate k 0xff)"
    using carry_up_run [OF b, of "0xff" pre k "[]"] by (simp add: d)
  have b0: "0 < unat b" using b by (simp add: unat_gt_0)
  then have ub: "unat (b - 1) = unat b - 1" by (metis One_nat_def Suc_pred' diff_Suc_1 unat_minus_one b)
  have "1 * 256 ^ k \<le> unat b * 256 ^ k" using b0 by (intro mult_le_mono1) simp
  then have "be_val ((b - 1) # replicate k 0xff) + 1 = be_val (b # replicate k 0)"
    unfolding be_val.simps ub be_val_ones be_val_zeros by (simp add: diff_mult_distrib)
  then have "be_val ((pre @ b # replicate k 0xff)[length pre :=
      (pre @ b # replicate k 0xff) ! length pre - 1]) = be_val data - 1"
    by (simp add: d be_val_append list_update_append nth_append del: be_val.simps)
  then show thesis using that [OF c] by (simp add: d)
qed

lemma byte_sign: "d AND 0x80 = 0 \<longleftrightarrow> unat d < 128" for d :: byte
proof -
  have "d AND 2 ^ 7 = 0 \<longleftrightarrow> \<not> bit d 7" by (rule and_exp_eq_0_iff_not_bit)
  also have "\<dots> \<longleftrightarrow> unat d < 2 ^ 7"
    using bit_top [of 7 d] bit_above [of d 7 7] unat_byte_less [of d]
    by (cases "unat d < 2 ^ 7") (auto simp: not_less)
  finally show ?thesis by simp
qed

lemma first_byte_sign:
  assumes "ds \<noteq> []"
  shows "ds ! 0 AND 0x80 = 0 \<longleftrightarrow> be_val ds < 128 * 256 ^ (length ds - 1)"
proof -
  obtain d es where d: "ds = d # es" using assms by (cases ds) auto
  have "unat d < 128 \<longleftrightarrow> unat d * 256 ^ length es + be_val es < 128 * 256 ^ length es"
  proof
    assume "unat d < 128"
    then show "unat d * 256 ^ length es + be_val es < 128 * 256 ^ length es"
      using digit_less [of "unat d" 128 "be_val es" "256 ^ length es" 0] be_val_less [of es] by simp
  next
    assume "unat d * 256 ^ length es + be_val es < 128 * 256 ^ length es"
    then show "unat d < 128" using be_val_small_head [of d es 128] by simp
  qed
  then show ?thesis by (simp add: d byte_sign)
qed

lemma DecodeFromTwosComplement_nonneg:
  assumes "BN_documented bn" and "ds \<noteq> []" and "be_val ds < 128 * 256 ^ (length ds - 1)"
  shows "VarInt_DecodeFromTwosComplement bn ds = Inr (int (be_val ds))"
  using assms first_byte_sign [OF assms(2)]
  by (simp add: VarInt_DecodeFromTwosComplement_def BN_documented_def)

lemma DecodeFromTwosComplement_neg:
  assumes doc: "BN_documented bn" and "ds \<noteq> []" and v: "be_val ds + m = 256 ^ length ds"
    and m: "1 \<le> m" "m \<le> 128 * 256 ^ (length ds - 1)"
  shows "VarInt_DecodeFromTwosComplement bn ds = Inr (- int m)"
proof -
  obtain d es where d: "ds = d # es" using assms(2) by (cases ds) auto
  have s: "ds ! 0 AND 0x80 \<noteq> 0" using first_byte_sign [OF assms(2)] v m(2) by (simp add: d)
  have "0 < be_val ds"
  proof -
    have "m \<le> 128 * 256 ^ length es" "(256::nat) ^ length ds = 256 * 256 ^ length es"
      using m(2) by (simp_all add: d)
    moreover have "(0::nat) < 256 ^ length es" by simp
    ultimately show ?thesis using v by linarith
  qed
  then obtain pos data' where c: "carry_up 0 0xff (length ds) ds = Some (pos, data')"
    and l: "length data' = length ds" and b: "be_val (data'[pos := data' ! pos - 1]) = be_val ds - 1"
    by (rule decrement_bytes)
  have "be_val (FlipBits (data'[pos := data' ! pos - 1])) = m"
    using be_val_map_NOT [of "data'[pos := data' ! pos - 1]"] b l v m(1) \<open>0 < be_val ds\<close>
    by (simp add: FlipBits_def)
  then show ?thesis using doc s c assms(2)
    by (simp add: VarInt_DecodeFromTwosComplement_def Let_def BN_documented_def)
qed

lemma carry_up_cleared:
  "carry_up old new n data = Some (pos, data') \<Longrightarrow> n \<le> length data \<Longrightarrow> pos < j \<Longrightarrow> j < n \<Longrightarrow>
   data' ! j = new"
proof (induction n arbitrary: data)
  case (Suc n)
  have keep: "carry_up old new k d = Some (pos, data') \<Longrightarrow> k \<le> i \<Longrightarrow> data' ! i = d ! i" for k d i
    by (induction k arbitrary: d) (auto split: if_splits)
  show ?case
  proof (cases "j = n")
    case True
    then show ?thesis using Suc.prems keep [of n "data[n := new]" n] by (auto split: if_splits)
  next
    case False
    then show ?thesis using Suc.prems Suc.IH [of "data[n := new]"] by (auto split: if_splits)
  qed
qed simp

text \<open>The number in whole bytes, before the two's complement is taken.\<close>

lemma EncodeToTwosComplement_pieces:
  assumes doc: "BN_documented bn" and "x \<noteq> 0"
  obtains c ds and offset :: nat where "length ds = Suc c" and "be_val ds = nat \<bar>x\<bar>"
    and "nat \<bar>x\<bar> < 128 * 256 ^ c" and "c = 0 \<or> 128 * 256 ^ (c - 1) \<le> nat \<bar>x\<bar>"
    and "if offset = 1 then 1 \<le> c \<and> nat \<bar>x\<bar> < 256 ^ c else 256 ^ c \<le> nat \<bar>x\<bar>"
    and "VarInt_EncodeToTwosComplement bn x =
      (if x < 0 then
         case carry_up 0xff 0 (length ds) (FlipBits ds) of None \<Rightarrow> Inl Undefined
         | Some (pos, data) \<Rightarrow>
             let data = data[pos := data ! pos + 1]
             in Inr (if offset = 1 \<and> pos > 0 \<and> data ! 1 AND 0x80 \<noteq> 0 then tl data else data)
       else Inr ds)"
proof -
  define L m where "L = BN_num_bits bn x" and "m = nat \<bar>x\<bar>"
  define offset :: nat where "offset = (if L mod 8 = 0 then 1 else 0)"
  define c where "c = L div 8"
  have lib: "\<not> BN_is_zero bn x" "BN_is_negative bn x \<longleftrightarrow> x < 0"
    "length (BN_bn2bin bn x) = (L + 7) div 8" "be_val (BN_bn2bin bn x) = m" "m < 2 ^ L" "0 < m"
    and least: "\<And>k. m < 2 ^ k \<Longrightarrow> L \<le> k"
    using doc assms(2) by (auto simp: BN_documented_def m_def L_def)
  have "(0::nat) < L" using lib(5,6) by (cases L) auto
  then have low: "2 ^ (L - 1) \<le> m" using least [of "L - 1"] by linarith
  have Lc: "L = 8 * c + L mod 8" by (simp add: c_def)
  have cnt: "(L + 8 - 1) div 8 + offset = Suc c"
  proof -
    define q s where "q = L div 8" and "s = L mod 8"
    have L: "L = 8 * q + s" "s < 8" by (simp_all add: q_def s_def)
    have "(8 * q + s + 8 - 1) div 8 = (if s = 0 then q else Suc q)"
      using L(2) by (auto intro!: div_nat_eqI)
    then show ?thesis unfolding offset_def c_def q_def [symmetric] s_def [symmetric]
      using L(1) by simp
  qed
  define ds where "ds = replicate offset 0 @ BN_bn2bin bn x"
  have ds: "length ds = Suc c" "be_val ds = m"
    using cnt lib(3,4) by (simp_all add: ds_def be_val_append be_val_zeros)
  have data: "take offset (replicate (Suc c) 0) @ BN_bn2bin bn x @
      drop (offset + length (BN_bn2bin bn x)) (replicate (Suc c) 0) = ds"
    using ds(1) by (auto simp: ds_def min_def simp del: replicate_Suc)
  have "(2::nat) ^ L \<le> 2 ^ (7 + 8 * c)" unfolding c_def by (intro power_increasing) simp_all
  then have m128: "m < 128 * 256 ^ c" using lib(5) by (simp add: power_add power_256)
  have pow: "2 ^ k \<le> m" if "k < L" for k
  proof -
    have "(2::nat) ^ k \<le> 2 ^ (L - 1)" using that by (intro power_increasing) auto
    then show ?thesis using low by linarith
  qed
  have b1: "c = 0 \<or> 128 * 256 ^ (c - 1) \<le> m"
  proof (cases c)
    case (Suc k)
    have "(2::nat) ^ (7 + 8 * k) \<le> m" using Lc Suc by (intro pow) simp
    then show ?thesis by (simp add: Suc power_add power_256)
  qed simp
  have b2: "if offset = 1 then 1 \<le> c \<and> m < 256 ^ c else 256 ^ c \<le> m"
  proof (cases "L mod 8 = 0")
    case True
    then show ?thesis using Lc lib(5) \<open>0 < L\<close> by (simp add: offset_def power_256)
  next
    case False
    then show ?thesis using pow [of "8 * c"] Lc by (simp add: offset_def power_256)
  qed
  show thesis
  proof (rule that [of ds c offset, folded m_def])
    show "VarInt_EncodeToTwosComplement bn x =
      (if x < 0 then
         case carry_up 0xff 0 (length ds) (FlipBits ds) of None \<Rightarrow> Inl Undefined
         | Some (pos, data) \<Rightarrow>
             let data = data[pos := data ! pos + 1]
             in Inr (if offset = 1 \<and> pos > 0 \<and> data ! 1 AND 0x80 \<noteq> 0 then tl data else data)
       else Inr ds)"
      unfolding VarInt_EncodeToTwosComplement_def Let_def L_def [symmetric]
      by (simp only: lib(1,2) if_False offset_def [symmetric] cnt data)
  qed (use ds m128 b1 b2 in simp_all)
qed

text \<open>Its two's complement, of which the encoder may drop the first byte.\<close>

lemma negated_bytes:
  assumes "length ds = Suc c" and "be_val ds = m" and "0 < m"
  obtains pos data where "carry_up 0xff 0 (length ds) (FlipBits ds) = Some (pos, data)"
    and "length (data[pos := data ! pos + 1]) = Suc c"
    and "be_val (data[pos := data ! pos + 1]) + m = 256 ^ Suc c"
    and "pos = 0 \<Longrightarrow> 1 \<le> c \<Longrightarrow> data[pos := data ! pos + 1] ! 1 = 0"
proof -
  have fl: "length (FlipBits ds) = Suc c" "be_val (FlipBits ds) + m + 1 = 256 ^ Suc c"
    using be_val_map_NOT [of ds] assms by (simp_all add: FlipBits_def)
  have "be_val (FlipBits ds) < 256 ^ length (FlipBits ds) - 1" using fl assms(3) by simp
  then obtain pos data where p: "carry_up 0xff 0 (length (FlipBits ds)) (FlipBits ds) = Some (pos, data)"
    "length data = length (FlipBits ds)" "be_val (data[pos := data ! pos + 1]) = be_val (FlipBits ds) + 1"
    by (rule increment_bytes)
  have z: "data[pos := data ! pos + 1] ! 1 = 0" if "pos = 0" "1 \<le> c"
    using carry_up_cleared [OF p(1), of 1] that fl(1) by simp
  show thesis by (rule that [of pos data]) (use p fl assms z in simp_all)
qed

lemma drop_sign_byte:
  assumes e: "length e = Suc c" "be_val e + m = 256 ^ Suc c" and m: "0 < m" "m < 256 ^ c"
  shows "be_val (tl e) + m = 256 ^ c"
    and "e ! 1 AND 0x80 \<noteq> 0 \<longleftrightarrow> m \<le> 128 * 256 ^ (c - 1)"
proof -
  obtain f es where f: "e = f # es" using e(1) by (cases e) auto
  have les: "length es = c" using e(1) f by simp
  have "255 * 256 ^ c \<le> be_val e" using e(2) m(2) by simp
  then have "\<not> unat f < 255"
    using digit_less [of "unat f" 255 "be_val es" "256 ^ c" 0] be_val_less [of es] les f by auto
  then have "unat f = 255" using unat_byte_less [of f] by linarith
  then have es: "be_val es + m = 256 ^ c" using e(2) f les by simp
  then show "be_val (tl e) + m = 256 ^ c" by (simp add: f)
  have ne: "es \<noteq> []" using les m by (cases c) auto
  then have "(256::nat) ^ c = 256 * 256 ^ (c - 1)" using les by (cases c) auto
  then show "e ! 1 AND 0x80 \<noteq> 0 \<longleftrightarrow> m \<le> 128 * 256 ^ (c - 1)"
    using first_byte_sign [OF ne] es les by (auto simp: f)
qed

text \<open>
  The encoding is decoded, and it is the shortest: the number does not fit one byte less.
\<close>

definition least_length :: "int \<Rightarrow> nat \<Rightarrow> bool" where
  "least_length x n \<longleftrightarrow> n = 1 \<or> \<not> (- (128 * 256 ^ (n - 2)) \<le> x \<and> x < 128 * 256 ^ (n - 2))"

lemma least_length_neg: "n = 1 \<or> (\<exists>k. n = Suc (Suc k) \<and> 128 * 256 ^ k < m) \<Longrightarrow> least_length (- int m) n"
proof (elim disjE exE conjE)
  fix k assume "n = Suc (Suc k)" and "128 * 256 ^ k < m"
  moreover from this(2) have "int (128 * 256 ^ k) < int m" by (simp only: of_nat_less_iff)
  ultimately show ?thesis by (simp add: least_length_def)
qed (simp add: least_length_def)

lemma twos_complement_negative:
  assumes doc: "BN_documented bn" and neg: "x < 0"
  obtains ds where "VarInt_EncodeToTwosComplement bn x = Inr ds"
    and "VarInt_DecodeFromTwosComplement bn ds = Inr x" and "least_length x (length ds)"
proof -
  define m where "m = nat \<bar>x\<bar>"
  have m0: "0 < m" and x: "x = - int m" and "x \<noteq> 0" using neg by (simp_all add: m_def)
  from EncodeToTwosComplement_pieces [OF doc \<open>x \<noteq> 0\<close>, folded m_def] obtain c ds and offset :: nat where
    p: "length ds = Suc c" "be_val ds = m" "m < 128 * 256 ^ c" "c = 0 \<or> 128 * 256 ^ (c - 1) \<le> m"
      "if offset = 1 then 1 \<le> c \<and> m < 256 ^ c else 256 ^ c \<le> m"
    and enc: "VarInt_EncodeToTwosComplement bn x =
      (if x < 0 then
         case carry_up 0xff 0 (length ds) (FlipBits ds) of None \<Rightarrow> Inl Undefined
         | Some (pos, data) \<Rightarrow>
             let data = data[pos := data ! pos + 1]
             in Inr (if offset = 1 \<and> pos > 0 \<and> data ! 1 AND 0x80 \<noteq> 0 then tl data else data)
       else Inr ds)" .
  from negated_bytes [OF p(1,2) m0] obtain pos data where
    d: "carry_up 0xff 0 (length ds) (FlipBits ds) = Some (pos, data)"
      "length (data[pos := data ! pos + 1]) = Suc c" "be_val (data[pos := data ! pos + 1]) + m = 256 ^ Suc c"
      "pos = 0 \<Longrightarrow> 1 \<le> c \<Longrightarrow> data[pos := data ! pos + 1] ! 1 = 0" by blast
  define e where "e = data[pos := data ! pos + 1]"
  note e = d(2-4) [folded e_def]
  have enc': "VarInt_EncodeToTwosComplement bn x =
    Inr (if offset = 1 \<and> pos > 0 \<and> e ! 1 AND 0x80 \<noteq> 0 then tl e else e)"
    unfolding enc using neg d(1) by (simp add: Let_def e_def)
  show thesis
  proof (cases "offset = 1 \<and> e ! 1 AND 0x80 \<noteq> 0")
    case short: True
    then have c1: "1 \<le> c" "m < 256 ^ c" using p(5) by auto
    note t = drop_sign_byte [OF e(1,2) m0 c1(2)]
    have "pos > 0" using e(3) short c1(1) by (cases "pos = 0") simp_all
    then have "VarInt_EncodeToTwosComplement bn x = Inr (tl e)" using enc' short by simp
    moreover have "VarInt_DecodeFromTwosComplement bn (tl e) = Inr x"
      unfolding x using t short e(1) c1 m0 by (intro DecodeFromTwosComplement_neg [OF doc]) auto
    moreover have "c = 1 \<or> (\<exists>k. c = Suc (Suc k) \<and> 128 * 256 ^ k < m)"
    proof (cases "c = 1")
      case False
      then obtain k where k: "c = Suc (Suc k)" using c1(1) by (metis One_nat_def Suc_le_D le_antisym not_less_eq_eq)
      have "(0::nat) < 256 ^ k" by simp
      moreover have "128 * (256 * 256 ^ k) \<le> m" using p(4) by (simp add: k)
      ultimately have "128 * 256 ^ k < m" by linarith
      then show ?thesis using k by blast
    qed simp
    then have "least_length x (length (tl e))" unfolding x using e(1) by (intro least_length_neg) simp
    ultimately show thesis by (rule that)
  next
    case long: False
    then have "VarInt_EncodeToTwosComplement bn x = Inr e" using enc' by auto
    moreover have "VarInt_DecodeFromTwosComplement bn e = Inr x"
      unfolding x using e(1,2) m0 p(3) by (intro DecodeFromTwosComplement_neg [OF doc]) auto
    moreover have "128 * 256 ^ k < m" if "c = Suc k" for k
    proof (cases "offset = 1")
      case True
      then show ?thesis using drop_sign_byte(2) [OF e(1,2) m0] p(5) long by (simp add: that)
    next
      case False
      have "(0::nat) < 256 ^ k" by simp
      moreover have "256 * 256 ^ k \<le> m" using p(5) False by (simp add: that)
      ultimately show ?thesis by linarith
    qed
    then have "least_length x (length e)" unfolding x e(1) by (intro least_length_neg) (cases c; simp)
    ultimately show thesis by (rule that)
  qed
qed

lemma VarInt_twos_complement:
  assumes doc: "BN_documented bn"
  obtains ds where "VarInt_EncodeToTwosComplement bn x = Inr ds"
    and "VarInt_DecodeFromTwosComplement bn ds = Inr x" and "least_length x (length ds)"
proof (cases "x = 0")
  case True
  have "VarInt_DecodeFromTwosComplement bn [0] = Inr 0"
    using DecodeFromTwosComplement_nonneg [OF doc, of "[0]"] by simp
  then show ?thesis
    using that [of "[0]"] doc True
    by (simp add: VarInt_EncodeToTwosComplement_def BN_documented_def least_length_def)
next
  case nonzero: False
  show ?thesis
  proof (cases "x < 0")
    case True
    from twos_complement_negative [OF doc this] that show ?thesis by blast
  next
    case False
    from EncodeToTwosComplement_pieces [OF doc nonzero] obtain c ds where
      p: "length ds = Suc c" "be_val ds = nat \<bar>x\<bar>" "nat \<bar>x\<bar> < 128 * 256 ^ c"
        "c = 0 \<or> 128 * 256 ^ (c - 1) \<le> nat \<bar>x\<bar>" "VarInt_EncodeToTwosComplement bn x = Inr ds"
      using False by (metis (no_types, lifting))
    have "ds \<noteq> []" using p(1) by auto
    then have "VarInt_DecodeFromTwosComplement bn ds = Inr x"
      using DecodeFromTwosComplement_nonneg [OF doc, of ds] p(1-3) False by simp
    moreover have "least_length x (length ds)"
    proof (cases c)
      case (Suc k)
      then have "int (128 * 256 ^ k) \<le> int (nat \<bar>x\<bar>)" using p(4) by (simp only: of_nat_le_iff) simp
      then show ?thesis using p(1) Suc False by (simp add: least_length_def)
    qed (use p(1) in \<open>simp add: least_length_def\<close>)
    ultimately show ?thesis using that p(5) by blast
  qed
qed

subsection \<open>64-bit integers\<close>

lemma VarInt_from_int64_eq:
  assumes "BN_documented bn"
  shows "VarInt_from_int64 bn w = sint w"
proof (cases "0 \<le> sint w")
  case True
  then have "sint w = uint w" using top_bit_split [of 63 w] by (simp split: if_splits)
  then show ?thesis using assms True by (simp add: VarInt_from_int64_def BN_documented_def)
next
  case False
  have "uint (- w) = - sint w"
  proof -
    have "uint w = sint w + 2 ^ 64" "- (2 ^ 63) \<le> sint w"
      using top_bit_split [of 63 w] False by (simp_all split: if_splits)
    moreover have "uint (- w) = (- uint w) mod 2 ^ 64" by (simp add: uint_word_ariths(4))
    moreover have "(- sint w - 2 ^ 64) mod 2 ^ 64 = (- sint w) mod 2 ^ 64"
      by (rule minus_mod_self2)
    moreover have "(- sint w) mod 2 ^ 64 = - sint w"
      using False calculation(2) by (intro mod_pos_pos_trivial) simp_all
    ultimately show ?thesis by simp
  qed
  then show ?thesis using assms False by (simp add: VarInt_from_int64_def BN_documented_def)
qed

lemma VarInt_ToInt64_eq:
  assumes "BN_documented bn"
  shows "VarInt_ToInt64 bn x =
    (if - (2 ^ 63) \<le> x \<and> x < 2 ^ 63 then Inr (word_of_int x) else Inl (Status InvalidArgument))"
proof -
  let ?val = "BN_get_word bn x"
  have val: "?val = (if \<bar>x\<bar> < 2 ^ 64 then word_of_int \<bar>x\<bar> else - 1)"
    and neg: "BN_is_negative bn x \<longleftrightarrow> x < 0"
    using assms by (simp_all add: BN_documented_def)
  have u: "uint ?val = min \<bar>x\<bar> (2 ^ 64 - 1)"
  proof (cases "\<bar>x\<bar> < 2 ^ 64")
    case True
    then have "uint (word_of_int \<bar>x\<bar> :: u64) = \<bar>x\<bar>"
      by (simp only: uint_word_of_int_eq) (simp add: take_bit_int_eq_self)
    then show ?thesis using True by (simp add: val)
  next
    case False
    have "uint (- 1 :: u64) = 2 ^ 64 - 1"
      by (simp only: unsigned_minus_1_eq_mask mask_eq_exp_minus_1) simp
    then show ?thesis using False by (simp add: val)
  qed
  show ?thesis
  proof (cases "x < 0")
    case True
    have "uint (2 ^ 63 :: u64) = 2 ^ 63" by simp
    then have "?val > 2 ^ 63 \<longleftrightarrow> x < - (2 ^ 63)"
      unfolding word_less_def u using True by (simp only: min_less_iff_conj abs_of_neg, simp, arith)
    moreover have "- ?val = word_of_int x" if "\<not> x < - (2 ^ 63)"
    proof -
      have a: "\<bar>x\<bar> = - x" using True by simp
      have "\<bar>x\<bar> < 2 ^ 64" unfolding a using that by simp
      then show ?thesis unfolding val by (simp only: if_True a wi_hom_neg minus_minus)
    qed
    moreover have "x < 2 ^ 63" using True by simp
    ultimately show ?thesis
      using True unfolding VarInt_ToInt64_def Let_def neg
      by (simp only: if_True not_less [symmetric] simp_thms split: if_splits) simp
  next
    case False
    have "uint (2 ^ 63 - 1 :: u64) = 2 ^ 63 - 1" by simp
    then have "?val > 2 ^ 63 - 1 \<longleftrightarrow> 2 ^ 63 \<le> x"
      unfolding word_less_def u using False by (simp only: min_less_iff_conj abs_of_nonneg not_less, simp, arith?)
    moreover have "?val = word_of_int x" if "x < 2 ^ 63"
    proof -
      have a: "\<bar>x\<bar> = x" using False by simp
      have "\<bar>x\<bar> < 2 ^ 64" unfolding a using that by simp
      then show ?thesis unfolding val by (simp only: if_True a)
    qed
    moreover have "- (2 ^ 63) \<le> x" using False by simp
    ultimately show ?thesis
      using False unfolding VarInt_ToInt64_def Let_def neg
      by (simp only: if_False not_le [symmetric] simp_thms split: if_splits) simp
  qed
qed


subsection \<open>The documented behaviour is realisable\<close>

text \<open>A reference implementation of the library's documented behaviour.\<close>

fun bit_length :: "nat \<Rightarrow> nat" where
  "bit_length n = (if n = 0 then 0 else Suc (bit_length (n div 2)))"

declare bit_length.simps [simp del]

definition dec_parse :: "string \<Rightarrow> nat \<times> int" where
  "dec_parse s =
     (let ds = takeWhile (\<lambda>c. 48 \<le> (of_char c :: nat) \<and> (of_char c :: nat) < 58) s
      in (length ds, int (dec_value (map (\<lambda>c. of_char c - 48) ds))))"

definition reference_BN :: BN where
  "reference_BN = \<lparr>
     BN_is_zero = (\<lambda>x. x = 0),
     BN_is_negative = (\<lambda>x. x < 0),
     BN_set_negative = (\<lambda>x b. if b then - \<bar>x\<bar> else \<bar>x\<bar>),
     BN_set_word = (\<lambda>w. uint w),
     BN_get_word = (\<lambda>x. if \<bar>x\<bar> < 2 ^ 64 then word_of_int \<bar>x\<bar> else - 1),
     BN_num_bits = (\<lambda>x. bit_length (nat \<bar>x\<bar>)),
     BN_bn2bin = (\<lambda>x. be_bytes ((bit_length (nat \<bar>x\<bar>) + 7) div 8) (nat \<bar>x\<bar>)),
     BN_bin2bn = (\<lambda>bs. int (be_val bs)),
     BN_cmp = (\<lambda>x y. if x < y then - 1 else if y < x then 1 else 0),
     BN_add = (\<lambda>x y. x + y),
     BN_sub = (\<lambda>x y. x - y),
     BN_bn2dec = (\<lambda>x. if x < 0 then CHR ''-'' # digit_string (dec_digits (nat \<bar>x\<bar>))
        else digit_string (dec_digits (nat \<bar>x\<bar>))),
     BN_dec2bn = (\<lambda>s. case s of
          c # cs \<Rightarrow> if c = CHR ''-'' then (Suc (fst (dec_parse cs)), - snd (dec_parse cs)) else dec_parse s
        | [] \<Rightarrow> dec_parse s)\<rparr>"

lemma bit_length_less: "n < 2 ^ bit_length n"
proof (induction n rule: bit_length.induct)
  case (1 n)
  show ?case
  proof (cases "n = 0")
    case False
    then have "n div 2 < 2 ^ bit_length (n div 2)" using 1 by simp
    then show ?thesis using False by (subst bit_length.simps) simp
  qed (simp add: bit_length.simps)
qed

lemma bit_length_le: "n < 2 ^ k \<Longrightarrow> bit_length n \<le> k"
proof (induction n arbitrary: k rule: bit_length.induct)
  case (1 n)
  show ?case
  proof (cases "n = 0")
    case False
    then obtain j where k: "k = Suc j" using 1 by (cases k) auto
    then have "n div 2 < 2 ^ j" using 1(2) by auto
    then show ?thesis using False 1(1) by (subst bit_length.simps) (simp add: k)
  qed (simp add: bit_length.simps)
qed

lemma dec_parse_digit_string:
  assumes "list_all (\<lambda>d. d < 10) ds"
  shows "dec_parse (digit_string ds) = (length ds, int (dec_value ds))"
proof -
  have c: "(of_char (char_of (48 + d)) :: nat) = 48 + d" if "d < 10" for d :: nat
    using that by (simp add: of_char_of)
  have "takeWhile (\<lambda>c. 48 \<le> (of_char c :: nat) \<and> (of_char c :: nat) < 58) (digit_string ds) =
      digit_string ds"
    using assms by (intro takeWhile_eq_all_conv [THEN iffD2]) (auto simp: digit_string_def list_all_iff c)
  moreover have "map (\<lambda>c. of_char c - 48) (digit_string ds) = ds"
    using assms by (auto simp: digit_string_def list_all_iff c intro!: map_idI)
  moreover have "length (digit_string ds) = length ds" by (simp add: digit_string_def)
  ultimately show ?thesis unfolding dec_parse_def by (simp only: Let_def)
qed

lemma reference_BN_documented: "BN_documented reference_BN"
proof -
  have bin: "be_val (be_bytes ((bit_length n + 7) div 8) n) = n" for n
  proof -
    have "n < 2 ^ bit_length n" by (rule bit_length_less)
    also have "\<dots> \<le> 2 ^ (8 * ((bit_length n + 7) div 8))" by (intro power_increasing) simp_all
    finally show ?thesis by (simp add: be_val_be_bytes power_256)
  qed
  have parse: "BN_dec2bn reference_BN (digit_string ds) = (length ds, int (dec_value ds))"
    if a: "list_all (\<lambda>d. d < 10) ds" and ne: "ds \<noteq> []" for ds
  proof -
    obtain d es where d: "ds = d # es" using ne by (cases ds) auto
    have "char_of (48 + d) \<noteq> CHR ''-''"
    proof
      assume "char_of (48 + d) = CHR ''-''"
      then have "(of_char (char_of (48 + d)) :: nat) = of_char CHR ''-''" by simp
      then show False using a by (simp add: d of_char_of)
    qed
    then show ?thesis using dec_parse_digit_string [OF a]
      by (simp add: reference_BN_def d digit_string_def)
  qed
  show ?thesis
    unfolding BN_documented_def
    using parse by (simp add: reference_BN_def bit_length_less bit_length_le bin dec_parse_digit_string)
qed

subsection \<open>Properties\<close>

text \<open>
  C18: the comparable encoding of integers of any size. With the library's functions as
  documented, and any number of reserved bits below seven, an integer is read back from its
  encoding whatever follows it, together with the length of the encoding, and the byte
  order of encodings inside longer strings is the order of the integers.
\<close>

theorem varint_comparable_encoding:
  assumes "BN_documented bn" and "num_reserved_bits < 7"
  shows "VarInt_DecodeFromComparable bn
      (VarInt_EncodeToComparable bn x num_reserved_bits @ rest) num_reserved_bits =
      Inr (x, length (VarInt_EncodeToComparable bn x num_reserved_bits)) \<and>
    (x \<noteq> y \<longrightarrow>
      (slice_compare (VarInt_EncodeToComparable bn x num_reserved_bits @ u)
         (VarInt_EncodeToComparable bn y num_reserved_bits @ v) < 0 \<longleftrightarrow>
       VarInt_CompareTo bn x y < 0))"
proof -
  note p = VarInt_EncodeToComparable_prec [OF assms, THEN bytes_prec_append, THEN bytes_prec_less]
  have "bytes_less (VarInt_EncodeToComparable bn x num_reserved_bits @ u)
         (VarInt_EncodeToComparable bn y num_reserved_bits @ v) \<longleftrightarrow> x < y" if "x \<noteq> y"
  proof -
    have asym: "\<not> bytes_less b a" if "bytes_less a b" for a b
      using that bytes_less_trans [of a b a] by auto
    show ?thesis using that p [of x y u v] asym [OF p [of y x v u]] by (cases "x < y") auto
  qed
  moreover have "VarInt_CompareTo bn x y < 0 \<longleftrightarrow> x < y"
    using assms(1) by (simp add: VarInt_CompareTo_def BN_documented_def)
  ultimately show ?thesis
    using VarInt_DecodeFromComparable_encode [OF assms] by (simp add: slice_compare_less_iff)
qed

theorem varint_comparable_encoding_witness:
  "BN_documented reference_BN \<and>
   VarInt_EncodeToComparable reference_BN (- 100) 2 = [0x0f, 0x9b] \<and>
   VarInt_DecodeFromComparable reference_BN [0x0f, 0x9b, 9] 2 = Inr (- 100, 2)"
proof -
  have e: "VarInt_EncodeToComparable reference_BN (- 100) 2 = [0x0f, 0x9b]"
    by code_simp
  show ?thesis
    using varint_comparable_encoding [OF reference_BN_documented, of 2 "- 100" "[9]" 0 "[]" "[]"] e
      reference_BN_documented by simp
qed

text \<open>
  C26: the two's complement encoding of the client protocol is read back by its decoder, for
  every integer; neither runs past the start of its buffer while it carries.
\<close>

theorem varint_twos_complement_roundtrip:
  assumes "BN_documented bn"
  shows "\<exists>encoded. VarInt_EncodeToTwosComplement bn x = Inr encoded \<and>
    VarInt_DecodeFromTwosComplement bn encoded = Inr x"
  using VarInt_twos_complement [OF assms, of x] by blast

theorem varint_twos_complement_roundtrip_witness:
  "BN_documented reference_BN \<and>
   (\<exists>encoded. VarInt_EncodeToTwosComplement reference_BN (- 128) = Inr encoded \<and>
     VarInt_DecodeFromTwosComplement reference_BN encoded = Inr (- 128))"
  using varint_twos_complement_roundtrip [OF reference_BN_documented, of "- 128"]
    reference_BN_documented by blast

text \<open>
  C34: the conversion to a 64-bit integer returns the integer exactly when it is in the range
  of \<^verbatim>\<open>int64_t\<close>, both ends included, and reports an invalid argument otherwise; an integer
  that was built from an \<^verbatim>\<open>int64_t\<close> comes back unchanged.
\<close>

theorem varint_int64_bounds:
  assumes "BN_documented bn"
  shows "VarInt_ToInt64 bn x =
      (if - (2 ^ 63) \<le> x \<and> x < 2 ^ 63 then Inr (word_of_int x) else Inl (Status InvalidArgument)) \<and>
    VarInt_ToInt64 bn (VarInt_from_int64 bn w) = Inr w"
proof -
  have "- (2 ^ 63) \<le> sint w" "sint w < 2 ^ 63"
    using sint_greater_eq [of w] sint_less [of w] by simp_all
  moreover have "word_of_int (sint w) = w" by simp
  ultimately have "VarInt_ToInt64 bn (VarInt_from_int64 bn w) = Inr w"
    unfolding VarInt_from_int64_eq [OF assms] VarInt_ToInt64_eq [OF assms] by (simp only: simp_thms if_True)
  then show ?thesis using VarInt_ToInt64_eq [OF assms] by blast
qed

theorem varint_int64_bounds_witness:
  "BN_documented reference_BN \<and>
   VarInt_ToInt64 reference_BN (- (2 ^ 63)) = Inr 0x8000000000000000 \<and>
   VarInt_ToInt64 reference_BN (2 ^ 63) = Inl (Status InvalidArgument)"
  using varint_int64_bounds [OF reference_BN_documented, of "- (2 ^ 63)" 0]
    varint_int64_bounds [OF reference_BN_documented, of "2 ^ 63" 0]
    reference_BN_documented by simp

end
