(* ===== verification/Decimal_Number.thy ===== *)
theory Decimal_Number
  imports Complex_Main Var_Int
begin

text \<open>
  Decimal numbers (\<^verbatim>\<open>src/src/yb/util/decimal.cc\<close>, \<^verbatim>\<open>src/src/yb/util/decimal.h\<close>): a sign, an
  exponent of any size and a list of digits, kept in a canonical form, with their
  conversions to and from strings, the comparable encoding used in keys, the encoding of the
  client protocol, the comparison and the sum.

  A digit is a \<^verbatim>\<open>uint8_t\<close>; digits stay far below 256 in all arithmetic here, so they are
  natural numbers. The counts of digits that the code keeps in an \<^verbatim>\<open>int\<close> have 32 bits here too. The library functions behind \<^verbatim>\<open>VarInt\<close> are the parameter \<open>bn\<close>, as in
  the theory of that component.
\<close>

unbundle bit_operations_syntax

subsection \<open>State and canonical form\<close>

record Decimal =
  d_digits :: "nat list"
  d_exponent :: VarInt
  d_is_positive :: bool

definition kDefaultMaxLength :: int where
  "kDefaultMaxLength = 20"

definition kUnlimitedMaxLength :: int where
  "kUnlimitedMaxLength = 2 ^ 31 - 1"

definition Decimal_clear :: "BN \<Rightarrow> Decimal" where
  "Decimal_clear bn =
     \<lparr>d_digits = [], d_exponent = VarInt_from_int64 bn 0, d_is_positive = True\<rparr>"

definition is_canonical :: "BN \<Rightarrow> Decimal \<Rightarrow> bool" where
  "is_canonical bn d \<longleftrightarrow>
     (if d_digits d = [] then
        d_is_positive d \<and> VarInt_CompareTo bn (d_exponent d) (VarInt_from_int64 bn 0) = 0
      else hd (d_digits d) \<noteq> 0 \<and> last (d_digits d) \<noteq> 0)"

definition drop_back_zeros :: "nat list \<Rightarrow> nat list" where
  "drop_back_zeros ds = rev (dropWhile (\<lambda>d. d = 0) (rev ds))"

definition make_canonical :: "BN \<Rightarrow> Decimal \<Rightarrow> Decimal" where
  "make_canonical bn d =
     (if is_canonical bn d then d
      else
        let num_zeros = length (takeWhile (\<lambda>d. d = 0) (d_digits d));
            exponent = VarInt_minus bn (d_exponent d) (VarInt_from_int64 bn (of_nat num_zeros));
            digits = drop num_zeros (d_digits d) @ replicate num_zeros 0;
            digits = drop_back_zeros digits
        in if digits = [] then Decimal_clear bn
           else d\<lparr>d_digits := digits, d_exponent := exponent\<rparr>)"

definition make_Decimal :: "BN \<Rightarrow> nat list \<Rightarrow> VarInt \<Rightarrow> bool \<Rightarrow> Decimal" where
  "make_Decimal bn digits exponent is_positive =
     make_canonical bn \<lparr>d_digits = digits, d_exponent = exponent, d_is_positive = is_positive\<rparr>"

definition Decimal_negated :: "BN \<Rightarrow> Decimal \<Rightarrow> Decimal" where
  "Decimal_negated bn d = make_Decimal bn (d_digits d) (d_exponent d) (\<not> d_is_positive d)"

definition Decimal_Negate :: "Decimal \<Rightarrow> Decimal" where
  "Decimal_Negate d = d\<lparr>d_is_positive := \<not> d_is_positive d\<rparr>"

definition IsIdenticalTo :: "BN \<Rightarrow> Decimal \<Rightarrow> Decimal \<Rightarrow> bool" where
  "IsIdenticalTo bn d other \<longleftrightarrow>
     d_is_positive d = d_is_positive other \<and>
     VarInt_CompareTo bn (d_exponent d) (d_exponent other) = 0 \<and>
     d_digits d = d_digits other"

subsection \<open>Strings\<close>

definition digit_char :: "nat \<Rightarrow> char" where
  "digit_char d = char_of (48 + d)"

text \<open>Push characters one by one, stopping when the output is longer than the limit.\<close>

fun push_limited :: "int \<Rightarrow> string \<Rightarrow> string \<Rightarrow> string result" where
  "push_limited max_length output [] = Inr output"
| "push_limited max_length output (c # cs) =
     (let output = output @ [c]
      in if int (length output) > max_length then Inl (Status InvalidArgument)
         else push_limited max_length output cs)"

text \<open>The loop over the digits that puts the point in front of digit number \<open>exponent\<close>.\<close>

fun push_digits :: "int \<Rightarrow> int \<Rightarrow> nat \<Rightarrow> string \<Rightarrow> nat list \<Rightarrow> string result" where
  "push_digits max_length exponent i output [] = Inr output"
| "push_digits max_length exponent i output (d # ds) =
     (let output = (if exponent = int i then output @ ''.'' else output) @ [digit_char d]
      in if int (length output) > max_length then Inl (Status InvalidArgument)
         else push_digits max_length exponent (i + 1) output ds)"

definition ToPointString :: "BN \<Rightarrow> Decimal \<Rightarrow> int \<Rightarrow> string result" where
  "ToPointString bn d max_length =
     (if d_digits d = [] then Inr ''0''
      else verify_result (VarInt_ToInt64 bn (d_exponent d)) (\<lambda>e.
        let exponent = sint e
        in if exponent > max_length \<or> exponent < - max_length then Inl (Status InvalidArgument)
           else
             let output = (if d_is_positive d then '''' else ''-'')
             in if exponent \<le> 0 then
                  push_limited max_length
                    (output @ ''0.'' @ replicate (nat (- exponent)) CHR ''0'')
                    (map digit_char (d_digits d))
                else
                  verify_result (push_digits max_length exponent 0 output (d_digits d)) (\<lambda>output.
                    push_limited max_length output
                      (replicate (nat exponent - length (d_digits d)) CHR ''0''))))"

definition ToScientificString :: "BN \<Rightarrow> Decimal \<Rightarrow> string" where
  "ToScientificString bn d =
     (if d_digits d = [] then ''0''
      else
        let output = (if d_is_positive d then '''' else ''-'') @ [digit_char (hd (d_digits d))] @ ''.''
              @ map digit_char (tl (d_digits d)) @ ''e'';
            exponent = VarInt_plus bn (d_exponent d) (VarInt_from_int64 bn (- 1));
            output = (if VarInt_Sign bn exponent \<ge> 0 then output @ ''+'' else output)
        in output @ VarInt_ToString bn exponent)"

definition Decimal_ToString :: "BN \<Rightarrow> Decimal \<Rightarrow> string" where
  "Decimal_ToString bn d =
     (case ToPointString bn d kDefaultMaxLength of
        Inr output \<Rightarrow> output | Inl _ \<Rightarrow> ToScientificString bn d)"

text \<open>The digits up to the end or an \<^verbatim>\<open>e\<close>: what is left, the digits, the point.\<close>

fun parse_digits :: "string \<Rightarrow> nat list \<Rightarrow> bool \<Rightarrow> nat \<Rightarrow> (string \<times> nat list \<times> bool \<times> nat) result" where
  "parse_digits [] digits point_found point_position =
     Inr ([], digits, point_found, point_position)"
| "parse_digits (c # cs) digits point_found point_position =
     (if c = CHR ''e'' \<or> c = CHR ''E'' then Inr (c # cs, digits, point_found, point_position)
      else if c = CHR ''.'' \<and> \<not> point_found then parse_digits cs digits True (length digits)
      else if 48 \<le> (of_char c :: nat) \<and> (of_char c :: nat) \<le> 57 then
        parse_digits cs (digits @ [of_char c - 48]) point_found point_position
      else Inl (Status InvalidArgument))"

text \<open>\<^verbatim>\<open>FromString\<close> on a \<^verbatim>\<open>std::string\<close> passes \<^verbatim>\<open>c_str()\<close>, which ends at a zero character.\<close>

definition c_str :: "string \<Rightarrow> string" where
  "c_str s = takeWhile (\<lambda>c. c \<noteq> CHR 0x00) s"

definition Decimal_FromString :: "BN \<Rightarrow> string \<Rightarrow> Decimal result" where
  "Decimal_FromString bn sl =
     (case sl of [] \<Rightarrow> Inl (Status InvalidArgument)
      | c # cs \<Rightarrow>
          let is_positive = (c \<noteq> CHR ''-'');
              body = (if c = CHR ''+'' \<or> c = CHR ''-'' then cs else sl)
          in verify_result (parse_digits body [] False 0)
               (\<lambda>(rest, digits, point_found, point_position).
                 if digits = [] then Inl (Status InvalidArgument)
                 else
                   let point_position = (if point_found then point_position else length digits)
                   in verify_result
                        (if rest \<noteq> [] then VarInt_FromString bn (c_str (tl rest))
                         else Inr (VarInt_from_int64 bn 0))
                        (\<lambda>exponent.
                          let exponent = VarInt_plus bn exponent
                                (VarInt_from_int64 bn (of_nat point_position))
                          in Inr (make_canonical bn \<lparr>d_digits = digits, d_exponent = exponent,
                               d_is_positive = is_positive\<rparr>))))"

definition Decimal_FromVarInt :: "BN \<Rightarrow> VarInt \<Rightarrow> Decimal result" where
  "Decimal_FromVarInt bn varint_val = Decimal_FromString bn (VarInt_ToString bn varint_val)"

definition is_integer :: "BN \<Rightarrow> Decimal \<Rightarrow> bool" where
  "is_integer bn d \<longleftrightarrow>
     d_digits d = [] \<or>
     VarInt_CompareTo bn (d_exponent d)
       (VarInt_from_int64 bn (of_nat (length (d_digits d)))) \<ge> 0"

definition Decimal_ToVarInt :: "BN \<Rightarrow> Decimal \<Rightarrow> VarInt result" where
  "Decimal_ToVarInt bn d =
     verify_result (ToPointString bn d kUnlimitedMaxLength) (\<lambda>string_val.
       if \<not> is_integer bn d then Inl (Status InvalidArgument)
       else VarInt_FromString bn (c_str string_val))"

subsection \<open>Comparison\<close>

fun compare_digits :: "nat list \<Rightarrow> nat list \<Rightarrow> int" where
  "compare_digits (d # ds) (e # es) =
     (let comp = int d - int e in if comp \<noteq> 0 then comp else compare_digits ds es)"
| "compare_digits _ _ = 0"

text \<open>Arithmetic on \<^verbatim>\<open>int\<close>: a result outside its range is undefined behaviour.\<close>

definition int32_result :: "int \<Rightarrow> int result" where
  "int32_result x = (if - (2 ^ 31) \<le> x \<and> x < 2 ^ 31 then Inr x else Inl Undefined)"

text \<open>The numbers of digits are cast to \<^verbatim>\<open>int\<close> and lose their upper bits before they are subtracted.\<close>

definition Decimal_CompareTo :: "BN \<Rightarrow> Decimal \<Rightarrow> Decimal \<Rightarrow> int result" where
  "Decimal_CompareTo bn d other =
     (if d_is_positive d \<noteq> d_is_positive other then
        Inr (of_bool (d_is_positive d) - of_bool (d_is_positive other))
      else if d_digits d = [] \<or> d_digits other = [] then
        let comp = of_bool (d_digits d = []) - of_bool (d_digits other = [])
        in Inr (if d_is_positive d then - comp else comp)
      else
        let comp = VarInt_CompareTo bn (d_exponent d) (d_exponent other)
        in if comp \<noteq> 0 then Inr (if d_is_positive d then comp else - comp)
           else
             let comp = compare_digits (d_digits d) (d_digits other)
             in if comp \<noteq> 0 then Inr (if d_is_positive d then comp else - comp)
                else
                  verify_result
                    (int32_result (sint (of_nat (length (d_digits d)) :: u32) -
                                   sint (of_nat (length (d_digits other)) :: u32)))
                    (\<lambda>comp. int32_result (if d_is_positive d then comp else - comp)))"

subsection \<open>The comparable encoding\<close>

text \<open>Two digits in a byte; the last bit says that another byte follows.\<close>

fun EncodeToDigitPairs :: "nat list \<Rightarrow> bytes" where
  "EncodeToDigitPairs [] = []"
| "EncodeToDigitPairs [d] = [of_nat (d * 10 * 2)]"
| "EncodeToDigitPairs [d, e] = [of_nat ((d * 10 + e) * 2)]"
| "EncodeToDigitPairs (d # e # f # ds) =
     of_nat ((d * 10 + e) * 2 + 1) # EncodeToDigitPairs (f # ds)"

text \<open>The loop that complements the output counts in an \<^verbatim>\<open>int\<close>, which overflows past \<open>2\<^sup>3\<^sup>1 - 1\<close> bytes.\<close>

definition complement_output :: "bytes \<Rightarrow> bytes result" where
  "complement_output output =
     (if length output < 2 ^ 31 then Inr (map (\<lambda>b. NOT b) output) else Inl Undefined)"

definition Decimal_EncodeToComparable :: "BN \<Rightarrow> Decimal \<Rightarrow> bytes result" where
  "Decimal_EncodeToComparable bn d =
     (if d_digits d = [] then Inr [128]
      else
        let exponent = VarInt_EncodeToComparable bn (d_exponent d) 2;
            mantissa = EncodeToDigitPairs (d_digits d);
            output = exponent @ mantissa;
            output = output[0 := output ! 0 OR 0xc0]
        in if d_is_positive d then Inr output else complement_output output)"

fun decode_pairs :: "bytes \<Rightarrow> nat \<Rightarrow> nat list \<Rightarrow> nat list \<times> nat" where
  "decode_pairs [] i digits = (digits, 0)"
| "decode_pairs (b # bs) i digits =
     (let half = unat b div 2;
          digits = digits @ [half div 10, half mod 10]
      in if b AND 1 = 0 then (digits, i + 1) else decode_pairs bs (i + 1) digits)"

definition DecodeFromDigitPairs :: "bytes \<Rightarrow> (nat list \<times> nat) result" where
  "DecodeFromDigitPairs sl =
     (let (digits, num_decoded_bytes) = decode_pairs sl 0 []
      in if num_decoded_bytes = 0 then Inl (Status Corruption)
         else Inr (drop_back_zeros digits, num_decoded_bytes))"

definition Decimal_DecodeFromComparable :: "BN \<Rightarrow> bytes \<Rightarrow> (Decimal \<times> nat) result" where
  "Decimal_DecodeFromComparable bn sl =
     (case sl of [] \<Rightarrow> Inl (Status Corruption)
      | b # _ \<Rightarrow>
          if b = 128 then Inr (Decimal_clear bn, 1)
          else
            let is_positive = (b \<ge> 128);
                encoded = (if is_positive then sl else map (\<lambda>b. NOT b) sl)
            in verify_result (VarInt_DecodeFromComparable bn encoded 2)
                 (\<lambda>(exponent, num_exponent_bytes).
                   let remaining_slice = drop num_exponent_bytes encoded
                   in verify_result (DecodeFromDigitPairs remaining_slice)
                        (\<lambda>(digits, num_mantissa_bytes).
                          Inr (\<lparr>d_digits = digits, d_exponent = exponent,
                                d_is_positive = is_positive\<rparr>,
                               num_exponent_bytes + num_mantissa_bytes))))"

subsection \<open>The encoding of the client protocol\<close>

text \<open>\<open>Inr None\<close> is the result with \<^verbatim>\<open>is_out_of_range\<close> set.\<close>

definition EncodeToSerializedBigDecimal :: "BN \<Rightarrow> Decimal \<Rightarrow> bytes option result" where
  "EncodeToSerializedBigDecimal bn d =
     (let varint_scale =
            VarInt_minus bn (VarInt_from_int64 bn (of_nat (length (d_digits d)))) (d_exponent d)
      in verify_result (VarInt_EncodeToTwosComplement bn varint_scale) (\<lambda>scale.
           if length scale > 4 then Inr None
           else
             let scale = replicate (4 - length scale)
                   (if VarInt_Sign bn varint_scale < 0 then 0xff else 0) @ scale
             in case (if d_digits d \<noteq> [] then VarInt_FromString bn (c_str (map digit_char (d_digits d)))
                      else Inr (VarInt_from_int64 bn 0)) of
                  Inl _ \<Rightarrow> Inl Fatal
                | Inr temp \<Rightarrow>
                    let temp = (if d_is_positive d then temp else VarInt_Negate bn temp)
                    in verify_result (VarInt_EncodeToTwosComplement bn temp)
                         (\<lambda>mantissa. Inr (Some (scale @ mantissa)))))"

definition DecodeFromSerializedBigDecimal :: "BN \<Rightarrow> bytes \<Rightarrow> Decimal result" where
  "DecodeFromSerializedBigDecimal bn sl =
     (if length sl < 5 then Inl (Status Corruption)
      else
        verify_result (VarInt_DecodeFromTwosComplement bn (take 4 sl)) (\<lambda>scale.
        verify_result (VarInt_DecodeFromTwosComplement bn (drop 4 sl)) (\<lambda>mantissa.
          let negative = (VarInt_Sign bn mantissa < 0);
              mantissa = (if negative then VarInt_Negate bn mantissa else mantissa);
              mantissa_str = VarInt_ToString bn mantissa;
              digits = map (\<lambda>c. of_char c - 48) mantissa_str;
              exponent = VarInt_minus bn (VarInt_from_int64 bn (of_nat (length digits))) scale
          in Inr (make_canonical bn
               \<lparr>d_digits = digits, d_exponent = exponent, d_is_positive = \<not> negative\<rparr>))))"

subsection \<open>The sum\<close>

text \<open>
  Put the zeros in front that bring a number to the larger exponent. A vector that is to hold more
  elements than it can throws \<^verbatim>\<open>std::length_error\<close>, which nothing catches.
\<close>

definition vector_max_size :: nat where
  "vector_max_size = 2 ^ 63 - 1"

definition raise_exponent :: "BN \<Rightarrow> VarInt \<Rightarrow> Decimal \<Rightarrow> Decimal result" where
  "raise_exponent bn max_exponent d =
     (if VarInt_CompareTo bn (d_exponent d) max_exponent < 0 then
        case VarInt_ToInt64 bn (VarInt_minus bn max_exponent (d_exponent d)) of
          Inl _ \<Rightarrow> Inl Fatal
        | Inr increase \<Rightarrow>
            if length (d_digits d) + unat increase > vector_max_size then Inl Fatal
            else Inr (d\<lparr>d_digits := replicate (unat increase) 0 @ d_digits d, d_exponent := max_exponent\<rparr>)
      else Inr d)"

text \<open>
  The number of zeros to append is an \<^verbatim>\<open>int\<close>, and the loop that appends them compares it with a
  \<^verbatim>\<open>size_t\<close>: it loses its upper bits, and a negative number stands for almost \<open>2\<^sup>6\<^sup>4\<close> zeros.
\<close>

definition pad_digits :: "nat \<Rightarrow> nat list \<Rightarrow> nat list result" where
  "pad_digits max_digits ds =
     (if length ds < max_digits then
        let increase = (of_nat (max_digits - length ds) :: u32);
            count = unat (scast increase :: u64)
        in if length ds + count > vector_max_size then Inl Fatal
           else Inr (ds @ replicate count 0)
      else Inr ds)"

text \<open>
  The loops over the digits. Reading or writing a digit that is not there, because the padding is
  too short or because a borrow passes the first digit, is undefined.
\<close>

fun add_mantissas ::
    "BN \<Rightarrow> nat \<Rightarrow> nat list \<Rightarrow> VarInt \<Rightarrow> nat list \<Rightarrow> (nat list \<times> VarInt) result" where
  "add_mantissas bn 0 ds exponent other = Inr (ds, exponent)"
| "add_mantissas bn (Suc i) ds exponent other =
     (if i \<ge> length ds \<or> i \<ge> length other then Inl Undefined
      else
        let ds = ds[i := ds ! i + other ! i]
        in if ds ! i > 9 then
             let ds = ds[i := ds ! i - 10]
             in if i > 0 then add_mantissas bn i (ds[i - 1 := ds ! (i - 1) + 1]) exponent other
                else Inr (1 # ds, VarInt_plus bn exponent (VarInt_from_int64 bn 1))
           else add_mantissas bn i ds exponent other)"

fun subtract_mantissas :: "nat \<Rightarrow> nat list \<Rightarrow> nat list \<Rightarrow> nat list result" where
  "subtract_mantissas 0 ds other = Inr ds"
| "subtract_mantissas (Suc i) ds other =
     (if i \<ge> length ds \<or> i \<ge> length other then Inl Undefined
      else if ds ! i \<ge> other ! i then subtract_mantissas i (ds[i := ds ! i - other ! i]) other
      else if i = 0 then Inl Undefined
      else subtract_mantissas i (ds[i := ds ! i + 10 - other ! i])
             (other[i - 1 := other ! (i - 1) + 1]))"

definition Decimal_plus :: "BN \<Rightarrow> Decimal \<Rightarrow> Decimal \<Rightarrow> Decimal result" where
  "Decimal_plus bn d other =
     (let dec = make_Decimal bn (d_digits d) (d_exponent d) (d_is_positive d);
          other1 = make_Decimal bn (d_digits other) (d_exponent other) (d_is_positive other);
          max_exponent = (if VarInt_CompareTo bn (d_exponent other1) (d_exponent dec) < 0
            then d_exponent dec else d_exponent other1)
      in verify_result (raise_exponent bn max_exponent dec) (\<lambda>dec.
         verify_result (raise_exponent bn max_exponent other1) (\<lambda>other1.
           let max_digits = max (length (d_digits dec)) (length (d_digits other1))
           in verify_result (pad_digits max_digits (d_digits dec)) (\<lambda>ds.
              verify_result (pad_digits max_digits (d_digits other1)) (\<lambda>os.
                if d_is_positive dec = d_is_positive other1 then
                  verify_result (add_mantissas bn max_digits ds (d_exponent dec) os) (\<lambda>(ds, exponent).
                    Inr (make_canonical bn (dec\<lparr>d_digits := ds, d_exponent := exponent\<rparr>)))
                else
                  let comp = compare_digits ds os;
                      (ds, os, pos) = (if comp < 0 then (os, ds, \<not> d_is_positive dec)
                        else (ds, os, d_is_positive dec))
                  in verify_result (subtract_mantissas max_digits ds os) (\<lambda>ds.
                       Inr (make_canonical bn (dec\<lparr>d_digits := ds, d_is_positive := pos\<rparr>))))))))"

subsection \<open>Round trip of the comparable encoding\<close>

definition decimal_ok :: "BN \<Rightarrow> Decimal \<Rightarrow> bool" where
  "decimal_ok bn d \<longleftrightarrow> is_canonical bn d \<and> list_all (\<lambda>x. x < 10) (d_digits d)"

text \<open>The bytes of the encoding, whatever their number.\<close>

definition decimal_code :: "BN \<Rightarrow> Decimal \<Rightarrow> bytes" where
  "decimal_code bn d =
     (if d_digits d = [] then [128]
      else
        let output = VarInt_EncodeToComparable bn (d_exponent d) 2 @ EncodeToDigitPairs (d_digits d);
            output = output[0 := output ! 0 OR 0xc0]
        in if d_is_positive d then output else map (\<lambda>b. NOT b) output)"

text \<open>
  Numbers of a size for which the counters of the code do not overflow: the digits are counted by an
  \<^verbatim>\<open>int\<close>, and the exponent has fewer than \<open>2\<^sup>3\<^sup>0\<close> bits, more than a \<^verbatim>\<open>BIGNUM\<close> holds.
\<close>

definition decimal_fits :: "BN \<Rightarrow> Decimal \<Rightarrow> bool" where
  "decimal_fits bn d \<longleftrightarrow> length (d_digits d) < 2 ^ 31 \<and> BN_num_bits bn (d_exponent d) < 2 ^ 30"

lemma byte_odd: "n < 256 \<Longrightarrow> (of_nat n :: byte) AND 1 = 0 \<longleftrightarrow> even n"
proof -
  have "(of_nat n :: byte) AND 2 ^ 0 = 0 \<longleftrightarrow> \<not> bit (of_nat n :: byte) 0"
    by (rule and_exp_eq_0_iff_not_bit)
  also have "\<dots> \<longleftrightarrow> even n" by (simp add: bit_of_nat_iff bit_0)
  finally show ?thesis by simp
qed

lemma decode_pairs_encode:
  assumes "list_all (\<lambda>x. x < 10) ds" and "ds \<noteq> []"
  shows "decode_pairs (EncodeToDigitPairs ds @ rest) i acc =
    (acc @ ds @ (if odd (length ds) then [0] else []), i + length (EncodeToDigitPairs ds))"
  using assms
proof (induction ds arbitrary: i acc rule: EncodeToDigitPairs.induct)
  case (2 d)
  then show ?case using byte_odd [of "d * 10 * 2"] unat_of_nat_byte [of "d * 10 * 2"] by simp
next
  case (3 d e)
  have "unat (of_nat ((d * 10 + e) * 2) :: byte) = (d * 10 + e) * 2"
    using 3 by (intro unat_of_nat_byte) simp
  then show ?case using 3 byte_odd [of "(d * 10 + e) * 2"] by (simp del: of_nat_mult of_nat_add)
next
  case (4 d e f ds)
  have "unat (of_nat ((d * 10 + e) * 2 + 1) :: byte) = (d * 10 + e) * 2 + 1"
    using 4 by (intro unat_of_nat_byte) simp
  then show ?case using 4 byte_odd [of "(d * 10 + e) * 2 + 1"] by (simp del: of_nat_mult of_nat_add)
qed simp

lemma drop_back_zeros_id: "ds = [] \<or> last ds \<noteq> 0 \<Longrightarrow> drop_back_zeros ds = ds"
  by (cases ds rule: rev_cases) (auto simp: drop_back_zeros_def)

lemma drop_back_zeros_snoc: "drop_back_zeros (ds @ [0]) = drop_back_zeros ds"
  by (simp add: drop_back_zeros_def)

lemma EncodeToDigitPairs_not_Nil: "ds \<noteq> [] \<Longrightarrow> EncodeToDigitPairs ds \<noteq> []"
  by (cases ds rule: EncodeToDigitPairs.cases) auto

lemma DecodeFromDigitPairs_encode:
  assumes "list_all (\<lambda>x. x < 10) ds" and "ds \<noteq> []" and "last ds \<noteq> 0"
  shows "DecodeFromDigitPairs (EncodeToDigitPairs ds @ rest) =
    Inr (ds, length (EncodeToDigitPairs ds))"
  using EncodeToDigitPairs_not_Nil [OF assms(2)] drop_back_zeros_id [of ds] assms(3)
  by (simp add: DecodeFromDigitPairs_def decode_pairs_encode [OF assms(1,2)] drop_back_zeros_snoc)

lemma decode_ignores_reserved:
  "VarInt_DecodeFromComparable bn ((b OR 0xc0) # bs) 2 = VarInt_DecodeFromComparable bn (b # bs) 2"
proof -
  have c: "(0xc0 :: byte) = NOT (push_bit 6 1 - 1)" by simp
  have m: "push_bit 6 1 - 1 = (mask 6 :: byte)" by (simp add: mask_eq_exp_minus_1 push_bit_eq_mult)
  have m2: "push_bit (8 - 2) 1 - 1 = (mask 6 :: byte)" using m by simp
  have two: "((2::nat) = 0) = False" by simp
  have s: "drop_bit 2 0x80 = (2 ^ 5 :: byte)" by (simp add: drop_bit_eq_div)
  have "(b OR NOT (mask 6)) AND 2 ^ k = b AND (2 ^ k :: byte)" if "k < 6" for k
    using that by (intro bit_word_eqI) (auto simp: bit_simps)
  from this [of 5] have t: "(b OR NOT (mask 6)) AND 2 ^ 5 = b AND (2 ^ 5 :: byte)" by simp
  have o: "(b OR NOT (mask 6)) OR NOT (mask 6) = b OR NOT (mask 6 :: byte)"
    "NOT (b OR NOT (mask 6)) OR NOT (mask 6) = NOT b OR NOT (mask 6 :: byte)"
    by (rule bit_word_eqI, auto simp: bit_simps)+
  show ?thesis
    unfolding c m VarInt_DecodeFromComparable_def Let_def s
    by (cases "b AND 2 ^ 5 = 0";
        simp only: list.size nth_Cons_0 list_update.simps nat.case t m2 o FlipBits_def list.map
          two if_True if_False simp_thms)
qed

lemma exponent_first_byte:
  assumes "BN_documented bn"
  obtains b bs where "VarInt_EncodeToComparable bn x 2 = b # bs" and "unat b < 64"
    and "unat (b OR 0xc0) = unat b + 192"
proof -
  define N m where "N = (if x = 0 then 1 else varint_bytes bn x 2)" and "m = nat \<bar>x\<bar>"
  have r: "(2::nat) < 7" by simp
  note c = VarInt_code [OF assms r, of x, folded N_def m_def]
  obtain p where p: "N = Suc p" using c(2) by (cases N) auto
  have "2 < 7 * N" using c(2) by linarith
  note v = code_value_sign(1) [OF c(3,2) this, of "x < 0"]
  let ?v = "code_value N 2 (x < 0) m"
  have "(2::nat) ^ (8 * N - 2) = 64 * 256 ^ p"
  proof -
    have e: "8 * N - 2 = 6 + 8 * p" by (simp add: p)
    show ?thesis unfolding e power_add power_256 by simp
  qed
  then have q: "?v div 256 ^ p < 64" using v by (intro less_mult_imp_div_less) simp
  let ?b = "of_nat (?v div 256 ^ p) :: byte"
  have u: "unat ?b = ?v div 256 ^ p" using q by (intro unat_of_nat_byte) simp
  have c0: "(0xc0 :: byte) = 0xff XOR (push_bit (8 - 2) 1 - 1)" by simp
  have "unat (?b OR 0xc0) = 256 - 2 ^ (8 - 2) + unat ?b"
    unfolding c0 using u q by (intro header_byte) simp_all
  then have "unat (?b OR 0xc0) = unat ?b + 192" by simp
  then show thesis using that [of ?b "be_bytes p ?v"] u q c(1) by (simp add: p)
qed

lemma decimal_code_positive:
  assumes "BN_documented bn" and "d_digits d \<noteq> []"
  obtains b bs where "VarInt_EncodeToComparable bn (d_exponent d) 2 = b # bs" and "unat b < 64"
    and "unat (b OR 0xc0) = unat b + 192"
    and "decimal_code bn d =
      (let out = ((b OR 0xc0) # bs) @ EncodeToDigitPairs (d_digits d)
       in if d_is_positive d then out else map (\<lambda>b. NOT b) out)"
proof -
  obtain b bs where b: "VarInt_EncodeToComparable bn (d_exponent d) 2 = b # bs" "unat b < 64"
    "unat (b OR 0xc0) = unat b + 192" by (rule exponent_first_byte [OF assms(1)])
  show thesis using that [OF b] b(1) assms(2) by (simp add: decimal_code_def Let_def)
qed

lemma Decimal_DecodeFromComparable_code:
  assumes doc: "BN_documented bn" and ok: "decimal_ok bn d"
  shows "Decimal_DecodeFromComparable bn (decimal_code bn d @ rest) =
    Inr (d, length (decimal_code bn d))"
proof (cases "d_digits d = []")
  case True
  then have "d = Decimal_clear bn"
    using ok doc VarInt_from_int64_eq [OF doc]
    by (simp add: decimal_ok_def is_canonical_def Decimal_clear_def VarInt_CompareTo_def BN_documented_def)
  then show ?thesis
    by (simp add: decimal_code_def Decimal_DecodeFromComparable_def Decimal_clear_def)
next
  case False
  obtain b bs where b: "VarInt_EncodeToComparable bn (d_exponent d) 2 = b # bs" "unat b < 64"
    "unat (b OR 0xc0) = unat b + 192"
    "decimal_code bn d =
      (let out = ((b OR 0xc0) # bs) @ EncodeToDigitPairs (d_digits d)
       in if d_is_positive d then out else map (\<lambda>b. NOT b) out)"
    by (rule decimal_code_positive [OF doc False])
  let ?M = "EncodeToDigitPairs (d_digits d)"
  define rest' where "rest' = (if d_is_positive d then rest else map (\<lambda>b. NOT b) rest)"
  define f where "f = (if d_is_positive d then b OR 0xc0 else NOT (b OR 0xc0))"
  have f: "f \<noteq> 128" "(f \<ge> 128) = d_is_positive d"
  proof -
    have "unat f \<ge> 192 \<or> unat f < 64" "unat f \<ge> 128 \<longleftrightarrow> d_is_positive d"
      using b(2,3) unat_byte_NOT [of "b OR 0xc0"] by (auto simp: f_def)
    then show "f \<noteq> 128" "(f \<ge> 128) = d_is_positive d" by (auto simp: word_le_nat_alt)
  qed
  have hd: "\<exists>fs. decimal_code bn d @ rest = f # fs"
    unfolding b(4) by (simp add: f_def Let_def)
  have enc: "(if d_is_positive d then decimal_code bn d @ rest
      else map (\<lambda>b. NOT b) (decimal_code bn d @ rest)) =
      (b OR 0xc0) # bs @ ?M @ rest'"
    unfolding b(4) by (simp add: rest'_def Let_def comp_def)
  have r: "(2::nat) < 7" by simp
  have "VarInt_DecodeFromComparable bn ((b OR 0xc0) # bs @ ?M @ rest') 2 =
      Inr (d_exponent d, length (b # bs))"
    using VarInt_DecodeFromComparable_encode [OF doc r, of "d_exponent d" "?M @ rest'"]
    by (simp add: b(1) decode_ignores_reserved)
  moreover have "DecodeFromDigitPairs (?M @ rest') = Inr (d_digits d, length ?M)"
    using ok False by (intro DecodeFromDigitPairs_encode) (auto simp: decimal_ok_def is_canonical_def)
  moreover have "length (decimal_code bn d) = length (b # bs) + length ?M"
    unfolding b(4) by (simp add: Let_def)
  ultimately show ?thesis
    using hd f enc by (auto simp: Decimal_DecodeFromComparable_def Let_def)
qed

subsection \<open>Order of digits\<close>

fun digits_less :: "nat list \<Rightarrow> nat list \<Rightarrow> bool" where
  "digits_less _ [] = False"
| "digits_less [] (e # es) = True"
| "digits_less (d # ds) (e # es) = (d < e \<or> d = e \<and> digits_less ds es)"

lemma digits_less_linear: "digits_less ds es \<or> ds = es \<or> digits_less es ds"
proof (induction ds es rule: digits_less.induct)
  case (1 ds)
  then show ?case by (cases ds) auto
qed auto

lemma digits_less_asym: "digits_less ds es \<Longrightarrow> \<not> digits_less es ds"
  by (induction ds es rule: digits_less.induct) auto

lemma compare_digits_iff:
  "compare_digits ds es < 0 \<or> compare_digits ds es = 0 \<and> length ds < length es \<longleftrightarrow> digits_less ds es"
proof (induction ds es rule: digits_less.induct)
  case (1 ds)
  then show ?case by (cases ds) auto
qed (auto simp: Let_def)

lemma compare_digits_antisym: "compare_digits es ds = - compare_digits ds es"
  by (induction ds es rule: compare_digits.induct) (auto simp: Let_def)

lemma digit_pairs_prec:
  assumes "digits_less ds es" and "list_all (\<lambda>x. x < 10) ds" and "list_all (\<lambda>x. x < 10) es"
    and "ds \<noteq> []" and "last es \<noteq> 0"
  shows "bytes_prec (EncodeToDigitPairs ds) (EncodeToDigitPairs es)"
  using assms
proof (induction ds arbitrary: es rule: EncodeToDigitPairs.induct)
  case 1
  then show ?case by simp
next
  case (2 d)
  have u: "unat (of_nat n :: byte) = n" if "n < 256" for n using that by (rule unat_of_nat_byte)
  show ?case
    using 2 u [of "d * 10 * 2"]
    by (cases es rule: EncodeToDigitPairs.cases)
      (auto simp: word_less_nat_alt u simp del: of_nat_mult of_nat_add of_nat_Suc)
next
  case (3 d e)
  have u: "unat (of_nat n :: byte) = n" if "n < 256" for n using that by (rule unat_of_nat_byte)
  show ?case
    using 3 u [of "(d * 10 + e) * 2"]
    by (cases es rule: EncodeToDigitPairs.cases)
      (auto simp: word_less_nat_alt u simp del: of_nat_mult of_nat_add of_nat_Suc)
next
  case (4 d e f ds)
  have u: "unat (of_nat n :: byte) = n" if "n < 256" for n using that by (rule unat_of_nat_byte)
  show ?case
    using 4 u [of "(d * 10 + e) * 2 + 1"]
    by (cases es rule: EncodeToDigitPairs.cases)
      (auto simp: word_less_nat_alt u simp del: of_nat_mult of_nat_add of_nat_Suc)
qed

subsection \<open>Order of the comparable encoding\<close>

lemma decimal_okD:
  assumes "BN_documented bn" and "decimal_ok bn d"
  shows "list_all (\<lambda>x. x < 10) (d_digits d)"
    and "d_digits d = [] \<Longrightarrow> d_is_positive d \<and> d_exponent d = 0"
    and "d_digits d \<noteq> [] \<Longrightarrow> hd (d_digits d) \<noteq> 0 \<and> last (d_digits d) \<noteq> 0"
  using assms VarInt_from_int64_eq [OF assms(1)]
  by (auto simp: decimal_ok_def is_canonical_def VarInt_CompareTo_def BN_documented_def)

lemma VarInt_CompareTo_sign:
  assumes "BN_documented bn"
  shows "VarInt_CompareTo bn x y < 0 \<longleftrightarrow> x < y" and "VarInt_CompareTo bn x y = 0 \<longleftrightarrow> x = y"
    and "VarInt_CompareTo bn x y > 0 \<longleftrightarrow> y < x"
proof -
  show a: "VarInt_CompareTo bn x y < 0 \<longleftrightarrow> x < y" and b: "VarInt_CompareTo bn x y = 0 \<longleftrightarrow> x = y"
    using assms by (simp_all add: VarInt_CompareTo_def BN_documented_def)
  show "VarInt_CompareTo bn x y > 0 \<longleftrightarrow> y < x" using a b by linarith
qed

text \<open>What the comparison decides, by cases.\<close>

definition exact_compare :: "BN \<Rightarrow> Decimal \<Rightarrow> Decimal \<Rightarrow> int" where
  "exact_compare bn d other =
     (if d_is_positive d \<noteq> d_is_positive other then
        of_bool (d_is_positive d) - of_bool (d_is_positive other)
      else if d_digits d = [] \<or> d_digits other = [] then
        let comp = of_bool (d_digits d = []) - of_bool (d_digits other = [])
        in if d_is_positive d then - comp else comp
      else
        let comp = VarInt_CompareTo bn (d_exponent d) (d_exponent other);
            comp = (if comp \<noteq> 0 then comp else compare_digits (d_digits d) (d_digits other));
            comp = (if comp \<noteq> 0 then comp else int (length (d_digits d)) - int (length (d_digits other)))
        in if d_is_positive d then comp else - comp)"

lemma sint_length_u32: "n < 2 ^ 31 \<Longrightarrow> sint (of_nat n :: u32) = int n"
  by (simp add: signed_of_nat signed_take_bit_int_eq_self)

text \<open>Below \<open>2\<^sup>3\<^sup>1\<close> digits the comparison of the code is that of unbounded integers.\<close>

lemma Decimal_CompareTo_exact:
  assumes "length (d_digits a) < 2 ^ 31" and "length (d_digits b) < 2 ^ 31"
  shows "Decimal_CompareTo bn a b = Inr (exact_compare bn a b)"
proof -
  let ?c = "int (length (d_digits a)) - int (length (d_digits b))"
  have "- (2 ^ 31) < ?c" "?c < 2 ^ 31" using assms by auto
  then have "int32_result ?c = Inr ?c" "int32_result (- ?c) = Inr (- ?c)"
    by (simp_all add: int32_result_def)
  then show ?thesis
    unfolding Decimal_CompareTo_def exact_compare_def Let_def sint_length_u32 [OF assms(1)]
      sint_length_u32 [OF assms(2)] by simp
qed

definition magnitude_less :: "Decimal \<Rightarrow> Decimal \<Rightarrow> bool" where
  "magnitude_less a b \<longleftrightarrow>
     d_exponent a < d_exponent b \<or>
     d_exponent a = d_exponent b \<and> digits_less (d_digits a) (d_digits b)"

definition decimal_less :: "Decimal \<Rightarrow> Decimal \<Rightarrow> bool" where
  "decimal_less a b \<longleftrightarrow>
     (if d_is_positive a \<noteq> d_is_positive b then d_is_positive b
      else if d_digits a = [] \<or> d_digits b = [] then d_digits a = [] \<and> d_digits b \<noteq> []
      else if d_is_positive a then magnitude_less a b else magnitude_less b a)"

lemma exact_compare_less:
  assumes doc: "BN_documented bn" and ok: "decimal_ok bn a" "decimal_ok bn b"
  shows "exact_compare bn a b < 0 \<longleftrightarrow> decimal_less a b"
proof -
  note s = VarInt_CompareTo_sign [OF doc, of "d_exponent a" "d_exponent b"]
  note c = compare_digits_iff [of "d_digits a" "d_digits b"]
    compare_digits_iff [of "d_digits b" "d_digits a"] compare_digits_antisym [of "d_digits b" "d_digits a"]
  note z = decimal_okD(2) [OF doc ok(1)] decimal_okD(2) [OF doc ok(2)]
  show ?thesis
  proof (cases "d_is_positive a = d_is_positive b \<and> d_digits a \<noteq> [] \<and> d_digits b \<noteq> []")
    case True
    then show ?thesis
      using s c unfolding exact_compare_def decimal_less_def magnitude_less_def Let_def
      by (cases "d_exponent a = d_exponent b"; cases "d_is_positive b") auto
  next
    case False
    then show ?thesis using z
      unfolding exact_compare_def decimal_less_def Let_def by (auto split: if_splits)
  qed
qed

lemma exact_compare_equal:
  assumes doc: "BN_documented bn" and ok: "decimal_ok bn a" "decimal_ok bn b"
  shows "exact_compare bn a b = 0 \<longleftrightarrow> a = b"
proof
  assume *: "exact_compare bn a b = 0"
  have "d_is_positive a = d_is_positive b"
    using * by (auto simp: exact_compare_def split: if_splits)
  moreover have "d_digits a = d_digits b \<and> d_exponent a = d_exponent b"
  proof (cases "d_digits a = [] \<or> d_digits b = []")
    case True
    then have "d_digits a = [] \<and> d_digits b = []"
      using * calculation by (auto simp: exact_compare_def Let_def split: if_splits)
    then show ?thesis using decimal_okD(2) [OF doc ok(1)] decimal_okD(2) [OF doc ok(2)] by simp
  next
    case False
    then have "VarInt_CompareTo bn (d_exponent a) (d_exponent b) = 0"
      "compare_digits (d_digits a) (d_digits b) = 0" "length (d_digits a) = length (d_digits b)"
      using * calculation by (auto simp: exact_compare_def Let_def split: if_splits)
    then show ?thesis
      using VarInt_CompareTo_sign(2) [OF doc] digits_less_linear [of "d_digits a" "d_digits b"]
        compare_digits_iff [of "d_digits a" "d_digits b"]
        compare_digits_iff [of "d_digits b" "d_digits a"]
        compare_digits_antisym [of "d_digits b" "d_digits a"] by auto
  qed
  ultimately show "a = b" by (cases a, cases b) simp
next
  assume "a = b"
  have "compare_digits ds ds = 0" for ds by (induction ds) (auto simp: Let_def)
  then show "exact_compare bn a b = 0"
    using \<open>a = b\<close> VarInt_CompareTo_sign(2) [OF doc] by (simp add: exact_compare_def Let_def)
qed

lemma decimal_less_linear:
  assumes "BN_documented bn" and "decimal_ok bn a" and "decimal_ok bn b" and "a \<noteq> b"
  shows "decimal_less a b \<or> decimal_less b a"
proof -
  have "a = b" if "d_digits a = d_digits b" "d_exponent a = d_exponent b" "d_is_positive a = d_is_positive b"
    using that by (cases a, cases b) simp
  then show ?thesis
    using assms(4) digits_less_linear [of "d_digits a" "d_digits b"]
      decimal_okD(2) [OF assms(1,2)] decimal_okD(2) [OF assms(1,3)]
    by (auto simp: decimal_less_def magnitude_less_def)
qed

lemma magnitude_prec:
  assumes doc: "BN_documented bn" and ok: "decimal_ok bn a" "decimal_ok bn b"
    and ne: "d_digits a \<noteq> []" "d_digits b \<noteq> []" and lt: "magnitude_less a b"
    and e: "VarInt_EncodeToComparable bn (d_exponent a) 2 = x # xs" "unat (x OR 0xc0) = unat x + 192"
    and f: "VarInt_EncodeToComparable bn (d_exponent b) 2 = y # ys" "unat (y OR 0xc0) = unat y + 192"
  shows "bytes_prec (((x OR 0xc0) # xs) @ EncodeToDigitPairs (d_digits a))
    (((y OR 0xc0) # ys) @ EncodeToDigitPairs (d_digits b))"
proof (cases "d_exponent a < d_exponent b")
  case True
  have r: "(2::nat) < 7" by simp
  have "bytes_prec (x # xs) (y # ys)"
    using VarInt_EncodeToComparable_prec [OF doc r True] by (simp add: e f)
  moreover have "x OR 0xc0 < y OR 0xc0 \<longleftrightarrow> x < y" "x OR 0xc0 = y OR 0xc0 \<longleftrightarrow> x = y"
    using e(2) f(2) by (auto simp: word_less_nat_alt word_unat_eq_iff)
  ultimately have "bytes_prec ((x OR 0xc0) # xs) ((y OR 0xc0) # ys)" by auto
  then show ?thesis by (rule bytes_prec_append)
next
  case False
  then have *: "d_exponent a = d_exponent b" "digits_less (d_digits a) (d_digits b)"
    using lt by (auto simp: magnitude_less_def)
  then have "bytes_prec (EncodeToDigitPairs (d_digits a)) (EncodeToDigitPairs (d_digits b))"
    using ne decimal_okD(1) [OF doc ok(1)] decimal_okD(1) [OF doc ok(2)] decimal_okD(3) [OF doc ok(2)]
    by (intro digit_pairs_prec) auto
  then show ?thesis using * e f by simp
qed

lemma decimal_code_prec:
  assumes doc: "BN_documented bn" and ok: "decimal_ok bn a" "decimal_ok bn b"
    and lt: "decimal_less a b"
  shows "bytes_prec (decimal_code bn a) (decimal_code bn b)"
proof -
  have first: "\<exists>c cs. decimal_code bn d = c # cs \<and>
    (if d_digits d = [] then c = 128 else if d_is_positive d then unat c \<ge> 192 else unat c < 64)" for d
  proof (cases "d_digits d = []")
    case False
    obtain b bs where b: "unat b < 64" "unat (b OR 0xc0) = unat b + 192"
      "decimal_code bn d = (let out = ((b OR 0xc0) # bs) @ EncodeToDigitPairs (d_digits d)
       in if d_is_positive d then out else map (\<lambda>b. NOT b) out)"
      by (rule decimal_code_positive [OF doc False])
    show ?thesis unfolding b(3) using False b(1,2) unat_byte_NOT [of "b OR 0xc0"]
      by (simp add: Let_def)
  qed (simp add: decimal_code_def)
  show ?thesis
  proof (cases "d_is_positive a = d_is_positive b \<and> d_digits a \<noteq> [] \<and> d_digits b \<noteq> []")
    case True
    obtain x xs where x: "VarInt_EncodeToComparable bn (d_exponent a) 2 = x # xs"
      "unat (x OR 0xc0) = unat x + 192"
      "decimal_code bn a = (let out = ((x OR 0xc0) # xs) @ EncodeToDigitPairs (d_digits a)
       in if d_is_positive a then out else map (\<lambda>b. NOT b) out)"
      using decimal_code_positive [OF doc, of a] True by blast
    obtain y ys where y: "VarInt_EncodeToComparable bn (d_exponent b) 2 = y # ys"
      "unat (y OR 0xc0) = unat y + 192"
      "decimal_code bn b = (let out = ((y OR 0xc0) # ys) @ EncodeToDigitPairs (d_digits b)
       in if d_is_positive b then out else map (\<lambda>b. NOT b) out)"
      using decimal_code_positive [OF doc, of b] True by blast
    show ?thesis
    proof (cases "d_is_positive b")
      case pos: True
      then have "magnitude_less a b" using lt True by (simp add: decimal_less_def)
      then show ?thesis using magnitude_prec [OF doc ok _ _ _ x(1,2) y(1,2)] True pos
        unfolding x(3) y(3) by (simp add: Let_def)
    next
      case neg: False
      then have "magnitude_less b a" using lt True by (simp add: decimal_less_def)
      then have "bytes_prec (((y OR 0xc0) # ys) @ EncodeToDigitPairs (d_digits b))
          (((x OR 0xc0) # xs) @ EncodeToDigitPairs (d_digits a))"
        using magnitude_prec [OF doc ok(2,1) _ _ _ y(1,2) x(1,2)] True by simp
      then show ?thesis unfolding x(3) y(3) Let_def
        by (simp only: True neg bytes_prec_map_NOT if_False)
    qed
  next
    case False
    then show ?thesis
      using lt first [of a] first [of b] decimal_okD(2) [OF doc ok(1)] decimal_okD(2) [OF doc ok(2)]
      by (auto simp: decimal_less_def word_less_nat_alt split: if_splits)
  qed
qed

subsection \<open>Numeric value\<close>

definition decimal_value :: "Decimal \<Rightarrow> rat" where
  "decimal_value d =
     (if d_is_positive d then 1 else - 1) * of_nat (dec_value (d_digits d)) *
     10 powi (d_exponent d - int (length (d_digits d)))"

fun fraction :: "nat list \<Rightarrow> rat" where
  "fraction [] = 0"
| "fraction (d # ds) = (of_nat d + fraction ds) / 10"

lemma dec_value_Cons: "dec_value (d # ds) = d * 10 ^ length ds + dec_value ds"
proof -
  have "foldl (\<lambda>v d. 10 * v + d) a ds = a * 10 ^ length ds + foldl (\<lambda>v d. 10 * v + d) 0 ds" for a
  proof (induction ds arbitrary: a)
    case (Cons e es)
    show ?case using Cons [of "10 * a + e"] Cons [of e] by (simp add: algebra_simps)
  qed simp
  from this [of d] show ?thesis by (simp add: dec_value_def)
qed

lemma dec_value_Nil [simp]: "dec_value [] = 0"
  by (simp add: dec_value_def)

lemma dec_value_append: "dec_value (ds @ es) = dec_value ds * 10 ^ length es + dec_value es"
  by (induction ds) (simp_all add: dec_value_Cons power_add algebra_simps)

lemma fraction_value: "of_nat (dec_value ds) = fraction ds * 10 ^ length ds"
  by (induction ds) (simp_all add: dec_value_Cons field_simps)

lemma decimal_value_fraction:
  "decimal_value d = (if d_is_positive d then 1 else - 1) * fraction (d_digits d) * 10 powi d_exponent d"
  by (simp add: decimal_value_def fraction_value power_int_diff)

lemma fraction_bounds:
  assumes "list_all (\<lambda>x. x < 10) ds"
  shows "0 \<le> fraction ds" and "fraction ds < 1"
proof -
  have "0 \<le> fraction ds \<and> fraction ds < 1" using assms
  proof (induction ds)
    case (Cons d ds)
    then have "(of_nat d :: rat) \<le> 9" by simp
    then show ?case using Cons by auto
  qed simp
  then show "0 \<le> fraction ds" and "fraction ds < 1" by auto
qed

lemma fraction_pos:
  assumes "list_all (\<lambda>x. x < 10) ds" and "ds \<noteq> []" and "last ds \<noteq> 0"
  shows "0 < fraction ds"
  using assms
proof (induction ds)
  case (Cons d ds)
  show ?case
  proof (cases "ds = []")
    case False
    then have "0 < fraction ds" using Cons by simp
    moreover have "(0 :: rat) \<le> of_nat d" by simp
    ultimately show ?thesis by (simp add: add_nonneg_pos)
  qed (use Cons in simp)
qed simp

lemma fraction_ge_tenth:
  assumes "list_all (\<lambda>x. x < 10) ds" and "ds \<noteq> []" and "hd ds \<noteq> 0"
  shows "1 / 10 \<le> fraction ds"
proof -
  obtain d es where ds: "ds = d # es" using assms(2) by (cases ds) auto
  have "(1 :: rat) \<le> of_nat d" using assms(3) by (simp add: ds)
  moreover have "0 \<le> fraction es" using assms(1) by (intro fraction_bounds) (simp add: ds)
  ultimately have "1 \<le> of_nat d + fraction es" by linarith
  then show ?thesis by (simp add: ds)
qed

lemma fraction_less:
  assumes "digits_less ds es" and "list_all (\<lambda>x. x < 10) ds" and "list_all (\<lambda>x. x < 10) es"
    and "es \<noteq> [] \<longrightarrow> last es \<noteq> 0"
  shows "fraction ds < fraction es"
  using assms
proof (induction ds es rule: digits_less.induct)
  case (2 e es)
  then show ?case using fraction_pos [of "e # es"] by simp
next
  case (3 d ds e es)
  show ?case
  proof (cases "d < e")
    case True
    have "fraction ds < 1" "0 \<le> fraction es" using 3 by (auto intro: fraction_bounds)
    moreover have "(of_nat d :: rat) + 1 \<le> of_nat e" using True
      by (metis Suc_leI of_nat_Suc of_nat_le_iff add.commute)
    ultimately have "of_nat d + fraction ds < of_nat e + fraction es" by linarith
    then show ?thesis by simp
  next
    case False
    then show ?thesis using 3 by (cases es) auto
  qed
qed simp

lemma magnitude_value_less:
  assumes doc: "BN_documented bn" and ok: "decimal_ok bn a" "decimal_ok bn b"
    and ne: "d_digits a \<noteq> []" "d_digits b \<noteq> []" and lt: "magnitude_less a b"
  shows "fraction (d_digits a) * 10 powi d_exponent a < fraction (d_digits b) * 10 powi d_exponent b"
proof (cases "d_exponent a < d_exponent b")
  case True
  have "fraction (d_digits a) * 10 powi d_exponent a < 1 * 10 powi d_exponent a"
    using fraction_bounds(2) [OF decimal_okD(1) [OF doc ok(1)]]
    by (intro mult_strict_right_mono) simp_all
  also have "(1 :: rat) * 10 powi d_exponent a \<le> 10 powi (d_exponent b - 1)"
    using True by (simp add: power_int_increasing)
  also have "(10 :: rat) powi (d_exponent b - 1) = 1 / 10 * 10 powi d_exponent b"
    by (simp add: power_int_diff)
  also have "\<dots> \<le> fraction (d_digits b) * 10 powi d_exponent b"
    using fraction_ge_tenth [OF decimal_okD(1) [OF doc ok(2)] ne(2)] decimal_okD(3) [OF doc ok(2) ne(2)]
    by (intro mult_right_mono) simp_all
  finally show ?thesis .
next
  case False
  then have *: "d_exponent a = d_exponent b" "digits_less (d_digits a) (d_digits b)"
    using lt by (auto simp: magnitude_less_def)
  then have "fraction (d_digits a) < fraction (d_digits b)"
    using decimal_okD [OF doc ok(1)] decimal_okD [OF doc ok(2)] by (intro fraction_less) auto
  then show ?thesis using * by (simp add: mult_strict_right_mono)
qed

lemma decimal_less_value:
  assumes doc: "BN_documented bn" and ok: "decimal_ok bn a" "decimal_ok bn b" and lt: "decimal_less a b"
  shows "decimal_value a < decimal_value b"
proof -
  have pos: "0 < fraction (d_digits d) * 10 powi d_exponent d" if "decimal_ok bn d" "d_digits d \<noteq> []" for d
    using fraction_pos [OF decimal_okD(1) [OF doc that(1)] that(2)] decimal_okD(3) [OF doc that]
    by simp
  have nn: "0 \<le> fraction (d_digits d) * 10 powi d_exponent d" if "decimal_ok bn d" for d
    using fraction_bounds(1) [OF decimal_okD(1) [OF doc that]] by simp
  show ?thesis
  proof (cases "d_is_positive a = d_is_positive b \<and> d_digits a \<noteq> [] \<and> d_digits b \<noteq> []")
    case True
    then show ?thesis
      using lt magnitude_value_less [OF doc ok] magnitude_value_less [OF doc ok(2,1)]
      by (auto simp: decimal_less_def decimal_value_fraction)
  next
    case sign: False
    show ?thesis
    proof (cases "d_is_positive a = d_is_positive b")
      case True
      then show ?thesis
        using sign lt pos [OF ok(2)] decimal_okD(2) [OF doc ok(1)] by (auto simp: decimal_less_def decimal_value_fraction split: if_splits)
    next
      case False
      then have s: "d_is_positive b" "\<not> d_is_positive a" using lt by (auto simp: decimal_less_def)
      then have "d_digits a \<noteq> []" using decimal_okD(2) [OF doc ok(1)] by blast
      from pos [OF ok(1) this] nn [OF ok(2)]
      have "- (fraction (d_digits a) * 10 powi d_exponent a) < fraction (d_digits b) * 10 powi d_exponent b"
        by linarith
      then show ?thesis using s by (simp add: decimal_value_fraction)
    qed
  qed
qed

lemma exact_compare_value:
  assumes doc: "BN_documented bn" and ok: "decimal_ok bn a" "decimal_ok bn b"
  shows "exact_compare bn a b < 0 \<longleftrightarrow> decimal_value a < decimal_value b"
    and "exact_compare bn a b = 0 \<longleftrightarrow> decimal_value a = decimal_value b"
proof -
  note l = decimal_less_value [OF doc ok] decimal_less_value [OF doc ok(2,1)]
    decimal_less_linear [OF doc ok] exact_compare_less [OF doc ok] exact_compare_equal [OF doc ok]
  show "exact_compare bn a b < 0 \<longleftrightarrow> decimal_value a < decimal_value b"
    and "exact_compare bn a b = 0 \<longleftrightarrow> decimal_value a = decimal_value b"
    using l by (cases "a = b"; auto)+
qed

text \<open>Canonical numbers with the same value are the same.\<close>

lemma decimal_unique:
  assumes "BN_documented bn" and "decimal_ok bn a" and "decimal_ok bn b"
    and "decimal_value a = decimal_value b"
  shows "a = b"
  using assms exact_compare_value(2) [OF assms(1-3)] exact_compare_equal [OF assms(1-3)] by blast

subsection \<open>Canonical form\<close>

lemma fraction_append_zeros: "fraction (ds @ replicate n 0) = fraction ds"
proof -
  have z: "fraction (replicate n 0) = 0" by (induction n) auto
  show ?thesis by (induction ds) (simp_all add: z)
qed

lemma fraction_zeros_append: "fraction (replicate n 0 @ ds) = fraction ds / 10 ^ n"
  by (induction n) simp_all

lemma drop_back_zeros_split:
  obtains n where "ds = drop_back_zeros ds @ replicate n 0"
    and "drop_back_zeros ds = [] \<or> last (drop_back_zeros ds) \<noteq> 0"
proof -
  have "rev ds = takeWhile (\<lambda>d. d = 0) (rev ds) @ dropWhile (\<lambda>d. d = 0) (rev ds)" by simp
  then have "ds = drop_back_zeros ds @ rev (takeWhile (\<lambda>d. d = 0) (rev ds))"
    unfolding drop_back_zeros_def by (metis rev_append rev_rev_ident)
  moreover have "takeWhile (\<lambda>d. d = 0) (rev ds) =
      replicate (length (takeWhile (\<lambda>d. d = 0) (rev ds))) 0"
    by (rule replicate_eqI) (auto dest: set_takeWhileD)
  ultimately have "ds = drop_back_zeros ds @ replicate (length (takeWhile (\<lambda>d. d = 0) (rev ds))) 0"
    by (metis rev_replicate)
  moreover have "drop_back_zeros ds = [] \<or> last (drop_back_zeros ds) \<noteq> 0"
    unfolding drop_back_zeros_def
    by (metis (mono_tags, lifting) hd_dropWhile last_rev rev_is_Nil_conv)
  ultimately show thesis by (rule that)
qed

lemma make_canonical_correct:
  assumes doc: "BN_documented bn" and digits: "list_all (\<lambda>x. x < 10) (d_digits d)"
    and len: "length (d_digits d) < 2 ^ 63"
  shows "decimal_ok bn (make_canonical bn d)" and "decimal_value (make_canonical bn d) = decimal_value d"
proof -
  have "decimal_ok bn (make_canonical bn d) \<and> decimal_value (make_canonical bn d) = decimal_value d"
  proof (cases "is_canonical bn d")
    case True
    then show ?thesis using digits by (simp add: make_canonical_def decimal_ok_def)
  next
    case False
    define n where "n = length (takeWhile (\<lambda>d. d = 0) (d_digits d))"
    define rest where "rest = drop n (d_digits d)"
    have "takeWhile (\<lambda>d. d = 0) (d_digits d) = replicate n 0"
      unfolding n_def by (rule replicate_eqI) (auto dest: set_takeWhileD)
    then have split: "d_digits d = replicate n 0 @ rest"
      unfolding rest_def n_def by (metis dropWhile_eq_drop takeWhile_dropWhile_id)
    have hd: "rest = [] \<or> hd rest \<noteq> 0"
      using hd_dropWhile [of "\<lambda>d. d = 0" "d_digits d"]
      unfolding rest_def n_def dropWhile_eq_drop [symmetric] by metis
    obtain k where k: "rest @ replicate n 0 = drop_back_zeros (rest @ replicate n 0) @ replicate k 0"
      and last: "drop_back_zeros (rest @ replicate n 0) = [] \<or> last (drop_back_zeros (rest @ replicate n 0)) \<noteq> 0"
      by (rule drop_back_zeros_split)
    let ?ds = "drop_back_zeros (rest @ replicate n 0)"
    have f: "fraction ?ds = fraction rest"
      using fraction_append_zeros [of ?ds k] fraction_append_zeros [of rest n] unfolding k [symmetric] by simp
    have "n \<le> length (d_digits d)" by (simp add: n_def length_takeWhile_le)
    then have n63: "n < 2 ^ 63" using len by linarith
    have "sint (word_of_int (int n) :: u64) = int n"
      using n63 by (intro sint_of_int_small) (simp_all flip: of_nat_less_iff)
    then have sn: "sint (of_nat n :: u64) = int n" by simp
    have e: "VarInt_minus bn (d_exponent d) (VarInt_from_int64 bn (of_nat n)) = d_exponent d - int n"
      using doc by (simp add: VarInt_minus_def VarInt_from_int64_eq [OF doc] sn BN_documented_def)
    have mc: "make_canonical bn d = (if ?ds = [] then Decimal_clear bn
        else d\<lparr>d_digits := ?ds, d_exponent := d_exponent d - int n\<rparr>)"
      using False unfolding make_canonical_def Let_def n_def [symmetric] rest_def [symmetric] e by simp
    have val: "decimal_value d = (if d_is_positive d then 1 else - 1) * fraction ?ds *
        10 powi (d_exponent d - int n)"
      unfolding decimal_value_fraction split fraction_zeros_append f by (simp add: power_int_diff)
    show ?thesis
    proof (cases "?ds = []")
      case True
      then have "decimal_value d = 0" unfolding val by simp
      then show ?thesis unfolding mc using True doc VarInt_from_int64_eq [OF doc]
        by (simp add: decimal_ok_def is_canonical_def Decimal_clear_def decimal_value_def
            VarInt_CompareTo_sign [OF doc])
    next
      case ds: False
      have "set ?ds \<subseteq> set (rest @ replicate n 0)" by (subst k) simp
      moreover have "set (rest @ replicate n 0) \<subseteq> set (d_digits d)" unfolding split by auto
      ultimately have small: "list_all (\<lambda>x. x < 10) ?ds" using digits by (auto simp: list_all_iff)
      have "rest \<noteq> []"
      proof
        assume r: "rest = []"
        have "set ?ds \<subseteq> {0}" using \<open>set ?ds \<subseteq> set (rest @ replicate n 0)\<close> r by auto
        then have "last ?ds = 0" using last_in_set [OF ds] by blast
        then show False using ds last by simp
      qed
      then have "hd ?ds \<noteq> 0" using hd k ds by (metis hd_append2)
      then show ?thesis unfolding mc val using ds small last
        by (simp add: decimal_ok_def is_canonical_def decimal_value_fraction)
    qed
  qed
  then show "decimal_ok bn (make_canonical bn d)"
    and "decimal_value (make_canonical bn d) = decimal_value d" by auto
qed

subsection \<open>Sizes\<close>

lemma EncodeToDigitPairs_length: "length (EncodeToDigitPairs ds) = (length ds + 1) div 2"
  by (induction ds rule: EncodeToDigitPairs.induct) auto

lemma decimal_code_length:
  assumes doc: "BN_documented bn" and fits: "decimal_fits bn d"
  shows "length (decimal_code bn d) < 2 ^ 31"
proof -
  let ?e = "VarInt_EncodeToComparable bn (d_exponent d) 2" and ?L = "BN_num_bits bn (d_exponent d)"
  have "length ?e \<le> (?L + 9) div 7"
  proof (cases "d_exponent d = 0")
    case True
    then show ?thesis using VarInt_code(1) [OF doc, of 2 "d_exponent d"] by simp
  next
    case False
    then show ?thesis using VarInt_code(1) [OF doc, of 2 "d_exponent d"] by (simp add: varint_bytes_def)
  qed
  moreover have "length (EncodeToDigitPairs (d_digits d)) \<le> 2 ^ 30"
    using fits unfolding EncodeToDigitPairs_length decimal_fits_def by (simp; linarith)
  moreover have "(?L + 9) div 7 < 2 ^ 30" using fits unfolding decimal_fits_def by (simp; linarith)
  ultimately show ?thesis by (simp add: decimal_code_def Let_def)
qed

lemma Decimal_EncodeToComparable_code:
  assumes "BN_documented bn" and "decimal_fits bn d"
  shows "Decimal_EncodeToComparable bn d = Inr (decimal_code bn d)"
  using decimal_code_length [OF assms]
  by (simp add: Decimal_EncodeToComparable_def decimal_code_def complement_output_def Let_def split: if_splits)

lemma decimal_code_order:
  assumes "BN_documented bn" and "decimal_ok bn a" and "decimal_ok bn b"
  shows "slice_compare (decimal_code bn a @ x) (decimal_code bn b @ y) < 0 \<and> a \<noteq> b \<longleftrightarrow>
    exact_compare bn a b < 0"
proof -
  have less: "bytes_less (decimal_code bn c @ u) (decimal_code bn d @ v)"
    if "decimal_ok bn c" "decimal_ok bn d" "decimal_less c d" for c d u v
    using decimal_code_prec [OF assms(1) that] by (intro bytes_prec_less bytes_prec_append)
  show ?thesis
    unfolding slice_compare_less_iff exact_compare_less [OF assms]
    using less [OF assms(2,3)] less [OF assms(3,2)] decimal_less_linear [OF assms]
      exact_compare_less [OF assms] exact_compare_equal [OF assms]
      bytes_less_trans bytes_less_irrefl by (metis less_irrefl)
qed

subsection \<open>Properties\<close>

text \<open>
  C19: decimal numbers in canonical form, with fewer than \<open>2\<^sup>3\<^sup>1\<close> digits and an exponent of fewer than
  \<open>2\<^sup>3\<^sup>0\<close> bits, can be encoded; they are read back from their comparable encoding, whatever follows it,
  with the number of bytes it takes; and encodings, also inside longer byte strings, sort as
  \<^verbatim>\<open>CompareTo\<close>, which returns a result, sorts the numbers.
\<close>

theorem decimal_comparable_encoding:
  assumes "BN_documented bn" and "decimal_ok bn a" and "decimal_ok bn b"
    and "decimal_fits bn a" and "decimal_fits bn b"
  shows "\<exists>code_a code_b comp.
    Decimal_EncodeToComparable bn a = Inr code_a \<and> Decimal_EncodeToComparable bn b = Inr code_b \<and>
    Decimal_CompareTo bn a b = Inr comp \<and>
    Decimal_DecodeFromComparable bn (code_a @ rest) = Inr (a, length code_a) \<and>
    (slice_compare (code_a @ x) (code_b @ y) < 0 \<and> a \<noteq> b \<longleftrightarrow> comp < 0)"
proof -
  have "Decimal_CompareTo bn a b = Inr (exact_compare bn a b)"
    using assms(4,5) by (intro Decimal_CompareTo_exact) (simp_all add: decimal_fits_def)
  then show ?thesis
    using Decimal_EncodeToComparable_code [OF assms(1,4)] Decimal_EncodeToComparable_code [OF assms(1,5)]
      Decimal_DecodeFromComparable_code [OF assms(1,2)] decimal_code_order [OF assms(1-3)] by blast
qed

definition sample_decimal :: Decimal where
  "sample_decimal = \<lparr>d_digits = [1, 2, 5], d_exponent = 1, d_is_positive = True\<rparr>"

definition sample_decimal_2 :: Decimal where
  "sample_decimal_2 = \<lparr>d_digits = [1, 3], d_exponent = 1, d_is_positive = True\<rparr>"

lemma sample_decimal_ok: "decimal_ok reference_BN sample_decimal" "decimal_ok reference_BN sample_decimal_2"
  by (simp_all add: decimal_ok_def is_canonical_def sample_decimal_def sample_decimal_2_def)

lemma sample_decimal_fits: "decimal_fits reference_BN sample_decimal" "decimal_fits reference_BN sample_decimal_2"
proof -
  have "BN_num_bits reference_BN 1 \<le> 1"
    using reference_BN_documented by (simp add: BN_documented_def)
  then show "decimal_fits reference_BN sample_decimal" "decimal_fits reference_BN sample_decimal_2"
    by (simp_all add: decimal_fits_def sample_decimal_def sample_decimal_2_def)
qed

theorem decimal_comparable_encoding_witness:
  "BN_documented reference_BN \<and>
   (\<exists>code_a code_b comp.
     Decimal_EncodeToComparable reference_BN sample_decimal = Inr code_a \<and>
     Decimal_EncodeToComparable reference_BN sample_decimal_2 = Inr code_b \<and>
     Decimal_CompareTo reference_BN sample_decimal sample_decimal_2 = Inr comp \<and>
     Decimal_DecodeFromComparable reference_BN (code_a @ [7]) = Inr (sample_decimal, length code_a) \<and>
     (slice_compare (code_a @ [9]) (code_b @ [7]) < 0 \<and> sample_decimal \<noteq> sample_decimal_2 \<longleftrightarrow> comp < 0))"
  using decimal_comparable_encoding
    [OF reference_BN_documented sample_decimal_ok sample_decimal_fits, of "[7]" "[9]" "[7]"]
    reference_BN_documented by blast

text \<open>
  C23: for numbers with fewer than \<open>2\<^sup>3\<^sup>1\<close> digits, \<^verbatim>\<open>CompareTo\<close> returns a result and is the numeric order,
  and equality in canonical form is numeric equality: it is negative exactly when the first value is
  smaller and zero exactly when the values, and then also the representations, are equal.
\<close>

theorem decimal_compare_is_numeric:
  assumes "BN_documented bn" and "decimal_ok bn a" and "decimal_ok bn b"
    and "length (d_digits a) < 2 ^ 31" and "length (d_digits b) < 2 ^ 31"
  shows "\<exists>comp. Decimal_CompareTo bn a b = Inr comp \<and>
    (comp < 0 \<longleftrightarrow> decimal_value a < decimal_value b) \<and>
    (comp = 0 \<longleftrightarrow> decimal_value a = decimal_value b) \<and>
    (IsIdenticalTo bn a b \<longleftrightarrow> decimal_value a = decimal_value b)"
proof -
  have "IsIdenticalTo bn a b \<longleftrightarrow> a = b"
    using VarInt_CompareTo_sign(2) [OF assms(1)] by (cases a, cases b) (auto simp: IsIdenticalTo_def)
  then show ?thesis
    using Decimal_CompareTo_exact [OF assms(4,5)] exact_compare_value [OF assms(1-3)]
      decimal_unique [OF assms(1-3)] by auto
qed

theorem decimal_compare_is_numeric_witness:
  "BN_documented reference_BN \<and>
   (\<exists>comp. Decimal_CompareTo reference_BN sample_decimal sample_decimal_2 = Inr comp \<and> comp < 0)"
proof -
  have v: "decimal_value sample_decimal < decimal_value sample_decimal_2"
    by (simp add: decimal_value_def sample_decimal_def sample_decimal_2_def dec_value_def power_int_def
      power2_eq_square)
  show ?thesis
    using decimal_compare_is_numeric [OF reference_BN_documented sample_decimal_ok]
      sample_decimal_fits v reference_BN_documented unfolding decimal_fits_def by blast
qed

end
