(* ===== verification/Decimal_Arith.thy ===== *)
theory Decimal_Arith
  imports Decimal_Number
begin

text \<open>
  The sum of decimal numbers, their strings and their encoding in the client protocol
  (\<^verbatim>\<open>src/src/yb/util/decimal.cc\<close>): the sum is exact, printing and parsing are inverse, and so are
  the two directions of the protocol.
\<close>

unbundle bit_operations_syntax

subsection \<open>The sum of two mantissas\<close>

lemma dec_value_update:
  "i < length ds \<Longrightarrow>
   dec_value (ds[i := x]) + ds ! i * 10 ^ (length ds - 1 - i) =
   dec_value ds + x * 10 ^ (length ds - 1 - i)"
proof (induction ds arbitrary: i)
  case (Cons d ds)
  show ?case
  proof (cases i)
    case 0
    then show ?thesis by (simp add: dec_value_Cons)
  next
    case (Suc j)
    then show ?thesis using Cons by (simp add: dec_value_Cons)
  qed
qed simp

lemma dec_value_take_Suc:
  "i < length ds \<Longrightarrow> dec_value (take (Suc i) ds) = 10 * dec_value (take i ds) + ds ! i"
  by (simp add: take_Suc_conv_app_nth dec_value_append dec_value_def)

lemma add_mantissas_correct:
  assumes doc: "BN_documented bn" and "length ds = n" and "length os = n" and "i \<le> n"
    and "\<forall>j < n. os ! j \<le> 9" and "\<forall>j < n. ds ! j \<le> (if Suc j = i then 10 else 9)"
  shows "\<exists>r e'. add_mantissas bn i ds e os = Inr (r, e') \<and>
    dec_value r = dec_value ds + dec_value (take i os) * 10 ^ (n - i) \<and>
    (length r = n \<and> e' = e \<or> length r = Suc n \<and> e' = e + 1) \<and> list_all (\<lambda>x. x < 10) r"
  using assms(2-6)
proof (induction i arbitrary: ds)
  case 0
  then show ?case by (auto simp: list_all_length less_Suc_eq_le)
next
  case (Suc i)
  have i: "i < n" using Suc.prems(3) by simp
  define P :: nat where "P = 10 ^ (n - 1 - i)"
  have p: "(10::nat) ^ (n - i) = 10 * P" "n - Suc i = n - 1 - i"
    using i by (simp_all add: P_def flip: power_Suc)
  define s where "s = ds ! i + os ! i"
  have "os ! i \<le> 9" using Suc.prems(4) i by blast
  moreover have "ds ! i \<le> 10" using Suc.prems(5) [rule_format, OF i] by simp
  ultimately have s19: "s \<le> 19" unfolding s_def by linarith
  define ds1 where "ds1 = ds[i := s]"
  have ds1: "length ds1 = n" "ds1 ! i = s" "\<forall>j < n. j \<noteq> i \<longrightarrow> ds1 ! j \<le> 9"
    "dec_value ds1 = dec_value ds + os ! i * P"
    using i Suc.prems(1,5) dec_value_update [of i ds s]
    by (auto simp: ds1_def s_def P_def algebra_simps nth_list_update)
  have target: "dec_value ds + dec_value (take (Suc i) os) * 10 ^ (n - Suc i) =
      dec_value ds1 + dec_value (take i os) * 10 ^ (n - i)"
    unfolding p P_def [symmetric] using i Suc.prems(2) ds1(4)
    by (simp add: dec_value_take_Suc algebra_simps)
  show ?case
  proof (cases "s > 9")
    case False
    have "add_mantissas bn (Suc i) ds e os = add_mantissas bn i ds1 e os"
      using False ds1(2) i Suc.prems(1,2) by (simp add: ds1_def s_def Let_def)
    moreover have "\<forall>j < n. ds1 ! j \<le> (if Suc j = i then 10 else 9)"
    proof (intro allI impI)
      fix j assume "j < n"
      then have "ds1 ! j \<le> 9" using ds1(2,3) False by (cases "j = i") auto
      then show "ds1 ! j \<le> (if Suc j = i then 10 else 9)" by simp
    qed
    ultimately show ?thesis using Suc.IH [of ds1] ds1(1) i Suc.prems(2,4) target by simp
  next
    case True
    define ds2 where "ds2 = ds1[i := s - 10]"
    have ds2: "length ds2 = n" "\<forall>j < n. ds2 ! j \<le> 9" "dec_value ds2 + 10 * P = dec_value ds1"
    proof -
      show "length ds2 = n" using ds1(1) by (simp add: ds2_def)
      show "\<forall>j < n. ds2 ! j \<le> 9" using ds1 s19 i by (auto simp: ds2_def nth_list_update)
      have "dec_value ds2 + s * P = dec_value ds1 + (s - 10) * P"
        using dec_value_update [of i ds1 "s - 10"] ds1 i by (simp add: ds2_def P_def)
      moreover have "s * P = (s - 10) * P + 10 * P" using True by (simp flip: add_mult_distrib)
      ultimately show "dec_value ds2 + 10 * P = dec_value ds1" by linarith
    qed
    show ?thesis
    proof (cases i)
      case 0
      have "add_mantissas bn (Suc i) ds e os = Inr (1 # ds2, e + 1)"
        using True 0 ds1(2) i Suc.prems(1,2) doc VarInt_from_int64_eq [OF doc]
        by (simp add: ds1_def s_def ds2_def Let_def VarInt_plus_def BN_documented_def)
      moreover have "dec_value (1 # ds2) = dec_value ds1"
        using ds2 p(1) 0 i by (simp add: dec_value_Cons)
      moreover have "list_all (\<lambda>x. x < 10) (1 # ds2)"
        using ds2(1,2) by (fastforce simp: list_all_iff in_set_conv_nth less_Suc_eq_le)
      ultimately show ?thesis using ds2(1) target 0 by simp
    next
      case (Suc k)
      define ds3 where "ds3 = ds2[k := ds2 ! k + 1]"
      have "dec_value ds3 = dec_value ds2 + 10 ^ (n - 1 - k)"
        using dec_value_update [of k ds2 "ds2 ! k + 1"] ds2(1) i Suc by (simp add: ds3_def)
      moreover have "n - 1 - k = n - i" using Suc i by simp
      ultimately have v3: "dec_value ds3 = dec_value ds1" using ds2(3) p(1) by simp
      have "add_mantissas bn (Suc i) ds e os = add_mantissas bn i ds3 e os"
        using True Suc ds1(2) i Suc.prems(1,2) by (simp add: ds1_def s_def ds2_def ds3_def Let_def)
      moreover have "\<forall>j < n. ds3 ! j \<le> (if Suc j = i then 10 else 9)"
        using ds2(1,2) Suc i by (auto simp: ds3_def nth_list_update)
      moreover have "length ds3 = n" using ds2(1) by (simp add: ds3_def)
      ultimately show ?thesis using Suc.IH [of ds3] i Suc.prems(2,4) target v3 by simp
    qed
  qed
qed

subsection \<open>Subtracting mantissas\<close>

lemma subtract_mantissas_correct:
  assumes "length ds = n" and "length os = n" and "i \<le> n"
    and "\<forall>j < n. ds ! j \<le> 9" and "\<forall>j < i. os ! j \<le> (if Suc j = i then 10 else 9)"
    and "dec_value (take i os) \<le> dec_value (take i ds)"
  shows "\<exists>r. subtract_mantissas i ds os = Inr r \<and> length r = n \<and> list_all (\<lambda>x. x < 10) r \<and>
    dec_value r + dec_value (take i os) * 10 ^ (n - i) = dec_value ds"
  using assms
proof (induction i arbitrary: ds os)
  case 0
  then show ?case by (auto simp: list_all_length less_Suc_eq_le)
next
  case (Suc i)
  have i: "i < n" using Suc.prems(3) by simp
  define P :: nat where "P = 10 ^ (n - 1 - i)"
  have p: "(10::nat) ^ (n - i) = 10 * P" "n - Suc i = n - 1 - i"
    using i by (simp_all add: P_def flip: power_Suc)
  have a9: "ds ! i \<le> 9" using Suc.prems(4) i by blast
  have b10: "os ! i \<le> 10" using Suc.prems(5) [rule_format, of i] by simp
  have os9: "os ! j \<le> 9" if "j < i" for j
    using that Suc.prems(5) [rule_format, of j] by simp
  have le: "10 * dec_value (take i os) + os ! i \<le> 10 * dec_value (take i ds) + ds ! i"
    using Suc.prems(1,2,6) i by (simp add: dec_value_take_Suc)
  have upd: "dec_value (ds[i := x]) + ds ! i * P = dec_value ds + x * P" for x
    using dec_value_update [of i ds x] Suc.prems(1) i by (simp add: P_def)
  have tk: "take i (ds[i := x]) = take i ds" for x by simp
  have goal: "dec_value (take (Suc i) os) * 10 ^ (n - Suc i) = 10 * P * dec_value (take i os) + os ! i * P"
    unfolding p P_def [symmetric] using i Suc.prems(2) by (simp add: dec_value_take_Suc algebra_simps)
  show ?case
  proof (cases "ds ! i \<ge> os ! i")
    case True
    let ?d = "ds[i := ds ! i - os ! i]"
    have "\<exists>r. subtract_mantissas i ?d os = Inr r \<and> length r = n \<and> list_all (\<lambda>x. x < 10) r \<and>
      dec_value r + dec_value (take i os) * 10 ^ (n - i) = dec_value ?d"
    proof (rule Suc.IH)
      show "\<forall>j < n. ?d ! j \<le> 9"
      proof (intro allI impI)
        fix j assume "j < n"
        then show "?d ! j \<le> 9" using Suc.prems(1,4) a9 by (cases "j = i") auto
      qed
      show "\<forall>j < i. os ! j \<le> (if Suc j = i then 10 else 9)"
      proof (intro allI impI)
        fix j assume "j < i"
        then show "os ! j \<le> (if Suc j = i then 10 else 9)" using os9 [of j] by simp
      qed
      show "dec_value (take i os) \<le> dec_value (take i ?d)" unfolding tk using le a9 by linarith
    qed (use Suc.prems i in auto)
    then obtain r where r: "subtract_mantissas i ?d os = Inr r" "length r = n" "list_all (\<lambda>x. x < 10) r"
      "dec_value r + dec_value (take i os) * 10 ^ (n - i) = dec_value ?d" by blast
    have "dec_value ?d + os ! i * P = dec_value ds"
    proof -
      have "ds ! i * P = (ds ! i - os ! i) * P + os ! i * P" using True by (simp flip: add_mult_distrib)
      then show ?thesis using upd [of "ds ! i - os ! i"] by linarith
    qed
    then have "dec_value r + dec_value (take (Suc i) os) * 10 ^ (n - Suc i) = dec_value ds"
      using r(4) unfolding goal p(1) by (simp add: mult.commute mult.left_commute)
    then show ?thesis using r True i Suc.prems(1,2) by simp
  next
    case False
    then have lt: "dec_value (take i os) < dec_value (take i ds)" using le by linarith
    then obtain k where k: "i = Suc k" by (cases i) auto
    let ?d = "ds[i := ds ! i + 10 - os ! i]" and ?o = "os[k := os ! k + 1]"
    have o: "dec_value (take i ?o) = dec_value (take i os) + 1"
    proof -
      have "take i ?o = (take i os)[k := os ! k + 1]" by (simp add: take_update_swap)
      then show ?thesis
        using dec_value_update [of k "take i os" "os ! k + 1"] i k Suc.prems(2) by simp
    qed
    have "\<exists>r. subtract_mantissas i ?d ?o = Inr r \<and> length r = n \<and> list_all (\<lambda>x. x < 10) r \<and>
      dec_value r + dec_value (take i ?o) * 10 ^ (n - i) = dec_value ?d"
    proof (rule Suc.IH)
      show "\<forall>j < n. ?d ! j \<le> 9"
      proof (intro allI impI)
        fix j assume "j < n"
        then show "?d ! j \<le> 9" using Suc.prems(1,4) False by (cases "j = i") auto
      qed
      show "\<forall>j < i. ?o ! j \<le> (if Suc j = i then 10 else 9)"
      proof (intro allI impI)
        fix j assume "j < i"
        then show "?o ! j \<le> (if Suc j = i then 10 else 9)"
          using os9 [of j] k Suc.prems(2) i by (cases "j = k") auto
      qed
      show "dec_value (take i ?o) \<le> dec_value (take i ?d)" unfolding tk o using lt by linarith
    qed (use Suc.prems i in auto)
    then obtain r where r: "subtract_mantissas i ?d ?o = Inr r" "length r = n" "list_all (\<lambda>x. x < 10) r"
      "dec_value r + dec_value (take i ?o) * 10 ^ (n - i) = dec_value ?d" by blast
    have "dec_value ?d + os ! i * P = dec_value ds + 10 * P"
    proof -
      have "(ds ! i + 10 - os ! i) * P + os ! i * P = ds ! i * P + 10 * P"
        using b10 by (simp flip: add_mult_distrib)
      then show ?thesis using upd [of "ds ! i + 10 - os ! i"] by linarith
    qed
    then have "dec_value r + dec_value (take (Suc i) os) * 10 ^ (n - Suc i) = dec_value ds"
      using r(4) unfolding goal p(1) o by (simp add: algebra_simps)
    then show ?thesis using r False k i Suc.prems(1,2) by simp
  qed
qed

subsection \<open>The sum\<close>

lemma raise_exponent_correct:
  assumes doc: "BN_documented bn" and le: "d_exponent d \<le> e"
    and small: "length (d_digits d) + nat (e - d_exponent d) < 2 ^ 63"
  shows "raise_exponent bn e d =
    Inr (d\<lparr>d_digits := replicate (nat (e - d_exponent d)) 0 @ d_digits d, d_exponent := e\<rparr>)"
proof (cases "d_exponent d < e")
  case False
  then show ?thesis using le VarInt_CompareTo_sign(1) [OF doc] by (simp add: raise_exponent_def)
next
  case True
  define k where "k = e - d_exponent d"
  have k: "0 < k" "k < 2 ^ 63" "length (d_digits d) + nat k \<le> vector_max_size"
    using True small by (auto simp: k_def vector_max_size_def)
  have minus: "VarInt_minus bn e (d_exponent d) = k"
    using doc by (simp add: VarInt_minus_def BN_documented_def k_def)
  have i64: "VarInt_ToInt64 bn k = Inr (word_of_int k)"
    unfolding VarInt_ToInt64_eq [OF doc] using k by simp
  have "unat (word_of_int k :: u64) = nat k"
  proof -
    have "uint (word_of_int k :: u64) = k"
      using k by (simp only: uint_word_of_int_eq) (simp add: take_bit_int_eq_self)
    then show ?thesis by (metis nat_uint_eq)
  qed
  then show ?thesis
    using True k(3) VarInt_CompareTo_sign(1) [OF doc] unfolding k_def [symmetric]
    by (simp add: raise_exponent_def minus i64)
qed

lemma pad_digits_correct:
  assumes "max_digits < 2 ^ 31" and "length ds \<le> max_digits"
  shows "pad_digits max_digits ds = Inr (ds @ replicate (max_digits - length ds) 0)"
proof -
  let ?k = "max_digits - length ds"
  have "sint (of_nat ?k :: u32) = int ?k" using assms(1) by (intro sint_length_u32) simp
  then have "(scast (of_nat ?k :: u32) :: u64) = of_nat ?k" by (metis of_int_of_nat_eq of_int_sint)
  moreover have "unat (of_nat ?k :: u64) = ?k" using assms(1) by (simp add: unat_of_nat)
  ultimately have "unat (scast (of_nat ?k :: u32) :: u64) = ?k" by simp
  then show ?thesis
    using assms unfolding pad_digits_def Let_def vector_max_size_def by auto
qed

text \<open>
  Between \<open>2\<^sup>3\<^sup>1\<close> and \<open>2\<^sup>3\<^sup>2\<close> missing zeros the count is negative and the loop asks for more than any vector
  holds; a sum such as \<^verbatim>\<open>1E+3000000000 + 1\<close> ends this way.
\<close>

lemma pad_digits_negative:
  assumes "2 ^ 31 \<le> max_digits - length ds" and "max_digits - length ds < 2 ^ 32"
  shows "pad_digits max_digits ds = Inl Fatal"
proof -
  define k where "k = max_digits - length ds"
  have k: "2 ^ 31 \<le> k" "k < 2 ^ 32" using assms by (simp_all add: k_def)
  have t: "take_bit 32 (int k) = int k" using k by (simp add: take_bit_int_eq_self)
  have b: "bit (int k) 31"
  proof -
    have "k div 2 ^ 31 = 1" using k by (intro div_nat_eqI) simp_all
    then have "int k div 2 ^ 31 = 1" by (metis of_nat_1 of_nat_numeral of_nat_power zdiv_int)
    then show ?thesis by (simp add: bit_iff_odd)
  qed
  have "sint (of_nat k :: u32) = int k - 2 ^ 32"
  proof -
    have "signed_take_bit 31 (int k) = take_bit 32 (int k) - 2 ^ 32"
      using b by (simp add: signed_take_bit_eq_take_bit_minus)
    then show ?thesis using t by (simp add: signed_of_nat)
  qed
  then have "(scast (of_nat k :: u32) :: u64) = word_of_int (int k - 2 ^ 32)" by (metis of_int_sint)
  moreover have "unat (word_of_int (int k - 2 ^ 32) :: u64) = 2 ^ 64 - 2 ^ 32 + k"
  proof -
    have "(int k - 2 ^ 32 + 2 ^ 64) mod 2 ^ 64 = int k - 2 ^ 32 + 2 ^ 64"
      using k by (intro mod_pos_pos_trivial) auto
    then have "(int k - 2 ^ 32) mod 2 ^ 64 = int k - 2 ^ 32 + 2 ^ 64" by (simp only: mod_add_self2)
    then have "uint (word_of_int (int k - 2 ^ 32) :: u64) = int (2 ^ 64 - 2 ^ 32 + k)"
      unfolding uint_word_of_int by simp
    then show ?thesis by (metis nat_int nat_uint_eq)
  qed
  ultimately have "unat (scast (of_nat k :: u32) :: u64) = 2 ^ 64 - 2 ^ 32 + k" by simp
  moreover have "length ds < max_digits" using k by (simp add: k_def)
  ultimately show ?thesis unfolding k_def pad_digits_def Let_def vector_max_size_def by auto
qed

lemma list_all_le_9: "list_all (\<lambda>x. x < 10) ds \<Longrightarrow> j < length ds \<Longrightarrow> ds ! j \<le> 9" for ds :: "nat list"
  by (auto simp: list_all_length less_Suc_eq_le)

lemma list_all_le_10:
  "list_all (\<lambda>x. x < 10) ds \<Longrightarrow> j < length ds \<Longrightarrow> ds ! j \<le> (if P then 10 else 9)" for ds :: "nat list"
  using list_all_le_9 [of ds j] by simp

lemma dec_value_less: "list_all (\<lambda>x. x < 10) ds \<Longrightarrow> dec_value ds < 10 ^ length ds"
proof (induction ds)
  case (Cons d ds)
  then have "dec_value ds < 10 ^ length ds" "d * 10 ^ length ds \<le> 9 * 10 ^ length ds" by auto
  then show ?case unfolding dec_value_Cons list.size power_Suc by (simp only: add_Suc_right add_0_right power_Suc; linarith)
qed simp

lemma digits_less_dec_value:
  "digits_less ds es \<Longrightarrow> length ds = length es \<Longrightarrow> list_all (\<lambda>x. x < 10) ds \<Longrightarrow>
   dec_value ds < dec_value es"
proof (induction ds es rule: digits_less.induct)
  case (3 d ds e es)
  show ?case
  proof (cases "d < e")
    case True
    have "dec_value ds < 10 ^ length ds" using 3 by (intro dec_value_less) simp
    then show ?thesis using digit_less [OF True, of "dec_value ds" "10 ^ length ds" "dec_value es"] 3
      by (simp add: dec_value_Cons)
  next
    case False
    then show ?thesis using 3 by (simp add: dec_value_Cons)
  qed
qed auto

lemma compare_digits_dec_value:
  assumes "length ds = length es" and "list_all (\<lambda>x. x < 10) ds" and "list_all (\<lambda>x. x < 10) es"
  shows "compare_digits ds es < 0 \<longleftrightarrow> dec_value ds < dec_value es"
  using compare_digits_iff [of ds es] assms digits_less_dec_value [of ds es]
    digits_less_dec_value [of es ds] digits_less_linear [of ds es] by force

text \<open>Both numbers brought to one exponent and one length.\<close>

definition aligned :: "int \<Rightarrow> nat \<Rightarrow> Decimal \<Rightarrow> nat list" where
  "aligned e n d =
     (let ds = replicate (nat (e - d_exponent d)) 0 @ d_digits d in ds @ replicate (n - length ds) 0)"

lemma aligned_correct:
  assumes "BN_documented bn" and "decimal_ok bn d" and "d_exponent d \<le> e"
    and "length (replicate (nat (e - d_exponent d)) 0 @ d_digits d) \<le> n"
  shows "length (aligned e n d) = n" and "list_all (\<lambda>x. x < 10) (aligned e n d)"
    and "decimal_value d = (if d_is_positive d then 1 else - 1) * of_nat (dec_value (aligned e n d)) *
      10 powi (e - int n)"
proof -
  show l: "length (aligned e n d) = n" using assms(4) by (simp add: aligned_def Let_def)
  show "list_all (\<lambda>x. x < 10) (aligned e n d)"
    using decimal_okD(1) [OF assms(1,2)] by (auto simp: aligned_def Let_def list_all_iff)
  have "fraction (aligned e n d) = fraction (d_digits d) / 10 ^ nat (e - d_exponent d)"
    by (simp add: aligned_def Let_def fraction_append_zeros fraction_zeros_append
        flip: append_assoc)
  moreover have "(10 :: rat) ^ nat (e - d_exponent d) = 10 powi (e - d_exponent d)"
    using assms(3) by (simp add: power_int_def)
  ultimately have "fraction (aligned e n d) * 10 powi e = fraction (d_digits d) * 10 powi d_exponent d"
    by (simp add: power_int_diff)
  moreover have "of_nat (dec_value (aligned e n d)) * 10 powi (e - int n) =
      fraction (aligned e n d) * 10 powi e"
    unfolding fraction_value l by (simp add: power_int_diff)
  ultimately show "decimal_value d = (if d_is_positive d then 1 else - 1) *
      of_nat (dec_value (aligned e n d)) * 10 powi (e - int n)"
    by (simp add: decimal_value_fraction mult.assoc)
qed

definition sum_size :: "Decimal \<Rightarrow> Decimal \<Rightarrow> nat" where
  "sum_size a b =
     max (length (d_digits a)) (length (d_digits b)) + nat \<bar>d_exponent a - d_exponent b\<bar>"

lemma Decimal_plus_correct:
  assumes doc: "BN_documented bn" and ok: "decimal_ok bn a" "decimal_ok bn b"
    and size: "sum_size a b < 2 ^ 31"
  shows "\<exists>c. Decimal_plus bn a b = Inr c \<and> decimal_ok bn c \<and>
    decimal_value c = decimal_value a + decimal_value b"
proof -
  define e where "e = max (d_exponent a) (d_exponent b)"
  have self: "make_Decimal bn (d_digits d) (d_exponent d) (d_is_positive d) = d"
    if "decimal_ok bn d" for d
  proof -
    have r: "\<lparr>d_digits = d_digits d, d_exponent = d_exponent d, d_is_positive = d_is_positive d\<rparr> = d"
      by (cases d) simp
    show ?thesis unfolding make_Decimal_def r using that by (simp add: make_canonical_def decimal_ok_def)
  qed
  have mx: "(if VarInt_CompareTo bn (d_exponent b) (d_exponent a) < 0 then d_exponent a
      else d_exponent b) = e"
    using VarInt_CompareTo_sign(1) [OF doc] by (auto simp: e_def)
  have le: "d_exponent a \<le> e" "d_exponent b \<le> e" by (simp_all add: e_def)
  have d63: "length (d_digits a) + nat (e - d_exponent a) < 2 ^ 63"
      "length (d_digits b) + nat (e - d_exponent b) < 2 ^ 63"
    using size by (auto simp: sum_size_def e_def max_def split: if_splits)
  define da where "da = replicate (nat (e - d_exponent a)) 0 @ d_digits a"
  define db where "db = replicate (nat (e - d_exponent b)) 0 @ d_digits b"
  define n where "n = max (length da) (length db)"
  have n: "n \<le> sum_size a b" by (auto simp: n_def da_def db_def sum_size_def e_def)
  define as bs where "as = aligned e n a" and "bs = aligned e n b"
  have as: "length as = n" "list_all (\<lambda>x. x < 10) as"
    "decimal_value a = (if d_is_positive a then 1 else - 1) * of_nat (dec_value as) * 10 powi (e - int n)"
    unfolding as_def
    by (rule aligned_correct [OF doc ok(1) le(1)], simp add: n_def da_def)+
  have bs: "length bs = n" "list_all (\<lambda>x. x < 10) bs"
    "decimal_value b = (if d_is_positive b then 1 else - 1) * of_nat (dec_value bs) * 10 powi (e - int n)"
    unfolding bs_def
    by (rule aligned_correct [OF doc ok(2) le(2)], simp add: n_def db_def)+
  have n31: "n < 2 ^ 31" using n size by linarith
  have pad: "pad_digits n da = Inr as" "pad_digits n db = Inr bs"
    using pad_digits_correct [OF n31, of da] pad_digits_correct [OF n31, of db]
    by (simp_all add: as_def bs_def aligned_def da_def db_def n_def Let_def)
  let ?a = "a\<lparr>d_digits := da, d_exponent := e\<rparr>"
  have plus: "Decimal_plus bn a b =
    (if d_is_positive a = d_is_positive b then
       verify_result (add_mantissas bn n as e bs) (\<lambda>(ds, e').
         Inr (make_canonical bn (?a\<lparr>d_digits := ds, d_exponent := e'\<rparr>)))
     else
       let (ds, os, pos) = (if compare_digits as bs < 0 then (bs, as, \<not> d_is_positive a)
             else (as, bs, d_is_positive a))
       in verify_result (subtract_mantissas n ds os) (\<lambda>ds.
            Inr (make_canonical bn (?a\<lparr>d_digits := ds, d_is_positive := pos\<rparr>))))"
    unfolding Decimal_plus_def self [OF ok(1)] self [OF ok(2)] Let_def mx
      raise_exponent_correct [OF doc le(1) d63(1)] raise_exponent_correct [OF doc le(2) d63(2)]
      da_def [symmetric] db_def [symmetric]
    by (simp add: n_def [symmetric] pad Let_def)
  show ?thesis
  proof (cases "d_is_positive a = d_is_positive b")
    case True
    obtain r e' where r: "add_mantissas bn n as e bs = Inr (r, e')"
      "dec_value r = dec_value as + dec_value (take n bs) * 10 ^ (n - n)"
      "length r = n \<and> e' = e \<or> length r = Suc n \<and> e' = e + 1" "list_all (\<lambda>x. x < 10) r"
    proof -
      have "\<forall>j < n. bs ! j \<le> 9" using bs(1) list_all_le_9 [OF bs(2)] by simp
      moreover have "\<forall>j < n. as ! j \<le> (if Suc j = n then 10 else 9)"
        using as(1) list_all_le_10 [OF as(2)] by blast
      ultimately show thesis using add_mantissas_correct [OF doc as(1) bs(1) order_refl, of e] that by blast
    qed
    let ?c = "?a\<lparr>d_digits := r, d_exponent := e'\<rparr>"
    have "length r < 2 ^ 63" using r(3) n31 by auto
    then have "decimal_ok bn (make_canonical bn ?c)" "decimal_value (make_canonical bn ?c) = decimal_value ?c"
      using make_canonical_correct [OF doc, of ?c] r(4) by simp_all
    moreover have "decimal_value ?c = decimal_value a + decimal_value b"
    proof -
      have x: "d_exponent ?c - int (length (d_digits ?c)) = e - int n" using r(3) by auto
      show ?thesis unfolding as(3) bs(3) decimal_value_def [of ?c] x
        using True r(2) bs(1) by (simp add: distrib_right distrib_left)
    qed
    ultimately show ?thesis unfolding plus using True r(1) by simp
  next
    case False
    define neg where "neg = (compare_digits as bs < 0)"
    define ds os where "ds = (if neg then bs else as)" and "os = (if neg then as else bs)"
    define pos where "pos = (if neg then \<not> d_is_positive a else d_is_positive a)"
    have c: "neg \<longleftrightarrow> dec_value as < dec_value bs"
      unfolding neg_def using as bs by (intro compare_digits_dec_value) auto
    have l: "length ds = n" "length os = n" "list_all (\<lambda>x. x < 10) ds" "list_all (\<lambda>x. x < 10) os"
      using as bs by (auto simp: ds_def os_def)
    have "\<exists>r. subtract_mantissas n ds os = Inr r \<and> length r = n \<and> list_all (\<lambda>x. x < 10) r \<and>
      dec_value r + dec_value (take n os) * 10 ^ (n - n) = dec_value ds"
    proof (rule subtract_mantissas_correct)
      show "\<forall>j < n. os ! j \<le> (if Suc j = n then 10 else 9)"
        using l(2) list_all_le_10 [OF l(4)] by blast
      show "dec_value (take n os) \<le> dec_value (take n ds)"
        using c l by (auto simp: ds_def os_def)
    qed (use l list_all_le_9 [OF l(3)] in auto)
    then obtain r where r: "subtract_mantissas n ds os = Inr r" "length r = n" "list_all (\<lambda>x. x < 10) r"
      "dec_value r + dec_value os = dec_value ds" using l(2) by auto
    let ?c = "?a\<lparr>d_digits := r, d_is_positive := pos\<rparr>"
    have "length r < 2 ^ 63" using r(2) n31 by auto
    then have "decimal_ok bn (make_canonical bn ?c)" "decimal_value (make_canonical bn ?c) = decimal_value ?c"
      using make_canonical_correct [OF doc, of ?c] r(3) by simp_all
    moreover have "decimal_value ?c = decimal_value a + decimal_value b"
    proof -
      have q: "(of_nat (dec_value r) :: rat) = of_nat (dec_value ds) - of_nat (dec_value os)"
        using r(4) by (simp flip: r(4))
      show ?thesis
        unfolding as(3) bs(3) decimal_value_def [of ?c] using False r(2)
        by (cases neg; cases "d_is_positive a") (simp_all add: q pos_def ds_def os_def algebra_simps)
    qed
    moreover have "Decimal_plus bn a b = Inr (make_canonical bn ?c)"
    proof -
      have e: "(if compare_digits as bs < 0 then (bs, as, \<not> d_is_positive a)
          else (as, bs, d_is_positive a)) = (ds, os, pos)"
        unfolding neg_def [symmetric] by (simp add: ds_def os_def pos_def)
      have f: "(d_is_positive a = d_is_positive b) = False" using False by simp
      show ?thesis unfolding plus e Let_def prod.case r(1) verify_result_Inr f if_False ..
    qed
    ultimately show ?thesis by (intro exI [of _ "make_canonical bn ?c"] conjI) (simp_all only:)
  qed
qed

subsection \<open>Parsing\<close>

lemma of_digit_char: "d < 10 \<Longrightarrow> (of_char (digit_char d) :: nat) = 48 + d"
  by (simp add: digit_char_def of_char_of)

lemma digit_char_neq:
  assumes "d < 10" and "(of_char c :: nat) < 48 \<or> 57 < (of_char c :: nat)"
  shows "digit_char d \<noteq> c" and "c \<noteq> digit_char d"
  using assms of_digit_char [of d] by auto

lemma parse_digits_digits:
  "list_all (\<lambda>x. x < 10) ds \<Longrightarrow>
   parse_digits (map digit_char ds @ rest) acc pf pp = parse_digits rest (acc @ ds) pf pp"
proof (induction ds arbitrary: acc)
  case (Cons d ds)
  then show ?case
    using digit_char_neq(1) [of d "CHR ''e''"] digit_char_neq(1) [of d "CHR ''E''"]
      digit_char_neq(1) [of d "CHR ''.''"] of_digit_char [of d]
    by simp
qed simp

lemma parse_digits_point: "parse_digits (CHR ''.'' # rest) acc False pp = parse_digits rest acc True (length acc)"
  by simp

text \<open>What the number written after the \<^verbatim>\<open>e\<close> is; the end of the string stands for 0.\<close>

definition exponent_text :: "BN \<Rightarrow> string \<Rightarrow> int \<Rightarrow> bool" where
  "exponent_text bn s e \<longleftrightarrow>
     s = [] \<and> e = 0 \<or> (\<exists>t. s = CHR ''e'' # t \<and> VarInt_FromString bn (c_str t) = Inr e)"

lemma parse_digits_exponent:
  "exponent_text bn s e \<Longrightarrow> parse_digits s acc pf pp = Inr (s, acc, pf, pp)"
  by (auto simp: exponent_text_def)

lemma Decimal_FromString_parts:
  fixes xs ys :: "nat list"
  assumes doc: "BN_documented bn" and digits: "list_all (\<lambda>x. x < 10) xs" "list_all (\<lambda>x. x < 10) ys"
    and ne: "xs \<noteq> []" and len: "length xs + length ys < 2 ^ 63" and e: "exponent_text bn s e"
    and pt: "pt = ''.'' \<or> pt = '''' \<and> ys = []"
  shows "\<exists>c. Decimal_FromString bn ((if positive then '''' else ''-'') @
      map digit_char xs @ pt @ map digit_char ys @ s) = Inr c \<and> decimal_ok bn c \<and>
    decimal_value c = (if positive then 1 else - 1) * fraction (xs @ ys) * 10 powi (e + int (length xs))"
proof -
  define body where "body = map digit_char xs @ pt @ map digit_char ys @ s"
  define ex where "ex = e + int (length xs)"
  define d where "d = \<lparr>d_digits = xs @ ys, d_exponent = ex, d_is_positive = positive\<rparr>"
  obtain b bs where b: "body = b # bs" "b \<noteq> CHR ''+''" "b \<noteq> CHR ''-''"
  proof -
    obtain x xs' where x: "xs = x # xs'" using ne by (cases xs) auto
    then have "x < 10" using digits(1) by simp
    then show thesis
      using that [of "digit_char x"] digit_char_neq(1) [of x "CHR ''+''"] digit_char_neq(1) [of x "CHR ''-''"]
      by (auto simp: body_def x)
  qed
  obtain pf where parsed: "parse_digits body [] False 0 = Inr (s, xs @ ys, pf, if pf then length xs else 0)"
    and pf: "\<not> pf \<Longrightarrow> ys = []"
  proof (cases "pt = ''.''")
    case True
    have "parse_digits body [] False 0 = Inr (s, xs @ ys, True, length xs)"
      unfolding body_def True
      using digits by (simp add: parse_digits_digits parse_digits_exponent [OF e])
    then show thesis using that [of True] by simp
  next
    case False
    then have "parse_digits body [] False 0 = Inr (s, xs @ ys, False, 0)"
      unfolding body_def using pt digits by (simp add: parse_digits_digits parse_digits_exponent [OF e])
    then show thesis using that [of False] False pt by simp
  qed
  have point: "(if pf then if pf then length xs else 0 else length (xs @ ys)) = length xs"
    using pf by auto
  have suffix: "(if s \<noteq> [] then VarInt_FromString bn (c_str (tl s)) else Inr (VarInt_from_int64 bn 0)) = Inr e"
    using e VarInt_from_int64_eq [OF doc, of 0] by (auto simp: exponent_text_def)
  have ex': "VarInt_plus bn e (VarInt_from_int64 bn (of_nat (length xs))) = ex"
    using doc len VarInt_from_int64_eq [OF doc, of "of_nat (length xs)"] sint_of_int_small [of "int (length xs)"]
    by (simp add: VarInt_plus_def BN_documented_def ex_def)
  have "Decimal_FromString bn ((if positive then '''' else ''-'') @ body) = Inr (make_canonical bn d)"
    using b parsed point suffix ex' ne
    by (cases positive) (simp_all add: Decimal_FromString_def d_def)
  moreover have "decimal_ok bn (make_canonical bn d)" "decimal_value (make_canonical bn d) = decimal_value d"
    using make_canonical_correct [OF doc, of d] digits len by (simp_all add: d_def)
  moreover have "decimal_value d =
    (if positive then 1 else - 1) * fraction (xs @ ys) * 10 powi (e + int (length xs))"
    by (simp add: decimal_value_fraction d_def ex_def)
  ultimately show ?thesis unfolding body_def by simp
qed

subsection \<open>Printing\<close>

lemma digit_char_0: "digit_char 0 = CHR ''0''"
  by code_simp

lemma push_limited_eq: "push_limited m out cs = Inr r \<Longrightarrow> r = out @ cs"
  by (induction m out cs rule: push_limited.induct) (auto simp: Let_def split: if_splits)

lemma push_digits_eq:
  "push_digits m e i out ds = Inr r \<Longrightarrow>
   r = (if int i \<le> e \<and> e < int i + int (length ds)
        then out @ map digit_char (take (nat (e - int i)) ds) @ ''.'' @ map digit_char (drop (nat (e - int i)) ds)
        else out @ map digit_char ds)"
proof (induction m e i out ds rule: push_digits.induct)
  case (2 m e i out d ds)
  have s: "nat (1 + int i) = Suc i" by simp
  from 2 show ?case
    by (cases "e = int i")
      (auto simp: Let_def s nat_diff_distrib' take_Cons' drop_Cons' nat_eq_iff split: if_splits)
qed simp

text \<open>A result of \<^verbatim>\<open>ToPointString\<close> in the parts that the parser sees.\<close>

lemma ToPointString_parts:
  assumes doc: "BN_documented bn" and ok: "decimal_ok bn d" and r: "ToPointString bn d m = Inr r"
  obtains xs ys pt where "r = (if d_is_positive d then '''' else ''-'') @ map digit_char xs @ pt @ map digit_char ys"
    and "list_all (\<lambda>x. x < 10) xs" "list_all (\<lambda>x. x < 10) ys" "xs \<noteq> []" "pt = ''.'' \<or> pt = '''' \<and> ys = []"
    and "fraction (xs @ ys) * 10 powi int (length xs) = fraction (d_digits d) * 10 powi d_exponent d"
    and "length xs + length ys \<le> length (d_digits d) + nat m + 1"
proof (cases "d_digits d = []")
  case True
  then have "r = ''0''" "d_is_positive d" using r decimal_okD(2) [OF doc ok] by (auto simp: ToPointString_def)
  then show thesis using that [of "[0]" "''''" "[]"] True by (simp add: digit_char_0)
next
  case False
  let ?ds = "d_digits d" and ?s = "if d_is_positive d then '''' else ''-''"
  have digits: "list_all (\<lambda>x. x < 10) ?ds" by (rule decimal_okD(1) [OF doc ok])
  let ?e = "d_exponent d"
  have w: "VarInt_ToInt64 bn ?e = Inr (word_of_int ?e)"
    and se: "sint (word_of_int ?e :: u64) = ?e"
    using r False unfolding ToPointString_def VarInt_ToInt64_eq [OF doc]
    by (auto simp: sint_of_int_small split: if_splits)
  have m: "\<bar>?e\<bar> \<le> m"
    using r False w se by (auto simp: ToPointString_def Let_def split: if_splits)
  note zero = digit_char_0 [symmetric]
  show thesis
  proof (cases "?e \<le> 0")
    case True
    then have "r = ?s @ ''0.'' @ replicate (nat (- ?e)) CHR ''0'' @ map digit_char ?ds"
      using r False w se by (auto simp: ToPointString_def Let_def split: if_splits dest!: push_limited_eq)
    then have "r = ?s @ map digit_char [0] @ ''.'' @ map digit_char (replicate (nat (- ?e)) 0 @ ?ds)"
      by (simp add: zero)
    moreover have "fraction ([0] @ replicate (nat (- ?e)) 0 @ ?ds) * 10 powi int (length [0 :: nat]) =
      fraction ?ds * 10 powi ?e"
      using True by (simp add: fraction_zeros_append power_int_def field_simps)
    moreover have "list_all (\<lambda>x. x < 10) (replicate (nat (- ?e)) 0 @ ?ds)"
      using digits by (auto simp: list_all_iff)
    ultimately show thesis using that [of "[0]" "''.''" "replicate (nat (- ?e)) 0 @ ?ds"] m True
      by simp
  next
    case pos: False
    obtain r1 where r1: "push_digits m ?e 0 ?s ?ds = Inr r1"
      and r2: "push_limited m r1 (replicate (nat ?e - length ?ds) CHR ''0'') = Inr r"
      using r False pos w se
      by (cases "push_digits m ?e 0 ?s ?ds") (auto simp: ToPointString_def Let_def split: if_splits)
    show thesis
    proof (cases "?e < int (length ?ds)")
      case True
      then have "r = ?s @ map digit_char (take (nat ?e) ?ds) @ ''.'' @ map digit_char (drop (nat ?e) ?ds)"
        using push_digits_eq [OF r1] push_limited_eq [OF r2] pos by simp
      moreover have "int (length (take (nat ?e) ?ds)) = ?e" using True pos by simp
      moreover have "take (nat ?e) ?ds \<noteq> []" using pos False by simp
      ultimately show thesis
        using that [of "take (nat ?e) ?ds" "''.''" "drop (nat ?e) ?ds"] digits
        by (simp add: list_all_iff) (meson in_set_dropD in_set_takeD)
    next
      case long: False
      let ?z = "replicate (nat ?e - length ?ds) 0"
      have "r = ?s @ map digit_char (?ds @ ?z)"
        using push_digits_eq [OF r1] push_limited_eq [OF r2] long pos by (simp add: zero)
      moreover have "int (length (?ds @ ?z)) = ?e" using long pos by simp
      moreover have "list_all (\<lambda>x. x < 10) (?ds @ ?z)" using digits by (auto simp: list_all_iff)
      ultimately show thesis
        using that [of "?ds @ ?z" "''''" "[]"] False fraction_append_zeros [of ?ds] m by simp
    qed
  qed
qed

text \<open>The integers that the scientific notation writes are read back.\<close>

lemma dec_digits_correct:
  "list_all (\<lambda>x. x < 10) (dec_digits n)" "dec_digits n \<noteq> []" "dec_value (dec_digits n) = n"
proof -
  have "list_all (\<lambda>x. x < 10) (dec_digits n) \<and> dec_digits n \<noteq> [] \<and> dec_value (dec_digits n) = n"
  proof (induction n rule: dec_digits.induct)
    case (1 n)
    then show ?case
      by (cases "n < 10") (simp_all add: dec_digits.simps [of n] dec_value_append dec_value_Cons)
  qed
  then show "list_all (\<lambda>x. x < 10) (dec_digits n)" "dec_digits n \<noteq> []" "dec_value (dec_digits n) = n" by auto
qed

lemma digit_string_eq: "digit_string ds = map digit_char ds"
  by (simp add: digit_string_def digit_char_def)

lemma c_str_digits: "list_all (\<lambda>x. x < 10) ds \<Longrightarrow> c_str (map digit_char ds) = map digit_char ds"
  using digit_char_neq(1) [of _ "CHR 0x00"] by (auto simp: c_str_def list_all_iff takeWhile_eq_all_conv)

lemma VarInt_FromString_digits:
  assumes doc: "BN_documented bn" and ds: "list_all (\<lambda>x. x < 10) ds" "ds \<noteq> []"
  shows "VarInt_FromString bn (map digit_char ds) = Inr (int (dec_value ds))"
    and "VarInt_FromString bn (CHR ''-'' # map digit_char ds) = Inr (- int (dec_value ds))"
    and "VarInt_FromString bn (CHR ''+'' # map digit_char ds) = Inr (int (dec_value ds))"
proof -
  have b: "BN_dec2bn bn (map digit_char ds) = (length ds, int (dec_value ds))"
    "BN_dec2bn bn (CHR ''-'' # map digit_char ds) = (Suc (length ds), - int (dec_value ds))"
    using doc ds by (simp_all add: BN_documented_def flip: digit_string_eq)
  obtain c cs where c: "map digit_char ds = c # cs" "c \<noteq> CHR ''+''"
    using ds digit_char_neq(1) [of "hd ds" "CHR ''+''"] by (cases ds) auto
  have l: "length cs = length ds - 1" using arg_cong [OF c(1), of length] by simp
  show "VarInt_FromString bn (map digit_char ds) = Inr (int (dec_value ds))"
    using b(1) c(2) ds(2) l by (simp add: VarInt_FromString_def c(1))
  show "VarInt_FromString bn (CHR ''-'' # map digit_char ds) = Inr (- int (dec_value ds))"
    using b(2) by (simp add: VarInt_FromString_def)
  show "VarInt_FromString bn (CHR ''+'' # map digit_char ds) = Inr (int (dec_value ds))"
    using b(1) ds(2) by (simp add: VarInt_FromString_def)
qed

lemma VarInt_FromString_ToString:
  assumes doc: "BN_documented bn"
  shows "VarInt_FromString bn (c_str (VarInt_ToString bn x)) = Inr x"
    and "0 \<le> x \<Longrightarrow> VarInt_FromString bn (c_str (CHR ''+'' # VarInt_ToString bn x)) = Inr x"
proof -
  let ?ds = "dec_digits (nat \<bar>x\<bar>)"
  have s: "VarInt_ToString bn x = (if x < 0 then ''-'' else '''') @ map digit_char ?ds"
    using doc by (simp add: VarInt_ToString_def BN_documented_def digit_string_eq)
  have c: "c_str (c # map digit_char ?ds) = c # map digit_char ?ds" if "c \<noteq> CHR 0x00" for c
    using that c_str_digits [OF dec_digits_correct(1), of "nat \<bar>x\<bar>"] by (simp add: c_str_def)
  note f = VarInt_FromString_digits [OF doc dec_digits_correct(1,2), of "nat \<bar>x\<bar>"]
  show "VarInt_FromString bn (c_str (VarInt_ToString bn x)) = Inr x"
    using f(1,2) c [of "CHR ''-''"] c_str_digits [OF dec_digits_correct(1), of "nat \<bar>x\<bar>"]
    unfolding s by (cases "x < 0") (simp_all add: dec_digits_correct)
  show "VarInt_FromString bn (c_str (CHR ''+'' # VarInt_ToString bn x)) = Inr x" if "0 \<le> x"
    using f(3) that c [of "CHR ''+''"] unfolding s by (simp add: dec_digits_correct)
qed

lemma ToScientificString_parts:
  assumes doc: "BN_documented bn" and ds: "d_digits d = x # xs"
  obtains s where "exponent_text bn s (d_exponent d - 1)"
    and "ToScientificString bn d =
      (if d_is_positive d then '''' else ''-'') @ map digit_char [x] @ ''.'' @ map digit_char xs @ s"
proof -
  define ex where "ex = d_exponent d - 1"
  have ex: "VarInt_plus bn (d_exponent d) (VarInt_from_int64 bn (- 1)) = ex"
    using doc VarInt_from_int64_eq [OF doc, of "- 1"] by (simp add: VarInt_plus_def BN_documented_def ex_def)
  have sign: "VarInt_Sign bn ex \<ge> 0 \<longleftrightarrow> 0 \<le> ex"
    using doc by (auto simp: VarInt_Sign_def BN_documented_def)
  show thesis
  proof (rule that [unfolded ex_def [symmetric]])
    show "exponent_text bn (CHR ''e'' # (if 0 \<le> ex then ''+'' else '''') @ VarInt_ToString bn ex) ex"
      using VarInt_FromString_ToString [OF doc, of ex] by (simp add: exponent_text_def)
  qed (use ds in \<open>simp_all add: ToScientificString_def ex sign Let_def\<close>)
qed

lemma Decimal_FromString_ToString:
  assumes doc: "BN_documented bn" and ok: "decimal_ok bn d" and len: "length (d_digits d) < 2 ^ 62"
  shows "Decimal_FromString bn (Decimal_ToString bn d) = Inr d"
proof -
  let ?sign = "if d_is_positive d then 1 else - 1 :: rat"
  have unique: "Decimal_FromString bn s = Inr d"
    if s: "\<exists>c. Decimal_FromString bn s = Inr c \<and> decimal_ok bn c \<and> decimal_value c = ?sign * v"
      and v: "v = fraction (d_digits d) * 10 powi d_exponent d" for s v
    using s v decimal_unique [OF doc _ ok] by (auto simp: decimal_value_fraction [of d] mult.assoc)
  show ?thesis
  proof (cases "ToPointString bn d kDefaultMaxLength")
    case (Inr r)
    from ToPointString_parts [OF doc ok Inr] obtain xs ys pt where
      p: "r = (if d_is_positive d then '''' else ''-'') @ map digit_char xs @ pt @ map digit_char ys"
        "list_all (\<lambda>x. x < 10) xs" "list_all (\<lambda>x. x < 10) ys" "xs \<noteq> []" "pt = ''.'' \<or> pt = '''' \<and> ys = []"
        "fraction (xs @ ys) * 10 powi int (length xs) = fraction (d_digits d) * 10 powi d_exponent d"
        "length xs + length ys \<le> length (d_digits d) + nat kDefaultMaxLength + 1" .
    have e: "exponent_text bn [] 0" by (simp add: exponent_text_def)
    have l: "length xs + length ys < 2 ^ 63" using p(7) len by (simp add: kDefaultMaxLength_def)
    from Decimal_FromString_parts [OF doc p(2-4) l e p(5), of "d_is_positive d"] p(6)
    have "Decimal_FromString bn r = Inr d"
      unfolding p(1) by (intro unique [where v = "fraction (d_digits d) * 10 powi d_exponent d"])
        (simp_all add: mult.assoc)
    then show ?thesis using Inr by (simp add: Decimal_ToString_def)
  next
    case (Inl x)
    then obtain y ys where ds: "d_digits d = y # ys" by (cases "d_digits d") (auto simp: ToPointString_def)
    from ToScientificString_parts [OF doc ds] obtain s where
      s: "exponent_text bn s (d_exponent d - 1)" "ToScientificString bn d =
        (if d_is_positive d then '''' else ''-'') @ map digit_char [y] @ ''.'' @ map digit_char ys @ s" .
    have l: "length [y] + length ys < 2 ^ 63" and a: "list_all (\<lambda>x. x < 10) [y]" "list_all (\<lambda>x. x < 10) ys"
      using len decimal_okD(1) [OF doc ok] by (simp_all add: ds)
    from Decimal_FromString_parts [OF doc a _ l s(1), of "''.''" "d_is_positive d"]
    have "Decimal_FromString bn (ToScientificString bn d) = Inr d"
      unfolding s(2) by (intro unique [where v = "fraction (d_digits d) * 10 powi d_exponent d"])
        (simp_all add: mult.assoc ds)
    then show ?thesis using Inl by (simp add: Decimal_ToString_def)
  qed
qed

subsection \<open>The client protocol\<close>

lemma DecodeFromTwosComplement_value:
  assumes doc: "BN_documented bn" and ne: "ds \<noteq> []"
  shows "VarInt_DecodeFromTwosComplement bn ds =
    Inr (if be_val ds < 128 * 256 ^ (length ds - 1) then int (be_val ds)
         else int (be_val ds) - 256 ^ length ds)"
proof (cases "be_val ds < 128 * 256 ^ (length ds - 1)")
  case True
  then show ?thesis using DecodeFromTwosComplement_nonneg [OF doc ne] by simp
next
  case False
  define m where "m = 256 ^ length ds - be_val ds"
  have l: "(256::nat) ^ length ds = 256 * 256 ^ (length ds - 1)" using ne by (cases ds) auto
  have b: "be_val ds < 256 ^ length ds" by (rule be_val_less)
  have "VarInt_DecodeFromTwosComplement bn ds = Inr (- int m)"
    using b False l by (intro DecodeFromTwosComplement_neg [OF doc ne]) (auto simp: m_def)
  moreover have "- int m = int (be_val ds) - 256 ^ length ds" using b by (simp add: m_def of_nat_diff)
  ultimately show ?thesis using False by simp
qed

lemma DecodeFromTwosComplement_extend:
  assumes doc: "BN_documented bn" and d: "VarInt_DecodeFromTwosComplement bn ds = Inr x"
  shows "VarInt_DecodeFromTwosComplement bn (replicate k (if x < 0 then 0xff else 0) @ ds) = Inr x"
proof -
  have ne: "ds \<noteq> []" using d by (auto simp: VarInt_DecodeFromTwosComplement_def)
  then have x: "x = (if be_val ds < 128 * 256 ^ (length ds - 1) then int (be_val ds)
      else int (be_val ds) - 256 ^ length ds)"
    using d DecodeFromTwosComplement_value [OF doc ne] by simp
  have b: "be_val ds < 256 ^ length ds" by (rule be_val_less)
  have bi: "int (be_val ds) < 256 ^ length ds" using b by (metis of_nat_less_iff of_nat_numeral of_nat_power)
  let ?e = "replicate k (if x < 0 then 0xff else 0) @ ds"
  have e: "?e \<noteq> []" "length ?e = k + length ds" using ne by auto
  have n: "(256::nat) ^ length ds = 256 * 256 ^ (length ds - 1)" using ne by (cases ds) auto
  have pk: "(1::nat) \<le> 256 ^ k" by simp
  have kn: "(256::nat) ^ (k + length ds - 1) = 256 ^ k * 256 ^ (length ds - 1)"
    using ne by (cases ds) (auto simp: power_add)
  show ?thesis
  proof (cases "x < 0")
    case False
    then have s: "be_val ds < 128 * 256 ^ (length ds - 1)" "x = int (be_val ds)" using x bi by (auto split: if_splits)
    have "be_val ?e = be_val ds" using False by (simp add: be_val_append be_val_zeros)
    moreover have "be_val ds < 128 * 256 ^ (k + length ds - 1)"
    proof -
      have "(256::nat) ^ (length ds - 1) \<le> 256 ^ (k + length ds - 1)" by (intro power_increasing) auto
      then show ?thesis using s(1) by linarith
    qed
    ultimately show ?thesis
      unfolding DecodeFromTwosComplement_value [OF doc e(1)] e(2) using s by simp
  next
    case True
    then have s: "\<not> be_val ds < 128 * 256 ^ (length ds - 1)" "x = int (be_val ds) - 256 ^ length ds"
      using x by (auto split: if_splits)
    have v: "be_val ?e = (256 ^ k - 1) * 256 ^ length ds + be_val ds"
      using True be_val_ones [of k] by (simp add: be_val_append)
    have "int ((256 ^ k - 1) * 256 ^ length ds + be_val ds) - 256 ^ (k + length ds) = x"
    proof -
      have "int (256 ^ k - 1) = 256 ^ k - 1" using pk by (simp add: of_nat_diff)
      then show ?thesis unfolding s(2) of_nat_add of_nat_mult by (simp add: power_add algebra_simps)
    qed
    then have "int (be_val ?e) - 256 ^ (k + length ds) = x" unfolding v .
    moreover have "\<not> be_val ?e < 128 * 256 ^ (k + length ds - 1)"
    proof (cases "k = 0")
      case True
      then show ?thesis using s(1) v by simp
    next
      case False
      then have "(256::nat) ^ 1 \<le> 256 ^ k" by (intro power_increasing) auto
      then have "(128::nat) * 256 ^ k \<le> (256 ^ k - 1) * 256" by simp
      then have "(128::nat) * 256 ^ k * 256 ^ (length ds - 1) \<le> (256 ^ k - 1) * 256 * 256 ^ (length ds - 1)"
        by (rule mult_right_mono) simp
      then show ?thesis unfolding v n kn mult.assoc by linarith
    qed
    ultimately show ?thesis unfolding DecodeFromTwosComplement_value [OF doc e(1)] e(2) by simp
  qed
qed

lemma length_dec_digits: "n < 10 ^ k \<Longrightarrow> 0 < k \<Longrightarrow> length (dec_digits n) \<le> k"
proof (induction n arbitrary: k rule: dec_digits.induct)
  case (1 n)
  show ?case
  proof (cases "n < 10")
    case False
    obtain j where j: "k = Suc j" using "1.prems"(2) by (cases k) auto
    have "n div 10 < 10 ^ j" using "1.prems"(1) j by (simp add: less_mult_imp_div_less mult.commute)
    moreover have "0 < j" using "1.prems"(1) j False by (cases j) auto
    ultimately show ?thesis using "1.IH" [of j] False j by (simp add: dec_digits.simps [of n])
  qed (use "1.prems" in \<open>simp add: dec_digits.simps [of n]\<close>)
qed

text \<open>The number that the client protocol carries: mantissa and scale.\<close>

lemma DecodeFromSerializedBigDecimal_value:
  assumes doc: "BN_documented bn" and scale: "VarInt_DecodeFromTwosComplement bn s = Inr sc" "length s = 4"
    and mant: "VarInt_DecodeFromTwosComplement bn t = Inr m" and len: "nat \<bar>m\<bar> < 10 ^ k" "0 < k" "k < 2 ^ 63"
  shows "\<exists>c. DecodeFromSerializedBigDecimal bn (s @ t) = Inr c \<and> decimal_ok bn c \<and>
    decimal_value c = of_int m * 10 powi (- sc)"
proof -
  let ?ds = "dec_digits (nat \<bar>m\<bar>)"
  define d where "d = \<lparr>d_digits = ?ds, d_exponent = int (length ?ds) - sc, d_is_positive = \<not> m < 0\<rparr>"
  have ne: "t \<noteq> []" using mant by (auto simp: VarInt_DecodeFromTwosComplement_def)
  have l: "length ?ds < 2 ^ 63" using length_dec_digits [OF len(1,2)] len(3) by simp
  have sgn: "VarInt_Sign bn m < 0 \<longleftrightarrow> m < 0" using doc by (auto simp: VarInt_Sign_def BN_documented_def)
  have absm: "(if m < 0 then VarInt_Negate bn m else m) = \<bar>m\<bar>"
    using doc by (auto simp: VarInt_Negate_def BN_documented_def)
  have str: "VarInt_ToString bn \<bar>m\<bar> = map digit_char ?ds"
    using doc by (simp add: VarInt_ToString_def BN_documented_def digit_string_eq)
  have digits: "map (\<lambda>c. of_char c - 48) (map digit_char ?ds) = ?ds"
    using dec_digits_correct(1) [of "nat \<bar>m\<bar>"]
    by (auto simp: list_all_iff of_digit_char intro!: map_idI)
  have ex: "VarInt_minus bn (VarInt_from_int64 bn (of_nat (length ?ds))) sc = int (length ?ds) - sc"
    using doc l VarInt_from_int64_eq [OF doc, of "of_nat (length ?ds)"] sint_of_int_small [of "int (length ?ds)"]
    by (simp add: VarInt_minus_def BN_documented_def)
  have "DecodeFromSerializedBigDecimal bn (s @ t) = Inr (make_canonical bn d)"
    using ne scale mant unfolding DecodeFromSerializedBigDecimal_def
    by (simp add: sgn absm str digits ex d_def Let_def Suc_le_eq del: map_map)
  moreover have "decimal_ok bn (make_canonical bn d)" "decimal_value (make_canonical bn d) = decimal_value d"
    using make_canonical_correct [OF doc, of d] l dec_digits_correct(1) by (simp_all add: d_def)
  moreover have "decimal_value d = of_int m * 10 powi (- sc)"
    by (cases "m < 0") (simp_all add: decimal_value_def d_def dec_digits_correct(3))
  ultimately show ?thesis by simp
qed

lemma decimal_scale:
  assumes "BN_documented bn" and "length (d_digits d) < 2 ^ 63"
  shows "VarInt_minus bn (VarInt_from_int64 bn (of_nat (length (d_digits d)))) (d_exponent d) =
    int (length (d_digits d)) - d_exponent d"
  using assms VarInt_from_int64_eq [OF assms(1), of "of_nat (length (d_digits d))"]
    sint_of_int_small [of "int (length (d_digits d))"]
  by (simp add: VarInt_minus_def BN_documented_def)

lemma decimal_mantissa:
  assumes doc: "BN_documented bn" and ok: "decimal_ok bn d"
  shows "(if d_digits d \<noteq> [] then VarInt_FromString bn (c_str (map digit_char (d_digits d)))
      else Inr (VarInt_from_int64 bn 0)) = Inr (int (dec_value (d_digits d)))"
  using VarInt_FromString_digits(1) [OF doc, of "d_digits d"] c_str_digits [of "d_digits d"]
    decimal_okD(1) [OF doc ok] VarInt_from_int64_eq [OF doc, of 0] by simp

text \<open>A shortest encoding has at most four bytes exactly when the number fits 32 bits.\<close>

lemma twos_complement_4_bytes:
  assumes doc: "BN_documented bn" and d: "VarInt_DecodeFromTwosComplement bn ds = Inr x"
    and least: "least_length x (length ds)"
  shows "length ds \<le> 4 \<longleftrightarrow> - (2 ^ 31) \<le> x \<and> x < 2 ^ 31"
proof
  have ne: "ds \<noteq> []" using d by (auto simp: VarInt_DecodeFromTwosComplement_def)
  assume "length ds \<le> 4"
  then have le: "(256::int) ^ (length ds - 1) \<le> 256 ^ 3" by (intro power_increasing) auto
  have b: "int (be_val ds) < 256 * 256 ^ (length ds - 1)"
  proof -
    have "be_val ds < 256 * 256 ^ (length ds - 1)" using be_val_less [of ds] ne by (cases ds) simp_all
    then have "int (be_val ds) < int (256 * 256 ^ (length ds - 1))" by (simp only: of_nat_less_iff)
    then show ?thesis by simp
  qed
  have l: "(256::int) ^ length ds = 256 * 256 ^ (length ds - 1)" using ne by (cases ds) auto
  have "x = (if int (be_val ds) < int (128 * 256 ^ (length ds - 1)) then int (be_val ds)
      else int (be_val ds) - 256 ^ length ds)"
    using DecodeFromTwosComplement_value [OF doc ne] d unfolding of_nat_less_iff by simp
  then show "- (2 ^ 31) \<le> x \<and> x < 2 ^ 31" using b l le by (simp split: if_splits; linarith)
next
  assume x: "- (2 ^ 31) \<le> x \<and> x < 2 ^ 31"
  show "length ds \<le> 4"
  proof (rule ccontr)
    assume "\<not> length ds \<le> 4"
    then have "(256::int) ^ 3 \<le> 256 ^ (length ds - 2)" by (intro power_increasing) auto
    then show False using x least \<open>\<not> length ds \<le> 4\<close> by (simp add: least_length_def; linarith)
  qed
qed

lemma SerializedBigDecimal_decode:
  assumes doc: "BN_documented bn" and ok: "decimal_ok bn d" and len: "length (d_digits d) < 2 ^ 63"
    and s: "VarInt_DecodeFromTwosComplement bn s = Inr (int (length (d_digits d)) - d_exponent d)" "length s = 4"
    and t: "VarInt_DecodeFromTwosComplement bn t =
      Inr ((if d_is_positive d then 1 else - 1) * int (dec_value (d_digits d)))" (is "_ = Inr ?m")
  shows "DecodeFromSerializedBigDecimal bn (s @ t) = Inr d"
proof -
  define k where "k = max 1 (length (d_digits d))"
  have "dec_value (d_digits d) < 10 ^ length (d_digits d)" by (rule dec_value_less [OF decimal_okD(1) [OF doc ok]])
  also have "\<dots> \<le> 10 ^ k" unfolding k_def by (intro power_increasing) auto
  finally have b: "nat \<bar>?m\<bar> < 10 ^ k" by simp
  have k: "0 < k" "k < 2 ^ 63" using len by (auto simp: k_def)
  from DecodeFromSerializedBigDecimal_value [OF doc s t b k] obtain c where
    c: "DecodeFromSerializedBigDecimal bn (s @ t) = Inr c" "decimal_ok bn c"
      "decimal_value c = of_int ?m * 10 powi (- (int (length (d_digits d)) - d_exponent d))" by auto
  have "decimal_value c = decimal_value d" unfolding c(3) decimal_value_def [of d] by simp
  then show ?thesis using c(1) decimal_unique [OF doc c(2) ok] by simp
qed

lemma SerializedBigDecimal_encode:
  assumes doc: "BN_documented bn" and ok: "decimal_ok bn d" and len: "length (d_digits d) < 2 ^ 63"
  defines "sc \<equiv> int (length (d_digits d)) - d_exponent d"
  shows "if - (2 ^ 31) \<le> sc \<and> sc < 2 ^ 31
    then \<exists>bs. EncodeToSerializedBigDecimal bn d = Inr (Some bs) \<and> DecodeFromSerializedBigDecimal bn bs = Inr d
    else EncodeToSerializedBigDecimal bn d = Inr None"
proof -
  let ?ds = "d_digits d"
  define m where "m = (if d_is_positive d then 1 else - 1) * int (dec_value ?ds)"
  from VarInt_twos_complement [OF doc] obtain s where
    s: "VarInt_EncodeToTwosComplement bn sc = Inr s" "VarInt_DecodeFromTwosComplement bn s = Inr sc"
      "least_length sc (length s)" .
  from VarInt_twos_complement [OF doc] obtain t where
    t: "VarInt_EncodeToTwosComplement bn m = Inr t" "VarInt_DecodeFromTwosComplement bn t = Inr m" .
  have neg: "(if d_is_positive d then int (dec_value ?ds) else VarInt_Negate bn (int (dec_value ?ds))) = m"
    using doc by (auto simp: VarInt_Negate_def BN_documented_def m_def)
  have sgn: "VarInt_Sign bn sc < 0 \<longleftrightarrow> sc < 0" using doc by (auto simp: VarInt_Sign_def BN_documented_def)
  let ?s = "replicate (4 - length s) (if sc < 0 then 0xff else 0) @ s"
  have enc: "EncodeToSerializedBigDecimal bn d = Inr (if length s > 4 then None else Some (?s @ t))"
    unfolding EncodeToSerializedBigDecimal_def decimal_scale [OF doc len] decimal_mantissa [OF doc ok]
      sc_def [symmetric] Let_def s(1) verify_result_Inr sgn neg t(1) sum.case
    by simp
  have four: "length s \<le> 4 \<longleftrightarrow> - (2 ^ 31) \<le> sc \<and> sc < 2 ^ 31"
    using doc s(2,3) by (rule twos_complement_4_bytes)
  have "DecodeFromSerializedBigDecimal bn (?s @ t) = Inr d" if "length s \<le> 4"
    using SerializedBigDecimal_decode [OF doc ok len, folded sc_def m_def, of ?s t] that t(2)
      DecodeFromTwosComplement_extend [OF doc s(2)] by simp
  then show ?thesis using enc four by (auto simp: not_less)
qed

subsection \<open>Properties\<close>

text \<open>
  C22: the sum of two decimal numbers is exact and canonical. Adding never fails as long as the
  aligned numbers, the longer mantissa and the difference of the exponents together, have fewer than
  \<open>2\<^sup>3\<^sup>1\<close> digits; in particular no borrow runs past the first digit. Beyond that size the padding, which
  is counted in an \<^verbatim>\<open>int\<close>, goes wrong.
\<close>

theorem decimal_plus_exact:
  assumes "BN_documented bn" and "decimal_ok bn a" and "decimal_ok bn b"
    and "sum_size a b < 2 ^ 31"
  shows "\<exists>c. Decimal_plus bn a b = Inr c \<and> decimal_ok bn c \<and>
    decimal_value c = decimal_value a + decimal_value b"
  using assms by (rule Decimal_plus_correct)

theorem decimal_plus_exact_witness:
  "BN_documented reference_BN \<and> sum_size sample_decimal sample_decimal_2 < 2 ^ 31 \<and>
   (\<exists>c. Decimal_plus reference_BN sample_decimal sample_decimal_2 = Inr c \<and>
     decimal_value c = decimal_value sample_decimal + decimal_value sample_decimal_2)"
proof -
  have s: "sum_size sample_decimal sample_decimal_2 < 2 ^ 31"
    by (simp add: sum_size_def sample_decimal_def sample_decimal_2_def)
  show ?thesis
    using decimal_plus_exact [OF reference_BN_documented sample_decimal_ok s] s reference_BN_documented by blast
qed

text \<open>
  C27: printing and parsing are inverse: the string of a canonical decimal number, in point or in
  scientific notation, is parsed to the same number, as long as it has fewer than \<open>2\<^sup>6\<^sup>2\<close> digits.
\<close>

theorem decimal_string_roundtrip:
  assumes "BN_documented bn" and "decimal_ok bn d" and "length (d_digits d) < 2 ^ 62"
  shows "Decimal_FromString bn (Decimal_ToString bn d) = Inr d"
  using assms by (rule Decimal_FromString_ToString)

theorem decimal_string_roundtrip_witness:
  "BN_documented reference_BN \<and>
   Decimal_FromString reference_BN (Decimal_ToString reference_BN sample_decimal) = Inr sample_decimal"
proof -
  have "length (d_digits sample_decimal) < 2 ^ 62" by (simp add: sample_decimal_def)
  then show ?thesis
    using decimal_string_roundtrip [OF reference_BN_documented sample_decimal_ok(1)] reference_BN_documented
    by blast
qed

text \<open>
  C28: the encoding of the client protocol succeeds exactly when the scale, the number of digits minus
  the exponent, fits a signed integer of 32 bits, and otherwise reports that it is out of range; what it
  writes is decoded to the same number. This is for numbers of fewer than \<open>2\<^sup>2\<^sup>6\<close> digits, which a
  \<^verbatim>\<open>BIGNUM\<close> can hold.
\<close>

theorem decimal_protocol_roundtrip:
  assumes "BN_documented bn" and "decimal_ok bn d" and "length (d_digits d) < 2 ^ 26"
  shows "if - (2 ^ 31) \<le> int (length (d_digits d)) - d_exponent d \<and>
      int (length (d_digits d)) - d_exponent d < 2 ^ 31
    then \<exists>bs. EncodeToSerializedBigDecimal bn d = Inr (Some bs) \<and> DecodeFromSerializedBigDecimal bn bs = Inr d
    else EncodeToSerializedBigDecimal bn d = Inr None"
  using assms(3) by (intro SerializedBigDecimal_encode [OF assms(1,2)]) simp

text \<open>A number that can be sent, and one with the scale \<open>2\<^sup>3\<^sup>1\<close>, which cannot.\<close>

definition tiny_decimal :: Decimal where
  "tiny_decimal = \<lparr>d_digits = [1], d_exponent = 1 - 2 ^ 31, d_is_positive = True\<rparr>"

theorem decimal_protocol_roundtrip_witness:
  "BN_documented reference_BN \<and>
   (\<exists>bs. EncodeToSerializedBigDecimal reference_BN sample_decimal = Inr (Some bs) \<and>
     DecodeFromSerializedBigDecimal reference_BN bs = Inr sample_decimal) \<and>
   EncodeToSerializedBigDecimal reference_BN tiny_decimal = Inr None"
proof -
  have "decimal_ok reference_BN tiny_decimal" by (simp add: decimal_ok_def is_canonical_def tiny_decimal_def)
  from decimal_protocol_roundtrip [OF reference_BN_documented this]
  have "EncodeToSerializedBigDecimal reference_BN tiny_decimal = Inr None" by (simp add: tiny_decimal_def)
  moreover from decimal_protocol_roundtrip [OF reference_BN_documented sample_decimal_ok(1)]
  have "\<exists>bs. EncodeToSerializedBigDecimal reference_BN sample_decimal = Inr (Some bs) \<and>
     DecodeFromSerializedBigDecimal reference_BN bs = Inr sample_decimal"
    by (simp add: sample_decimal_def)
  ultimately show ?thesis using reference_BN_documented by blast
qed

lemma parse_digits_result:
  "parse_digits s ds pf pp = Inr (rest, ds', pf', pp') \<Longrightarrow> list_all (\<lambda>x. x < 10) ds \<Longrightarrow>
   list_all (\<lambda>x. x < 10) ds' \<and> length ds' \<le> length ds + length s"
proof (induction s ds pf pp rule: parse_digits.induct)
  case (2 c cs ds pf pp)
  show ?case
  proof (cases "c = CHR ''e'' \<or> c = CHR ''E''")
    case False
    then show ?thesis using 2 by (cases "c = CHR ''.'' \<and> \<not> pf") (auto split: if_splits)
  qed (use 2 in auto)
qed auto

lemma Decimal_FromString_ok:
  assumes doc: "BN_documented bn" and len: "length s < 2 ^ 63" and r: "Decimal_FromString bn s = Inr c"
  shows "decimal_ok bn c"
proof -
  obtain a as where s: "s = a # as" using r by (cases s) (auto simp: Decimal_FromString_def)
  define body where "body = (if a = CHR ''+'' \<or> a = CHR ''-'' then as else a # as)"
  have lb: "length body \<le> length s" by (simp add: body_def s)
  obtain p where p: "parse_digits body [] False 0 = Inr p"
    using r by (cases "parse_digits body [] False 0") (auto simp: Decimal_FromString_def s body_def Let_def)
  obtain rest ds pf pp where q: "p = (rest, ds, pf, pp)" by (cases p)
  have d: "list_all (\<lambda>x. x < 10) ds" "length ds < 2 ^ 63"
    using parse_digits_result [OF p [unfolded q]] lb len by auto
  obtain e t where "c = make_canonical bn \<lparr>d_digits = ds, d_exponent = e, d_is_positive = t\<rparr>"
    using r p unfolding q Decimal_FromString_def s body_def
    by (auto simp: Let_def verify_result_eq_Inr split: if_splits)
  then show ?thesis using make_canonical_correct(1) [OF doc] d by simp
qed

text \<open>
  C29: the class invariant. Numbers built from digits, exponent and sign, numbers parsed from strings
  and negated numbers are in canonical form, and \<^verbatim>\<open>operator-\<close> negates the value. For the constructor
  this is what the comment of the class promises, but not the comment at \<^verbatim>\<open>decimal.h:110\<close>, which says
  that the constructor does not create a canonical number; it calls \<^verbatim>\<open>make_canonical\<close>.
  Digits and strings are shorter than \<open>2\<^sup>6\<^sup>3\<close>, the largest that a vector or string holds.
\<close>

theorem decimal_canonical_invariant:
  assumes doc: "BN_documented bn"
  shows "(list_all (\<lambda>x. x < 10) ds \<and> length ds < 2 ^ 63 \<longrightarrow> decimal_ok bn (make_Decimal bn ds e p)) \<and>
    (decimal_ok bn d \<and> length (d_digits d) < 2 ^ 63 \<longrightarrow>
      decimal_ok bn (Decimal_negated bn d) \<and> decimal_value (Decimal_negated bn d) = - decimal_value d) \<and>
    (length s < 2 ^ 63 \<and> Decimal_FromString bn s = Inr c \<longrightarrow> decimal_ok bn c)"
proof (intro conjI impI; (elim conjE)?)
  show "decimal_ok bn (make_Decimal bn ds e p)" if "list_all (\<lambda>x. x < 10) ds" "length ds < 2 ^ 63"
    using that make_canonical_correct(1) [OF doc] by (simp add: make_Decimal_def)
  let ?n = "\<lparr>d_digits = d_digits d, d_exponent = d_exponent d, d_is_positive = \<not> d_is_positive d\<rparr>"
  show "decimal_ok bn (Decimal_negated bn d)" if "decimal_ok bn d" "length (d_digits d) < 2 ^ 63"
    using make_canonical_correct(1) [OF doc, of ?n] decimal_okD(1) [OF doc that(1)] that(2)
    by (simp add: Decimal_negated_def make_Decimal_def)
  show "decimal_value (Decimal_negated bn d) = - decimal_value d"
    if "decimal_ok bn d" "length (d_digits d) < 2 ^ 63"
    using make_canonical_correct(2) [OF doc, of ?n] decimal_okD(1) [OF doc that(1)] that(2)
    by (simp add: Decimal_negated_def make_Decimal_def decimal_value_def)
  show "decimal_ok bn c" if "length s < 2 ^ 63" "Decimal_FromString bn s = Inr c"
    using doc that by (rule Decimal_FromString_ok)
qed

theorem decimal_canonical_invariant_witness:
  "BN_documented reference_BN \<and> decimal_ok reference_BN (make_Decimal reference_BN [0, 1, 0] 5 False) \<and>
   decimal_ok reference_BN (Decimal_negated reference_BN sample_decimal)"
proof -
  have "list_all (\<lambda>x. x < 10) [0, 1, 0 :: nat] \<and> length [0, 1, 0 :: nat] < 2 ^ 63"
    "length (d_digits sample_decimal) < 2 ^ 63"
    by (simp_all add: sample_decimal_def)
  then show ?thesis
    using decimal_canonical_invariant [OF reference_BN_documented] reference_BN_documented sample_decimal_ok
    by blast
qed

end
