(* ===== verification/Uuid_Inet.thy ===== *)
theory Uuid_Inet
  imports Kv_Util
begin

text \<open>
  UUIDs (\<^verbatim>\<open>src/src/yb/util/uuid.h\<close>, \<^verbatim>\<open>src/src/yb/util/uuid.cc\<close>) and network addresses
  (\<^verbatim>\<open>src/src/yb/util/net/inetaddress.h\<close>, \<^verbatim>\<open>src/src/yb/util/net/inetaddress.cc\<close>), with the
  encodings in which they become part of keys, and the comparison functions of
  \<^verbatim>\<open>src/src/yb/util/compare_util.h\<close>.

  A UUID is the array of 16 bytes that \<^verbatim>\<open>boost::uuids::uuid\<close> holds. The member function
  \<^verbatim>\<open>version()\<close> of that class is a parameter; \<open>version_documented\<close> is what its manual says: the
  version field of the UUID when it is one of the five versions of RFC 4122, and
  \<^verbatim>\<open>version_unknown\<close>, which is -1, otherwise.

  A \<^verbatim>\<open>boost::asio::ip::address\<close> is an IPv4 or an IPv6 address, given by its bytes; the code
  never sets the scope identifier of an IPv6 address.
\<close>

unbundle bit_operations_syntax

subsection \<open>Comparison functions\<close>

definition CompareUsingLessThan :: "('a \<Rightarrow> 'a \<Rightarrow> bool) \<Rightarrow> 'a \<Rightarrow> 'a \<Rightarrow> int" where
  "CompareUsingLessThan lt a b = (if lt a b then - 1 else if lt b a then 1 else 0)"

fun CompareVectors :: "('a \<Rightarrow> 'a \<Rightarrow> int) \<Rightarrow> 'a list \<Rightarrow> 'a list \<Rightarrow> int" where
  "CompareVectors cmp (a # as) (b # bs) =
     (let result = cmp a b in if result \<noteq> 0 then result else CompareVectors cmp as bs)"
| "CompareVectors cmp [] [] = 0"
| "CompareVectors cmp [] (b # bs) = - 1"
| "CompareVectors cmp (a # as) [] = 1"

subsection \<open>UUIDs\<close>

type_synonym Uuid = bytes

definition kUuidSize :: nat where
  "kUuidSize = 16"

definition kUuidMsbSize :: nat where
  "kUuidMsbSize = 8"

definition kUuidLsbSize :: nat where
  "kUuidLsbSize = kUuidSize - kUuidMsbSize"

definition kGregorianOffsetMillis :: int where
  "kGregorianOffsetMillis = - 12219292800000"

definition kMillisPerHundredNanos :: int where
  "kMillisPerHundredNanos = 10000"

definition version_time_based :: int where
  "version_time_based = 1"

definition version_documented :: "(Uuid \<Rightarrow> int) \<Rightarrow> bool" where
  "version_documented version \<longleftrightarrow>
     (\<forall>u. length u = kUuidSize \<longrightarrow>
        version u = (let field = unat (u ! 6) div 16
                     in if 1 \<le> field \<and> field \<le> 5 then int field else - 1))"

definition IsTimeUuid :: "(Uuid \<Rightarrow> int) \<Rightarrow> Uuid \<Rightarrow> unit result" where
  "IsTimeUuid version u =
     (if version u = version_time_based then Inr () else Inl (Status InvalidArgument))"

text \<open>
  One of the loops of \<^verbatim>\<open>operator<\<close> over the bytes at the given places: the answer, or \<open>None\<close>
  when the loop ends.
\<close>

fun compare_places :: "nat list \<Rightarrow> Uuid \<Rightarrow> Uuid \<Rightarrow> bool option" where
  "compare_places [] u w = None"
| "compare_places (i # is) u w =
     (if u ! i < w ! i then Some True
      else if u ! i > w ! i then Some False
      else compare_places is u w)"

definition Uuid_less :: "(Uuid \<Rightarrow> int) \<Rightarrow> Uuid \<Rightarrow> Uuid \<Rightarrow> bool" where
  "Uuid_less version u w =
     (if version u < version w then True
      else if version u > version w then False
      else
        let msb = (if version u = version_time_based
              then (case compare_places [6..<kUuidMsbSize] u w of Some r \<Rightarrow> Some r
                    | None \<Rightarrow> (case compare_places [4..<6] u w of Some r \<Rightarrow> Some r
                      | None \<Rightarrow> compare_places [0..<4] u w))
              else compare_places [0..<kUuidMsbSize] u w)
        in case msb of Some r \<Rightarrow> r
           | None \<Rightarrow> (case compare_places [kUuidMsbSize..<kUuidSize] u w of Some r \<Rightarrow> r | None \<Rightarrow> False))"

definition ToTimestampBytes :: "Uuid \<Rightarrow> bytes" where
  "ToTimestampBytes u = [u ! 6, u ! 7, u ! 4, u ! 5, u ! 0, u ! 1, u ! 2, u ! 3]"

text \<open>The functions that write the first eight bytes leave the others as they are.\<close>

definition FromTimestampBytes :: "bytes \<Rightarrow> Uuid \<Rightarrow> Uuid" where
  "FromTimestampBytes input u =
     (let tmp = [input ! 4, input ! 5, input ! 6, input ! 7, input ! 2, input ! 3, input ! 0, input ! 1]
      in tmp @ drop kUuidMsbSize u)"

definition ToVersionFirstBytes :: "Uuid \<Rightarrow> bytes" where
  "ToVersionFirstBytes u =
     [(u ! 6 AND 0xF0) OR drop_bit 4 (u ! 0 AND 0xF0),
      push_bit 4 (u ! 0 AND 0x0F) OR drop_bit 4 (u ! 1 AND 0xF0),
      push_bit 4 (u ! 1 AND 0x0F) OR drop_bit 4 (u ! 2 AND 0xF0),
      push_bit 4 (u ! 2 AND 0x0F) OR drop_bit 4 (u ! 3 AND 0xF0),
      push_bit 4 (u ! 3 AND 0x0F) OR drop_bit 4 (u ! 4 AND 0xF0),
      push_bit 4 (u ! 4 AND 0x0F) OR drop_bit 4 (u ! 5 AND 0xF0),
      push_bit 4 (u ! 5 AND 0x0F) OR (u ! 6 AND 0x0F),
      u ! 7]"

definition FromVersionFirstBytes :: "bytes \<Rightarrow> Uuid \<Rightarrow> Uuid" where
  "FromVersionFirstBytes input u =
     (let tmp =
        [push_bit 4 (input ! 0 AND 0x0F) OR drop_bit 4 (input ! 1 AND 0xF0),
         push_bit 4 (input ! 1 AND 0x0F) OR drop_bit 4 (input ! 2 AND 0xF0),
         push_bit 4 (input ! 2 AND 0x0F) OR drop_bit 4 (input ! 3 AND 0xF0),
         push_bit 4 (input ! 3 AND 0x0F) OR drop_bit 4 (input ! 4 AND 0xF0),
         push_bit 4 (input ! 4 AND 0x0F) OR drop_bit 4 (input ! 5 AND 0xF0),
         push_bit 4 (input ! 5 AND 0x0F) OR drop_bit 4 (input ! 6 AND 0xF0),
         (input ! 0 AND 0xF0) OR (input ! 6 AND 0x0F),
         input ! 7]
      in tmp @ drop kUuidMsbSize u)"

definition Uuid_EncodeToComparable :: "(Uuid \<Rightarrow> int) \<Rightarrow> Uuid \<Rightarrow> bytes" where
  "Uuid_EncodeToComparable version u =
     (let output = (if version u = version_time_based then ToTimestampBytes u else ToVersionFirstBytes u)
      in output @ take kUuidLsbSize (drop kUuidMsbSize u))"

definition Uuid_FromSlice :: "bytes \<Rightarrow> nat \<Rightarrow> Uuid result" where
  "Uuid_FromSlice sl size_hint =
     (let expected_size = (if size_hint = 0 then length sl else size_hint)
      in if expected_size > length sl then Inl (Status InvalidArgument)
         else if expected_size \<noteq> kUuidSize then Inl (Status InvalidArgument)
         else Inr (take kUuidSize sl))"

definition Uuid_FromBytes :: "bytes \<Rightarrow> Uuid result" where
  "Uuid_FromBytes b = Uuid_FromSlice b 0"

definition Uuid_DecodeFromComparableSlice :: "bytes \<Rightarrow> nat \<Rightarrow> Uuid \<Rightarrow> Uuid result" where
  "Uuid_DecodeFromComparableSlice sl size_hint u =
     (let expected_size = (if size_hint = 0 then length sl else size_hint)
      in if expected_size > length sl then Inl (Status InvalidArgument)
         else if expected_size \<noteq> kUuidSize then Inl (Status InvalidArgument)
         else
           let u = (if sl ! 0 AND 0xF0 = 0x10 then FromTimestampBytes sl u
                    else FromVersionFirstBytes sl u)
           in Inr (take kUuidMsbSize u @ take kUuidLsbSize (drop kUuidMsbSize sl)))"

definition Uuid_DecodeFromComparable :: "bytes \<Rightarrow> Uuid \<Rightarrow> Uuid result" where
  "Uuid_DecodeFromComparable b u = Uuid_DecodeFromComparableSlice b 0 u"

text \<open>\<^verbatim>\<open>int64_t\<close> arithmetic: a result out of range is undefined.\<close>

definition int64_result :: "int \<Rightarrow> int result" where
  "int64_result x = (if - (2 ^ 63) \<le> x \<and> x < 2 ^ 63 then Inr x else Inl Undefined)"

definition Uuid_FromTimestamp :: "int \<Rightarrow> Uuid \<Rightarrow> Uuid" where
  "Uuid_FromTimestamp ts_hnanos u =
     (let ts_bytes = Store64 (word_of_int ts_hnanos);
          ts_bytes = ts_bytes[0 := (ts_bytes ! 0 AND 0x0F) OR 0x10]
      in FromTimestampBytes ts_bytes u)"

definition MaxFromUnixTimestamp :: "int \<Rightarrow> Uuid \<Rightarrow> Uuid result" where
  "MaxFromUnixTimestamp timestamp_ms u =
     verify_result (int64_result (timestamp_ms + 1)) (\<lambda>x.
     verify_result (int64_result (x - kGregorianOffsetMillis)) (\<lambda>x.
     verify_result (int64_result (x * kMillisPerHundredNanos)) (\<lambda>x.
     verify_result (int64_result (x - 1)) (\<lambda>ts_hnanos.
       Inr (take kUuidMsbSize (Uuid_FromTimestamp ts_hnanos u) @ replicate kUuidLsbSize 0xFF)))))"

definition MinFromUnixTimestamp :: "int \<Rightarrow> Uuid \<Rightarrow> Uuid result" where
  "MinFromUnixTimestamp timestamp_ms u =
     verify_result (int64_result (timestamp_ms - kGregorianOffsetMillis)) (\<lambda>x.
     verify_result (int64_result (x * kMillisPerHundredNanos)) (\<lambda>timestamp.
       Inr (take kUuidMsbSize (Uuid_FromTimestamp timestamp u) @ replicate kUuidLsbSize 0)))"

text \<open>The loop shifts bytes in; the top four bits are clear, so the number is not negative.\<close>

definition ToUnixTimestamp :: "(Uuid \<Rightarrow> int) \<Rightarrow> Uuid \<Rightarrow> int result" where
  "ToUnixTimestamp version u =
     verify_result (IsTimeUuid version u) (\<lambda>_.
       let output = ToTimestampBytes u;
           output = output[0 := output ! 0 AND 0x0f];
           timestamp_ms = fold (\<lambda>b ts. push_bit 8 ts OR ucast b) output (0 :: u64)
       in Inr (sint timestamp_ms div kMillisPerHundredNanos + kGregorianOffsetMillis))"

subsection \<open>Network addresses\<close>

datatype InetAddress = V4 bytes | V6 bytes

definition kInetAddressV4Size :: nat where
  "kInetAddressV4Size = 4"

definition kInetAddressV6Size :: nat where
  "kInetAddressV6Size = 16"

fun InetAddress_ToBytes :: "InetAddress \<Rightarrow> bytes" where
  "InetAddress_ToBytes (V4 v4bytes) = v4bytes"
| "InetAddress_ToBytes (V6 v6bytes) = v6bytes"

definition InetAddress_FromSlice :: "bytes \<Rightarrow> nat \<Rightarrow> InetAddress result" where
  "InetAddress_FromSlice sl size_hint =
     (let expected_size = (if size_hint = 0 then length sl else size_hint)
      in if expected_size > length sl then Inl (Status InvalidArgument)
         else if expected_size = kInetAddressV4Size then Inr (V4 (take kInetAddressV4Size sl))
         else if expected_size = kInetAddressV6Size then Inr (V6 (take kInetAddressV6Size sl))
         else Inl (Status InvalidArgument))"

definition InetAddress_FromBytes :: "bytes \<Rightarrow> InetAddress result" where
  "InetAddress_FromBytes b = InetAddress_FromSlice b 0"

definition InetAddress_less :: "InetAddress \<Rightarrow> InetAddress \<Rightarrow> bool" where
  "InetAddress_less a b = bytes_less (InetAddress_ToBytes a) (InetAddress_ToBytes b)"

fun inet_ok :: "InetAddress \<Rightarrow> bool" where
  "inet_ok (V4 v4bytes) \<longleftrightarrow> length v4bytes = kInetAddressV4Size"
| "inet_ok (V6 v6bytes) \<longleftrightarrow> length v6bytes = kInetAddressV6Size"

lemma InetAddress_FromBytes_ToBytes: "inet_ok a \<Longrightarrow> InetAddress_FromBytes (InetAddress_ToBytes a) = Inr a"
  by (cases a)
    (simp_all add: InetAddress_FromBytes_def InetAddress_FromSlice_def kInetAddressV4Size_def kInetAddressV6Size_def)

subsection \<open>Half bytes\<close>

lemma unat_high_half: "unat (b AND 0xF0) = 16 * (unat b div 16)" for b :: byte
proof -
  have m: "(0xF0 :: byte) = NOT (mask 4)" by (simp add: mask_eq_exp_minus_1)
  have "b AND 0xF0 = push_bit 4 (drop_bit 4 b)"
    unfolding m by (rule bit_word_eqI) (auto simp: bit_simps)
  then show ?thesis using unat_byte_less [of b] by (simp add: unat_push_bit unat_drop_bit)
qed

lemma unat_high_shifted: "unat (drop_bit 4 (b AND 0xF0)) = unat b div 16" for b :: byte
  unfolding unat_drop_bit unat_high_half by simp

lemma unat_low_half: "unat (b AND 0x0F) = unat b mod 16" for b :: byte
  using unat_and_mask [of b 4] by (simp add: mask_eq_exp_minus_1)

lemma unat_low_shifted: "unat (push_bit 4 (b AND 0x0F)) = 16 * (unat b mod 16)" for b :: byte
  unfolding unat_push_bit unat_low_half by simp

lemma unat_or_halves:
  fixes x y :: byte
  assumes "unat x = 16 * h" and "unat y < 16"
  shows "unat (x OR y) = 16 * h + unat y"
proof -
  have "unat (take_bit 4 x) = 0"
    unfolding unsigned_take_bit_eq assms(1) by (simp add: take_bit_eq_mod)
  then have "take_bit 4 x = 0" by (simp add: unat_eq_zero)
  then have "x OR y = x + y" using assms(2) by (intro or_disjoint [of y 4]) simp_all
  moreover have "unat x + unat y < 2 ^ LENGTH(8)" using assms unat_byte_less [of x] by simp
  ultimately show ?thesis using assms(1) by (simp add: unat_word_ariths)
qed

lemmas unat_halves = unat_high_half unat_high_shifted unat_low_half unat_low_shifted

lemma unat_joined:
  fixes a b :: byte
  shows "unat ((a AND 0xF0) OR drop_bit 4 (b AND 0xF0)) = 16 * (unat a div 16) + unat b div 16"
    and "unat (push_bit 4 (a AND 0x0F) OR drop_bit 4 (b AND 0xF0)) = 16 * (unat a mod 16) + unat b div 16"
    and "unat (push_bit 4 (a AND 0x0F) OR (b AND 0x0F)) = 16 * (unat a mod 16) + unat b mod 16"
    and "unat ((a AND 0xF0) OR (b AND 0x0F)) = 16 * (unat a div 16) + unat b mod 16"
  using unat_byte_less [of b] unat_or_halves [of "a AND 0xF0" "unat a div 16" "drop_bit 4 (b AND 0xF0)"]
    unat_or_halves [of "push_bit 4 (a AND 0x0F)" "unat a mod 16" "drop_bit 4 (b AND 0xF0)"]
    unat_or_halves [of "push_bit 4 (a AND 0x0F)" "unat a mod 16" "b AND 0x0F"]
    unat_or_halves [of "a AND 0xF0" "unat a div 16" "b AND 0x0F"]
  unfolding unat_halves by (simp_all only: less_mult_imp_div_less mult.commute)

subsection \<open>The comparable encoding of UUIDs\<close>

lemma uuid_cases:
  assumes "length u = kUuidSize"
  obtains a b c d e f g h ls where "u = [a, b, c, d, e, f, g, h] @ ls" and "length ls = 8"
proof -
  have "length u = 8 + 8" using assms by (simp add: kUuidSize_def)
  then obtain xs ls where u: "u = xs @ ls" "length xs = 8" "length ls = 8"
    by (metis append_take_drop_id length_drop length_take add_diff_cancel_left' min.absorb2 le_add1)
  then obtain a b c d e f g h where "xs = [a, b, c, d, e, f, g, h]"
    by (auto simp: length_Suc_conv eval_nat_numeral)
  then show thesis using u that by blast
qed

lemma regroup_halves:
  fixes x y a :: byte
  assumes "unat x = 16 * p + unat a div 16" and "unat y = 16 * (unat a mod 16) + q" and "q < 16"
  shows "push_bit 4 (x AND 0x0F) OR drop_bit 4 (y AND 0xF0) = a"
proof -
  have "unat a div 16 < 16" using unat_byte_less [of a] by (simp add: less_mult_imp_div_less)
  then have "unat (push_bit 4 (x AND 0x0F) OR drop_bit 4 (y AND 0xF0)) = unat a"
    unfolding unat_joined assms using assms(3) by simp
  then show ?thesis by (simp only: word_unat_eq_iff)
qed

lemma restore_version:
  fixes x y g :: byte
  assumes "unat x = 16 * (unat g div 16) + p" and "p < 16" and "unat y = 16 * q + unat g mod 16"
  shows "(x AND 0xF0) OR (y AND 0x0F) = g"
proof -
  have "unat ((x AND 0xF0) OR (y AND 0x0F)) = unat g"
    unfolding unat_joined assms using assms(2) by simp
  then show ?thesis by (simp only: word_unat_eq_iff)
qed

lemma half_bounds: "unat (b :: byte) div 16 < 16" "unat (b :: byte) mod 16 < 16"
  using unat_byte_less [of b] by (simp_all add: less_mult_imp_div_less)

lemma version_first_roundtrip:
  "FromVersionFirstBytes (ToVersionFirstBytes ([a, b, c, d, e, f, g, h] @ ls) @ rest) u =
   [a, b, c, d, e, f, g, h] @ drop kUuidMsbSize u"
proof -
  let ?u = "[a, b, c, d, e, f, g, h] @ ls"
  have n: "?u ! 0 = a" "?u ! 1 = b" "?u ! 2 = c" "?u ! 3 = d" "?u ! 4 = e" "?u ! 5 = f" "?u ! 6 = g" "?u ! 7 = h"
    by simp_all
  let ?t = "\<lambda>i. (ToVersionFirstBytes ?u @ rest) ! i"
  have t: "unat (?t 0) = 16 * (unat g div 16) + unat a div 16"
    "unat (?t 1) = 16 * (unat a mod 16) + unat b div 16" "unat (?t 2) = 16 * (unat b mod 16) + unat c div 16"
    "unat (?t 3) = 16 * (unat c mod 16) + unat d div 16" "unat (?t 4) = 16 * (unat d mod 16) + unat e div 16"
    "unat (?t 5) = 16 * (unat e mod 16) + unat f div 16" "unat (?t 6) = 16 * (unat f mod 16) + unat g mod 16"
    "?t 7 = h"
    unfolding ToVersionFirstBytes_def n unat_joined [symmetric] by simp_all
  show ?thesis
    unfolding FromVersionFirstBytes_def Let_def
      regroup_halves [OF t(1,2) half_bounds(1)] regroup_halves [OF t(2,3) half_bounds(1)]
      regroup_halves [OF t(3,4) half_bounds(1)] regroup_halves [OF t(4,5) half_bounds(1)]
      regroup_halves [OF t(5,6) half_bounds(1)] regroup_halves [OF t(6,7) half_bounds(2)]
      restore_version [OF t(1) half_bounds(1) t(7)] t(8) ..
qed

text \<open>The version field, which both forms put into the first half byte.\<close>

definition version_field :: "Uuid \<Rightarrow> nat" where
  "version_field u = unat (u ! 6) div 16"

definition uuid_ok :: "Uuid \<Rightarrow> bool" where
  "uuid_ok u \<longleftrightarrow> length u = kUuidSize"

lemma version_eq:
  "version_documented version \<Longrightarrow> uuid_ok u \<Longrightarrow>
   version u = (if 1 \<le> version_field u \<and> version_field u \<le> 5 then int (version_field u) else - 1)"
  by (simp add: version_documented_def version_field_def uuid_ok_def Let_def)

lemma time_based_iff:
  assumes "version_documented version" and "uuid_ok u"
  shows "version u = version_time_based \<longleftrightarrow> version_field u = 1"
  using version_eq [OF assms] by (auto simp: version_time_based_def)

lemma first_half_version:
  assumes "uuid_ok u"
  shows "unat (ToVersionFirstBytes u ! 0) div 16 = version_field u"
    and "unat (ToTimestampBytes u ! 0) div 16 = version_field u"
proof -
  show "unat (ToVersionFirstBytes u ! 0) div 16 = version_field u"
    unfolding ToVersionFirstBytes_def nth_Cons_0 unat_joined version_field_def
    using half_bounds(1) [of "u ! 0"] by simp
qed (simp add: ToTimestampBytes_def version_field_def)

lemma length_msb [simp]: "length (ToVersionFirstBytes u) = 8" "length (ToTimestampBytes u) = 8"
  "ToVersionFirstBytes u \<noteq> []" "ToTimestampBytes u \<noteq> []"
  by (simp_all add: ToVersionFirstBytes_def ToTimestampBytes_def)

lemma Uuid_DecodeFromComparable_encode:
  assumes doc: "version_documented version" and ok: "uuid_ok u"
  shows "length (Uuid_EncodeToComparable version u) = kUuidSize"
    and "Uuid_DecodeFromComparableSlice (Uuid_EncodeToComparable version u @ rest) kUuidSize w = Inr u"
    and "Uuid_DecodeFromComparable (Uuid_EncodeToComparable version u) w = Inr u"
proof -
  obtain a b c d e f g h ls where u: "u = [a, b, c, d, e, f, g, h] @ ls" "length ls = 8"
    using uuid_cases ok unfolding uuid_ok_def by blast
  let ?e = "Uuid_EncodeToComparable version u"
  have lsb: "take kUuidLsbSize (drop kUuidMsbSize u) = ls"
    using u by (simp add: kUuidLsbSize_def kUuidMsbSize_def kUuidSize_def)
  have e: "?e = (if version_field u = 1 then ToTimestampBytes u else ToVersionFirstBytes u) @ ls"
    unfolding Uuid_EncodeToComparable_def Let_def time_based_iff [OF doc ok] lsb ..
  show len: "length ?e = kUuidSize" unfolding e using u(2) by (simp add: kUuidSize_def)
  have tb: "slice_byte AND 0xF0 = 0x10 \<longleftrightarrow> unat slice_byte div 16 = 1" for slice_byte :: byte
    unfolding word_unat_eq_iff unat_high_half by auto
  have s0: "unat ((?e @ r) ! 0) div 16 = version_field u" for r
    unfolding e using first_half_version [OF ok] by (simp add: nth_append)
  have sl: "take kUuidLsbSize (drop kUuidMsbSize (?e @ r)) = ls" for r
    unfolding e using u(2) by (simp add: kUuidLsbSize_def kUuidMsbSize_def kUuidSize_def)
  have dec: "take kUuidMsbSize (if (?e @ r) ! 0 AND 0xF0 = 0x10 then FromTimestampBytes (?e @ r) w
      else FromVersionFirstBytes (?e @ r) w) = [a, b, c, d, e, f, g, h]" for r
  proof (cases "version_field u = 1")
    case True
    have "FromTimestampBytes (?e @ r) w = [a, b, c, d, e, f, g, h] @ drop kUuidMsbSize w"
      unfolding e using True by (simp add: FromTimestampBytes_def ToTimestampBytes_def u)
    then show ?thesis using True s0 [of r] by (simp add: tb kUuidMsbSize_def)
  next
    case False
    have "FromVersionFirstBytes (?e @ r) w = [a, b, c, d, e, f, g, h] @ drop kUuidMsbSize w"
      unfolding e using False version_first_roundtrip [of a b c d e f g h ls "ls @ r" w] by (simp add: u)
    then show ?thesis using False s0 [of r] by (simp add: tb kUuidMsbSize_def)
  qed
  show "Uuid_DecodeFromComparableSlice (?e @ rest) kUuidSize w = Inr u"
    unfolding Uuid_DecodeFromComparableSlice_def Let_def sl dec u(1) [symmetric]
    using len by (simp add: kUuidSize_def)
  show "Uuid_DecodeFromComparable ?e w = Inr u"
    unfolding Uuid_DecodeFromComparable_def Uuid_DecodeFromComparableSlice_def Let_def
      sl [of "[]", unfolded append_Nil2] dec [of "[]", unfolded append_Nil2] u(1) [symmetric]
    using len by (simp add: kUuidSize_def)
qed

subsection \<open>The order of encoded UUIDs\<close>

lemma bytes_less_append_length:
  "length xs = length ys \<Longrightarrow>
   bytes_less (xs @ xs') (ys @ ys') \<longleftrightarrow> bytes_less xs ys \<or> xs = ys \<and> bytes_less xs' ys'"
  by (induction xs ys rule: list_induct2) auto

lemma same_order_eq:
  assumes "bytes_less x y \<longleftrightarrow> bytes_less x' y'" and "bytes_less y x \<longleftrightarrow> bytes_less y' x'"
  shows "x = y \<longleftrightarrow> x' = y'"
  using assms bytes_less_linear [of x y] bytes_less_linear [of x' y'] bytes_less_irrefl by auto

lemma compare_places_eq:
  "compare_places is u w =
    (if bytes_less (map ((!) u) is) (map ((!) w) is) then Some True
     else if bytes_less (map ((!) w) is) (map ((!) u) is) then Some False else None)"
  "compare_places is u w = None \<longleftrightarrow> map ((!) u) is = map ((!) w) is"
  by (induction "is") (auto simp: not_less_iff_gr_or_eq)

lemma two_digits_less:
  fixes m n s t k :: nat
  assumes "s < k" and "t < k"
  shows "m * k + s < n * k + t \<longleftrightarrow> m < n \<or> m = n \<and> s < t"
  using digit_less [of m n s k t] digit_less [of n m t k s] assms by (cases m n rule: linorder_cases) auto

lemma be_val_version_first:
  "be_val (ToVersionFirstBytes ([a, b, c, d, e, f, g, h] @ ls)) =
    ((unat g div 16) * 2 ^ 48 + be_val [a, b, c, d, e, f]) * 4096 + ((unat g mod 16) * 256 + unat h)"
proof -
  let ?u = "[a, b, c, d, e, f, g, h] @ ls"
  have n: "?u ! 0 = a" "?u ! 1 = b" "?u ! 2 = c" "?u ! 3 = d" "?u ! 4 = e" "?u ! 5 = f" "?u ! 6 = g" "?u ! 7 = h"
    by simp_all
  define p q :: "byte \<Rightarrow> nat" where "p x = unat x div 16" and "q x = unat x mod 16" for x
  have s: "unat x = 16 * p x + q x" for x by (simp add: p_def q_def)
  show ?thesis
    unfolding ToVersionFirstBytes_def n be_val.simps unat_joined p_def [symmetric] q_def [symmetric]
    using s [of a] s [of b] s [of c] s [of d] s [of e] s [of f] by simp
qed

lemma be_val_uuid_msb:
  "be_val [a, b, c, d, e, f, g, h] =
    be_val [a, b, c, d, e, f] * 65536 + ((unat g div 16) * 4096 + ((unat g mod 16) * 256 + unat h))"
proof -
  define p q where "p = unat g div 16" and "q = unat g mod 16"
  have "unat g = 16 * p + q" by (simp add: p_def q_def)
  then show ?thesis unfolding p_def [symmetric] q_def [symmetric] by simp
qed

lemma version_first_order:
  assumes "unat g div 16 = unat g' div 16"
  shows "bytes_less (ToVersionFirstBytes ([a, b, c, d, e, f, g, h] @ ls))
      (ToVersionFirstBytes ([a', b', c', d', e', f', g', h'] @ ls')) \<longleftrightarrow>
    bytes_less [a, b, c, d, e, f, g, h] [a', b', c', d', e', f', g', h']"
proof -
  let ?M = "be_val [a, b, c, d, e, f]" and ?N = "be_val [a', b', c', d', e', f']"
  have t: "(unat g mod 16) * 256 + unat h < 4096" "(unat g' mod 16) * 256 + unat h' < 4096"
    using half_bounds(2) [of g] half_bounds(2) [of g'] unat_byte_less [of h] unat_byte_less [of h'] by linarith+
  have v: "unat g' div 16 < 16" by (rule half_bounds)
  have "(unat g div 16 * 2 ^ 48 + ?M) * 4096 + (unat g mod 16 * 256 + unat h) <
      (unat g' div 16 * 2 ^ 48 + ?N) * 4096 + (unat g' mod 16 * 256 + unat h') \<longleftrightarrow>
    ?M * 65536 + (unat g div 16 * 4096 + (unat g mod 16 * 256 + unat h)) <
      ?N * 65536 + (unat g' div 16 * 4096 + (unat g' mod 16 * 256 + unat h'))"
    unfolding assms two_digits_less [OF t]
    using t v by (subst two_digits_less) auto
  then show ?thesis
    by (simp only: bytes_less_be_val length_msb list.size be_val_version_first be_val_uuid_msb)
qed

text \<open>The bytes of a UUID in the order in which it is compared and encoded.\<close>

definition uuid_places :: "(Uuid \<Rightarrow> int) \<Rightarrow> Uuid \<Rightarrow> nat list" where
  "uuid_places version u =
     (if version u = version_time_based then [6, 7, 4, 5, 0, 1, 2, 3] else [0..<8]) @ [8..<16]"

lemma compare_places_append:
  "compare_places (is @ js) u w =
    (case compare_places is u w of Some r \<Rightarrow> Some r | None \<Rightarrow> compare_places js u w)"
  by (induction "is") auto

lemma Uuid_less_places:
  "version u = version w \<Longrightarrow>
   Uuid_less version u w \<longleftrightarrow> compare_places (uuid_places version u) u w = Some True"
proof -
  assume v: "version u = version w"
  have r: "[6..<kUuidMsbSize] = [6, 7]" "[4..<6] = [4, 5 :: nat]" "[0..<4] = [0, 1, 2, 3 :: nat]"
    "kUuidMsbSize = 8" "kUuidSize = 16"
    by (simp_all add: kUuidMsbSize_def kUuidSize_def upt_rec)
  have p: "[6, 7, 4, 5, 0, 1, 2, 3] = [6, 7] @ [4, 5] @ [0, 1, 2, 3 :: nat]" by simp
  show ?thesis
  proof (cases "version w = version_time_based")
    case True
    have "compare_places (uuid_places version u) u w =
      (case compare_places [6, 7] u w of Some r \<Rightarrow> Some r | None \<Rightarrow>
        (case compare_places [4, 5] u w of Some r \<Rightarrow> Some r | None \<Rightarrow>
          (case compare_places [0, 1, 2, 3] u w of Some r \<Rightarrow> Some r | None \<Rightarrow> compare_places [8..<16] u w)))"
      unfolding uuid_places_def v p using True
      by (simp add: compare_places_append del: compare_places.simps upt.simps append.simps split: option.split)
    then show ?thesis unfolding Uuid_less_def Let_def r v using True
      by (simp del: upt.simps compare_places.simps split: option.split)
  next
    case False
    then show ?thesis unfolding Uuid_less_def Let_def r v uuid_places_def compare_places_append
      by (simp del: upt.simps compare_places.simps split: option.split)
  qed
qed

lemma Uuid_EncodeToComparable_less:
  assumes doc: "version_documented version" and ok: "uuid_ok u" "uuid_ok w"
    and rfc: "1 \<le> version_field u" "version_field u \<le> 5" "1 \<le> version_field w" "version_field w \<le> 5"
  shows "bytes_less (Uuid_EncodeToComparable version u) (Uuid_EncodeToComparable version w) \<longleftrightarrow>
    Uuid_less version u w"
proof -
  obtain a b c d e f g h ls where u: "u = [a, b, c, d, e, f, g, h] @ ls" "length ls = 8"
    using uuid_cases ok(1) unfolding uuid_ok_def by blast
  obtain a' b' c' d' e' f' g' h' ls' where w: "w = [a', b', c', d', e', f', g', h'] @ ls'" "length ls' = 8"
    using uuid_cases ok(2) unfolding uuid_ok_def by blast
  have v: "version u = int (version_field u)" "version w = int (version_field w)"
    using version_eq [OF doc ok(1)] version_eq [OF doc ok(2)] rfc by auto
  let ?m = "\<lambda>x. if version_field x = 1 then ToTimestampBytes x else ToVersionFirstBytes x"
  have enc: "Uuid_EncodeToComparable version u = ?m u @ ls" "Uuid_EncodeToComparable version w = ?m w @ ls'"
  proof -
    have "take kUuidLsbSize (drop kUuidMsbSize u) = ls" "take kUuidLsbSize (drop kUuidMsbSize w) = ls'"
      using u w by (simp_all add: kUuidLsbSize_def kUuidMsbSize_def kUuidSize_def)
    then show "Uuid_EncodeToComparable version u = ?m u @ ls" "Uuid_EncodeToComparable version w = ?m w @ ls'"
      by (simp_all add: Uuid_EncodeToComparable_def Let_def time_based_iff [OF doc ok(1)] time_based_iff [OF doc ok(2)])
  qed
  have len: "length (?m u) = length (?m w)" by simp
  show ?thesis
  proof (cases "version_field u = version_field w")
    case False
    have h: "unat (?m u ! 0) div 16 = version_field u" "unat (?m w ! 0) div 16 = version_field w"
      using first_half_version [OF ok(1)] first_half_version [OF ok(2)] by simp_all
    obtain x xs y ys where m: "?m u = x # xs" "?m w = y # ys"
      using length_msb(3,4) by (metis list.exhaust)
    have ne: "unat x div 16 \<noteq> unat y div 16" using False h m by simp
    then have "x < y \<longleftrightarrow> unat x div 16 < unat y div 16" "x \<noteq> y"
      using div_le_mono [of "unat x" "unat y" 16] div_le_mono [of "unat y" "unat x" 16]
      by (auto simp: word_less_nat_alt not_less)
    then have "bytes_less (?m u @ ls) (?m w @ ls') \<longleftrightarrow> version_field u < version_field w"
      using h m by simp
    then show ?thesis using False v unfolding enc Uuid_less_def by auto
  next
    case True
    then have vv: "version u = version w" using v by simp
    have lsb: "map ((!) u) [8..<16] = ls" "map ((!) w) [8..<16] = ls'"
      using u w map_nth [of ls] map_nth [of ls'] by (simp_all add: upt_rec eval_nat_numeral)
    define p where "p = (if version_field u = 1 then [6, 7, 4, 5, 0, 1, 2, 3] else [0..<8])"
    have gg: "unat g div 16 = unat g' div 16" using True u w by (simp add: version_field_def)
    have m8: "map ((!) u) [0..<8] = [a, b, c, d, e, f, g, h]" "map ((!) w) [0..<8] = [a', b', c', d', e', f', g', h']"
      using u w by (simp_all add: upt_rec)
    have vf: "bytes_less (ToVersionFirstBytes u) (ToVersionFirstBytes w) \<longleftrightarrow>
        bytes_less (map ((!) u) [0..<8]) (map ((!) w) [0..<8])"
      "bytes_less (ToVersionFirstBytes w) (ToVersionFirstBytes u) \<longleftrightarrow>
        bytes_less (map ((!) w) [0..<8]) (map ((!) u) [0..<8])"
      unfolding m8 unfolding u(1) w(1) by (rule version_first_order [OF gg], rule version_first_order [OF gg [symmetric]])
    have ts: "ToTimestampBytes x = map ((!) x) [6, 7, 4, 5, 0, 1, 2, 3]" for x
      by (simp add: ToTimestampBytes_def)
    have order: "bytes_less (?m u) (?m w) \<longleftrightarrow> bytes_less (map ((!) u) p) (map ((!) w) p)"
      "bytes_less (?m w) (?m u) \<longleftrightarrow> bytes_less (map ((!) w) p) (map ((!) u) p)"
    proof -
      have m: "?m u = (if version_field u = 1 then map ((!) u) p else ToVersionFirstBytes u)"
        "?m w = (if version_field u = 1 then map ((!) w) p else ToVersionFirstBytes w)"
        using True by (simp_all add: ts p_def del: upt.simps)
      have q: "version_field u \<noteq> 1 \<Longrightarrow> p = [0..<8]" by (simp add: p_def)
      show "bytes_less (?m u) (?m w) \<longleftrightarrow> bytes_less (map ((!) u) p) (map ((!) w) p)"
        "bytes_less (?m w) (?m u) \<longleftrightarrow> bytes_less (map ((!) w) p) (map ((!) u) p)"
        unfolding m using vf q by (cases "version_field u = 1"; simp only: if_True if_False simp_thms)+
    qed
    have msb: "?m u = ?m w \<longleftrightarrow> map ((!) u) p = map ((!) w) p"
      using order by (rule same_order_eq)
    have pl: "uuid_places version u = p @ [8..<16]"
      unfolding uuid_places_def time_based_iff [OF doc ok(1)] p_def ..
    have "bytes_less (?m u @ ls) (?m w @ ls') \<longleftrightarrow> compare_places (uuid_places version u) u w = Some True"
    proof -
      have "bytes_less (map ((!) u) p @ ls) (map ((!) w) p @ ls') \<longleftrightarrow> bytes_less (?m u @ ls) (?m w @ ls')"
        by (simp only: bytes_less_append_length [OF len] bytes_less_append_length length_map order msb)
      then show ?thesis unfolding pl compare_places_eq(1) map_append lsb
        by (simp only: option.distinct option.inject if_splits simp_thms split: if_split)
    qed
    then show ?thesis unfolding enc Uuid_less_places [OF vv] .
  qed
qed

lemma Uuid_EncodeToComparable_inj:
  assumes "version_documented version" and "uuid_ok u" and "uuid_ok w"
    and "Uuid_EncodeToComparable version u = Uuid_EncodeToComparable version w"
  shows "u = w"
proof -
  note d = Uuid_DecodeFromComparable_encode(3) [OF assms(1,2), of u, unfolded assms(4)]
    Uuid_DecodeFromComparable_encode(3) [OF assms(1,3), of u]
  from d(1) [symmetric, unfolded d(2)] show ?thesis by (simp only: sum.inject)
qed

text \<open>A version function as documented, for the witnesses.\<close>

definition reference_version :: "Uuid \<Rightarrow> int" where
  "reference_version u =
     (let field = unat (u ! 6) div 16 in if 1 \<le> field \<and> field \<le> 5 then int field else - 1)"

lemma reference_version_documented: "version_documented reference_version"
  by (simp add: version_documented_def reference_version_def)

subsection \<open>Properties\<close>

text \<open>
  C21: a UUID is read back from its comparable encoding, whatever follows it. The encodings of
  UUIDs of the five versions of RFC 4122 are in the order of \<^verbatim>\<open>operator<\<close>: by version, by
  timestamp for version 1, by bytes otherwise.
\<close>

theorem uuid_comparable_encoding:
  assumes "version_documented version" and "uuid_ok u" and "uuid_ok w"
  shows "Uuid_DecodeFromComparableSlice (Uuid_EncodeToComparable version u @ rest) kUuidSize x = Inr u \<and>
    (1 \<le> version_field u \<and> version_field u \<le> 5 \<and> 1 \<le> version_field w \<and> version_field w \<le> 5 \<longrightarrow>
      (slice_compare (Uuid_EncodeToComparable version u) (Uuid_EncodeToComparable version w) < 0 \<longleftrightarrow>
        Uuid_less version u w))"
  using Uuid_DecodeFromComparable_encode(2) [OF assms(1,2)] Uuid_EncodeToComparable_less [OF assms]
  by (simp add: slice_compare_less_iff)

definition sample_uuid :: Uuid where
  "sample_uuid = [1, 2, 3, 4, 5, 6, 0x17, 8, 9, 10, 11, 12, 13, 14, 15, 16]"

definition sample_uuid_2 :: Uuid where
  "sample_uuid_2 = [0, 2, 3, 4, 5, 6, 0x47, 8, 9, 10, 11, 12, 13, 14, 15, 16]"

theorem uuid_comparable_encoding_witness:
  "version_documented reference_version \<and> uuid_ok sample_uuid \<and> uuid_ok sample_uuid_2 \<and>
   version_field sample_uuid = 1 \<and> version_field sample_uuid_2 = 4 \<and>
   slice_compare (Uuid_EncodeToComparable reference_version sample_uuid)
     (Uuid_EncodeToComparable reference_version sample_uuid_2) < 0"
proof -
  have ok: "uuid_ok sample_uuid" "uuid_ok sample_uuid_2"
    by (simp_all add: uuid_ok_def sample_uuid_def sample_uuid_2_def kUuidSize_def)
  have f: "version_field sample_uuid = 1" "version_field sample_uuid_2 = 4"
    by (simp_all add: version_field_def sample_uuid_def sample_uuid_2_def)
  have "Uuid_less reference_version sample_uuid sample_uuid_2"
    using f by (simp add: Uuid_less_def reference_version_def version_field_def)
  then show ?thesis
    using uuid_comparable_encoding [OF reference_version_documented ok] reference_version_documented ok f
    by simp
qed

text \<open>
  With versions that \<^verbatim>\<open>version()\<close> does not know, \<^verbatim>\<open>operator<\<close> and the encodings disagree:
  \<^verbatim>\<open>operator<\<close> sees equal versions, the encodings start with the version field.
\<close>

lemma unknown_uuid_versions_disagree:
  "Uuid_less reference_version [0, 0, 0, 0, 0, 0, 0x70, 0, 0, 0, 0, 0, 0, 0, 0, 0]
     [1, 0, 0, 0, 0, 0, 0x60, 0, 0, 0, 0, 0, 0, 0, 0, 0] \<and>
   bytes_less (Uuid_EncodeToComparable reference_version [1, 0, 0, 0, 0, 0, 0x60, 0, 0, 0, 0, 0, 0, 0, 0, 0])
     (Uuid_EncodeToComparable reference_version [0, 0, 0, 0, 0, 0, 0x70, 0, 0, 0, 0, 0, 0, 0, 0, 0])"
  by code_simp

end
