(* ===== verification/Intent_Types.thy ===== *)
theory Intent_Types
  imports Kv_Util
begin

text \<open>
  Intents (\<^verbatim>\<open>src/src/yb/docdb/intent.h\<close>, \<^verbatim>\<open>src/src/yb/docdb/intent.cc\<close>, the intent types of
  \<^verbatim>\<open>src/src/yb/docdb/value_type.h\<close>), the bit sets of enumerations they are stored in
  (\<^verbatim>\<open>src/src/yb/util/enums.h\<close>) and transaction identifiers (\<^verbatim>\<open>src/src/yb/common/transaction.cc\<close>).

  A set of intent types is a \<^verbatim>\<open>std::bitset<4>\<close>, a word of four bits. \<^verbatim>\<open>LOG(DFATAL)\<close> only logs in
  a release build.
\<close>

unbundle bit_operations_syntax

subsection \<open>Intent types and sets of them\<close>

definition kWeakIntentFlag :: nat where
  "kWeakIntentFlag = 0"

definition kStrongIntentFlag :: nat where
  "kStrongIntentFlag = 2"

definition kReadIntentFlag :: nat where
  "kReadIntentFlag = 0"

definition kWriteIntentFlag :: nat where
  "kWriteIntentFlag = 1"

datatype IntentType = kWeakRead | kWeakWrite | kStrongRead | kStrongWrite

fun to_underlying :: "IntentType \<Rightarrow> nat" where
  "to_underlying kWeakRead = kWeakIntentFlag OR kReadIntentFlag"
| "to_underlying kWeakWrite = kWeakIntentFlag OR kWriteIntentFlag"
| "to_underlying kStrongRead = kStrongIntentFlag OR kReadIntentFlag"
| "to_underlying kStrongWrite = kStrongIntentFlag OR kWriteIntentFlag"

definition kIntentTypeList :: "IntentType list" where
  "kIntentTypeList = [kWeakRead, kWeakWrite, kStrongRead, kStrongWrite]"

type_synonym IntentTypeSet = "4 word"

definition make_IntentTypeSet :: "u64 \<Rightarrow> IntentTypeSet" where
  "make_IntentTypeSet value_bits = ucast value_bits"

definition Set :: "IntentTypeSet \<Rightarrow> IntentType \<Rightarrow> IntentTypeSet" where
  "Set s i = Bit_Operations.set_bit (to_underlying i) s"

definition list_IntentTypeSet :: "IntentType list \<Rightarrow> IntentTypeSet" where
  "list_IntentTypeSet inp = foldl Set 0 inp"

definition Test :: "IntentTypeSet \<Rightarrow> IntentType \<Rightarrow> bool" where
  "Test s i \<longleftrightarrow> bit s (to_underlying i)"

definition ToUIntPtr :: "IntentTypeSet \<Rightarrow> nat" where
  "ToUIntPtr s = unat s"

definition Any :: "IntentTypeSet \<Rightarrow> bool" where
  "Any s \<longleftrightarrow> s \<noteq> 0"

text \<open>Iterating over a set visits the listed types that are in it.\<close>

definition elements :: "IntentTypeSet \<Rightarrow> IntentType list" where
  "elements s = filter (Test s) kIntentTypeList"

subsection \<open>Kinds of operations and their intents\<close>

datatype IsolationLevel = NON_TRANSACTIONAL | SNAPSHOT_ISOLATION | SERIALIZABLE_ISOLATION

datatype OperationKind = kRead | kWrite

definition AllStrongIntents :: IntentTypeSet where
  "AllStrongIntents = list_IntentTypeSet [kStrongRead, kStrongWrite]"

fun GetStrongIntentTypeSet :: "IsolationLevel \<Rightarrow> OperationKind \<Rightarrow> IntentTypeSet" where
  "GetStrongIntentTypeSet SNAPSHOT_ISOLATION operation_kind =
     list_IntentTypeSet [kStrongRead, kStrongWrite]"
| "GetStrongIntentTypeSet SERIALIZABLE_ISOLATION kRead = list_IntentTypeSet [kStrongRead]"
| "GetStrongIntentTypeSet SERIALIZABLE_ISOLATION kWrite = list_IntentTypeSet [kStrongWrite]"
| "GetStrongIntentTypeSet NON_TRANSACTIONAL operation_kind = 0"

definition HasStrong :: "IntentTypeSet \<Rightarrow> bool" where
  "HasStrong inp \<longleftrightarrow> Any (inp AND AllStrongIntents)"

definition StrongToWeak :: "IntentTypeSet \<Rightarrow> IntentTypeSet" where
  "StrongToWeak inp = make_IntentTypeSet (drop_bit kStrongIntentFlag (of_nat (ToUIntPtr inp)))"

definition WeakToStrong :: "IntentTypeSet \<Rightarrow> IntentTypeSet" where
  "WeakToStrong inp = make_IntentTypeSet (push_bit kStrongIntentFlag (of_nat (ToUIntPtr inp)))"

subsection \<open>Obsolete formats\<close>

definition ObsoleteIntentTypeToSet :: "byte \<Rightarrow> IntentTypeSet" where
  "ObsoleteIntentTypeToSet obsolete_intent_type =
     (let kWeakIntentFlag = 0; kStrongIntentFlag = 1; kWriteIntentFlag = 2; kSnapshotIntentFlag = 4
      in if obsolete_intent_type = kStrongIntentFlag OR kWriteIntentFlag OR kSnapshotIntentFlag then
           list_IntentTypeSet [kStrongRead, kStrongWrite]
         else if obsolete_intent_type = kWeakIntentFlag OR kWriteIntentFlag OR kSnapshotIntentFlag then
           list_IntentTypeSet [kWeakRead, kWeakWrite]
         else 0)"

text \<open>The cast of a number below 4 to the enumeration.\<close>

definition cast_IntentType :: "nat \<Rightarrow> IntentType" where
  "cast_IntentType i = kIntentTypeList ! i"

definition ObsoleteIntentTypeSetToNew :: "byte \<Rightarrow> IntentTypeSet" where
  "ObsoleteIntentTypeSetToNew obsolete_intent_type_set =
     fold (\<lambda>idx result.
       if obsolete_intent_type_set AND push_bit idx 1 \<noteq> 0 then
         Set result (cast_IntentType ((drop_bit 1 idx OR push_bit 1 idx) AND 3))
       else result) [0..<4] 0"

definition IntentValueType :: "byte \<Rightarrow> bool" where
  "IntentValueType ch \<longleftrightarrow>
     ch = value_type_char kIntentTypeSet \<or> ch = value_type_char kObsoleteIntentTypeSet \<or>
     ch = value_type_char kObsoleteIntentType"

subsection \<open>Keys and values of intents\<close>

record DecodedIntentKey =
  intent_prefix :: bytes
  intent_types :: IntentTypeSet
  intent_doc_ht :: doc_hybrid_time

definition DecodeIntentKey :: "cursor \<Rightarrow> DecodedIntentKey result" where
  "DecodeIntentKey encoded_intent_key =
     verify_result (CheckAndGetEncodedSize (snd encoded_intent_key)) (\<lambda>doc_ht_size.
       let size = length (snd encoded_intent_key)
       in if size < doc_ht_size + 3 then Inl (Status Corruption)
          else
            let prefix_size = size - (doc_ht_size + 3);
                prefix = take prefix_size (snd encoded_intent_key);
                prefix_end = drop prefix_size (snd encoded_intent_key)
            in verify_result (FullyDecodeFrom (remove_prefix (prefix_size + 3) encoded_intent_key)) (\<lambda>doc_ht.
                 if prefix_end ! 2 \<noteq> value_type_char kHybridTime then Inl (Status Corruption)
                 else if prefix_end ! 0 \<noteq> value_type_char kIntentTypeSet then
                   if prefix_end ! 0 = value_type_char kObsoleteIntentType then
                     Inr \<lparr>intent_prefix = prefix, intent_types = ObsoleteIntentTypeToSet (prefix_end ! 1),
                          intent_doc_ht = doc_ht\<rparr>
                   else if prefix_end ! 0 = value_type_char kObsoleteIntentTypeSet then
                     Inr \<lparr>intent_prefix = prefix, intent_types = ObsoleteIntentTypeSetToNew (prefix_end ! 1),
                          intent_doc_ht = doc_ht\<rparr>
                   else Inl (Status Corruption)
                 else
                   Inr \<lparr>intent_prefix = prefix, intent_types = make_IntentTypeSet (ucast (prefix_end ! 1)),
                        intent_doc_ht = doc_ht\<rparr>))"

type_synonym TransactionId = bytes

definition transaction_id_size :: nat where
  "transaction_id_size = 16"

definition DoDecodeTransactionId :: "bytes \<Rightarrow> bool \<Rightarrow> TransactionId result" where
  "DoDecodeTransactionId sl check_exact_size =
     (if (if check_exact_size then length sl \<noteq> transaction_id_size else length sl < transaction_id_size)
      then Inl (Status Corruption)
      else Inr (take transaction_id_size sl))"

definition FullyDecodeTransactionId :: "bytes \<Rightarrow> TransactionId result" where
  "FullyDecodeTransactionId sl = DoDecodeTransactionId sl True"

definition DecodeTransactionId :: "bytes \<Rightarrow> (TransactionId \<times> bytes) result" where
  "DecodeTransactionId sl =
     verify_result (DoDecodeTransactionId sl False) (\<lambda>id. Inr (id, drop transaction_id_size sl))"

definition DecodeTransactionIdFromIntentValue :: "bytes \<Rightarrow> (TransactionId \<times> bytes) result" where
  "DecodeTransactionIdFromIntentValue intent_value =
     (case intent_value of [] \<Rightarrow> Inl (Status Corruption)
      | b # rest \<Rightarrow>
          if b \<noteq> value_type_char kTransactionId then Inl (Status Corruption)
          else DecodeTransactionId rest)"

text \<open>\<^verbatim>\<open>Slice::consume_byte(char)\<close>: consume one expected byte. It reads the first byte of an empty slice.\<close>

definition consume_byte_expected :: "byte \<Rightarrow> bytes \<Rightarrow> bytes result" where
  "consume_byte_expected c sl =
     (case sl of [] \<Rightarrow> Inl Undefined
      | b # rest \<Rightarrow> if b = c then Inr rest else Inl (Status Corruption))"

definition DecodeIntentValue :: "bytes \<Rightarrow> bytes \<Rightarrow> (u32 \<times> bytes) result" where
  "DecodeIntentValue encoded_intent_value transaction_id_slice =
     verify_result (consume_byte_expected (value_type_char kTransactionId) encoded_intent_value)
       (\<lambda>intent_value.
         if take (length transaction_id_slice) intent_value \<noteq> transaction_id_slice
         then Inl (Status Corruption)
         else if length intent_value < transaction_id_size then Inl Undefined
         else
           let intent_value = drop transaction_id_size intent_value
           in verify_result (consume_byte_expected (value_type_char kWriteId) intent_value)
                (\<lambda>intent_value.
                  if length intent_value < 4 then Inl (Status Corruption)
                  else Inr (Load32 intent_value, drop 4 intent_value)))"

subsection \<open>Lemmas\<close>

lemma to_underlying_simps [simp]:
  "to_underlying kWeakRead = 0" "to_underlying kWeakWrite = 1" "to_underlying kStrongRead = 2"
  "to_underlying kStrongWrite = 3"
  by (simp_all add: kWeakIntentFlag_def kReadIntentFlag_def kWriteIntentFlag_def kStrongIntentFlag_def)

declare to_underlying.simps [simp del]

lemma to_underlying_less: "to_underlying i < 4"
  by (cases i) simp_all

lemma to_underlying_inj: "to_underlying i = to_underlying j \<longleftrightarrow> i = j"
  by (cases i; cases j) simp_all

lemma set_elements: "i \<in> set (elements s) \<longleftrightarrow> Test s i"
  by (cases i) (simp_all add: elements_def kIntentTypeList_def)

lemma intent_set_eqI:
  assumes "\<And>i. Test s i \<longleftrightarrow> Test t i"
  shows "s = t"
proof (rule bit_word_eqI)
  fix n assume "n < LENGTH(4)"
  then have "n < 4" by simp
  then have "n = 0 \<or> n = 1 \<or> n = 2 \<or> n = 3" by arith
  then obtain i where "n = to_underlying i" by (metis to_underlying_simps)
  then show "bit s n = bit t n" using assms [of i] by (simp add: Test_def)
qed

lemma Test_Set [simp]: "Test (Set s i) j \<longleftrightarrow> i = j \<or> Test s j"
  using to_underlying_less [of j] to_underlying_inj
  by (auto simp: Test_def Set_def bit_set_bit_iff)

lemma Test_list: "Test (list_IntentTypeSet is) j \<longleftrightarrow> j \<in> set is"
proof -
  have "Test (foldl Set s is) j \<longleftrightarrow> j \<in> set is \<or> Test s j" for s
    by (induction "is" arbitrary: s) auto
  from this [of 0] show ?thesis by (simp add: list_IntentTypeSet_def Test_def)
qed

end
