(* ===== verification/Shared_Lock_Manager.thy ===== *)
theory Shared_Lock_Manager
  imports Intent_Types
begin

text \<open>
  The lock manager of DocDB (\<^verbatim>\<open>src/src/yb/docdb/shared_lock_manager.cc\<close>,
  \<^verbatim>\<open>src/src/yb/docdb/lock_batch.cc\<close>): locks on keys, of several kinds that may be held together
  unless they conflict.

  The state of a key is a 64-bit word with a 16-bit counter of holders for each of the four
  intent types. Threads lock and unlock it concurrently with compare-and-swap, and sleep on a
  condition variable while there are conflicts. The concurrent part is the step relation
  \<open>entry_step\<close> on the state of one \<^verbatim>\<open>LockedBatchEntry\<close>, with one atomic operation per step;
  the program counter of a thread is the place in \<^verbatim>\<open>Lock\<close> or \<^verbatim>\<open>Unlock\<close> it has reached. Atomic
  operations are sequentially consistent; a wait may end by a notification, spuriously, or by
  the deadline.
\<close>

unbundle bit_operations_syntax

subsection \<open>Conflicts\<close>

type_synonym LockState = u64

definition kIntentTypeBits :: nat where
  "kIntentTypeBits = 16"

definition kSingleIntentMask :: LockState where
  "kSingleIntentMask = push_bit kIntentTypeBits 1 - 1"

definition kIntentTypeSetMapSize :: nat where
  "kIntentTypeSetMapSize = 16"

definition IntentTypesConflict :: "IntentType \<Rightarrow> IntentType \<Rightarrow> bool" where
  "IntentTypesConflict lhs rhs \<longleftrightarrow>
     (let lhs_value = to_underlying lhs; rhs_value = to_underlying rhs
      in (lhs_value AND kStrongIntentFlag \<noteq> 0 \<or> rhs_value AND kStrongIntentFlag \<noteq> 0) \<and>
         lhs_value AND kWriteIntentFlag \<noteq> rhs_value AND kWriteIntentFlag)"

definition IntentTypeMask :: "IntentType \<Rightarrow> LockState" where
  "IntentTypeMask intent_type = push_bit (to_underlying intent_type * kIntentTypeBits) kSingleIntentMask"

definition conflict_mask :: "IntentTypeSet \<Rightarrow> LockState" where
  "conflict_mask s =
     fold (\<lambda>intent_type. fold (\<lambda>other_intent_type r.
         if IntentTypesConflict intent_type other_intent_type then r OR IntentTypeMask other_intent_type else r)
       kIntentTypeList) (elements s) 0"

definition GenerateConflicts :: "LockState list" where
  "GenerateConflicts =
     map (\<lambda>idx. conflict_mask (make_IntentTypeSet (of_nat idx))) [0..<kIntentTypeSetMapSize]"

definition mask_of_set :: "LockState \<Rightarrow> IntentTypeSet \<Rightarrow> LockState" where
  "mask_of_set single_intent_mask s =
     fold (\<lambda>intent_type r. r OR push_bit (to_underlying intent_type * kIntentTypeBits) single_intent_mask)
       (elements s) 0"

definition GenerateByMask :: "LockState \<Rightarrow> LockState list" where
  "GenerateByMask single_intent_mask =
     map (\<lambda>idx. mask_of_set single_intent_mask (make_IntentTypeSet (of_nat idx))) [0..<kIntentTypeSetMapSize]"

definition kIntentTypeSetAdd :: "LockState list" where
  "kIntentTypeSetAdd = GenerateByMask 1"

definition kIntentTypeSetMask :: "LockState list" where
  "kIntentTypeSetMask = GenerateByMask kSingleIntentMask"

definition kIntentTypeSetConflicts :: "LockState list" where
  "kIntentTypeSetConflicts = GenerateConflicts"

definition IntentTypeSetsConflict :: "IntentTypeSet \<Rightarrow> IntentTypeSet \<Rightarrow> bool" where
  "IntentTypeSetsConflict lhs rhs \<longleftrightarrow>
     list_ex (\<lambda>intent1. list_ex (\<lambda>intent2. IntentTypesConflict intent1 intent2) (elements rhs)) (elements lhs)"

subsection \<open>Counters in a word\<close>

definition lock_word :: "(IntentType \<Rightarrow> nat) \<Rightarrow> LockState" where
  "lock_word c = of_nat (c kWeakRead + 2 ^ 16 * (c kWeakWrite + 2 ^ 16 * (c kStrongRead + 2 ^ 16 * c kStrongWrite)))"

lemma IntentTypesConflict_sym: "IntentTypesConflict i j \<longleftrightarrow> IntentTypesConflict j i"
  by (auto simp: IntentTypesConflict_def Let_def)

lemma IntentTypeSetsConflict_iff:
  "IntentTypeSetsConflict s t \<longleftrightarrow> (\<exists>i j. Test s i \<and> Test t j \<and> IntentTypesConflict i j)"
  unfolding IntentTypeSetsConflict_def list_ex_iff Bex_def set_elements by blast

lemma IntentTypeSetsConflict_sym: "IntentTypeSetsConflict s t \<longleftrightarrow> IntentTypeSetsConflict t s"
  unfolding IntentTypeSetsConflict_iff using IntentTypesConflict_sym by blast

lemma and_or_zero: "w AND (a OR b) = 0 \<longleftrightarrow> w AND a = 0 \<and> w AND b = 0" for w a b :: "'a::len word"
  by (auto simp: bit.conj_disj_distrib or_eq_0_iff)

lemma and_conflict_mask:
  "w AND conflict_mask s = 0 \<longleftrightarrow>
    (\<forall>i j. Test s i \<longrightarrow> IntentTypesConflict i j \<longrightarrow> w AND IntentTypeMask j = 0)"
proof -
  have a: "w AND fold (\<lambda>j r. if IntentTypesConflict i j then r OR IntentTypeMask j else r) js r = 0 \<longleftrightarrow>
      w AND r = 0 \<and> (\<forall>j\<in>set js. IntentTypesConflict i j \<longrightarrow> w AND IntentTypeMask j = 0)" for i js r
    by (induction js arbitrary: r) (auto simp: and_or_zero)
  have b: "w AND fold (\<lambda>i. fold (\<lambda>j r. if IntentTypesConflict i j then r OR IntentTypeMask j else r) kIntentTypeList) is r = 0 \<longleftrightarrow>
      w AND r = 0 \<and> (\<forall>i\<in>set is. \<forall>j\<in>set kIntentTypeList. IntentTypesConflict i j \<longrightarrow> w AND IntentTypeMask j = 0)" for "is" r
    by (induction "is" arbitrary: r) (auto simp: a)
  have all: "j \<in> set kIntentTypeList" for j by (cases j) (simp_all add: kIntentTypeList_def)
  show ?thesis unfolding conflict_mask_def b using all by (auto simp: set_elements)
qed

lemma make_of_ToUIntPtr: "make_IntentTypeSet (of_nat (ToUIntPtr s)) = s"
proof -
  have "unat s < 16" using unat_bound [of s] by simp
  then have "unat (make_IntentTypeSet (of_nat (ToUIntPtr s))) = unat s"
    by (simp add: make_IntentTypeSet_def ToUIntPtr_def unat_ucast unsigned_of_nat take_bit_eq_mod)
  then show ?thesis by (simp only: word_unat_eq_iff)
qed

lemma ToUIntPtr_less: "ToUIntPtr s < kIntentTypeSetMapSize"
  using unat_bound [of s] by (simp add: ToUIntPtr_def kIntentTypeSetMapSize_def)

lemma kIntentTypeSetConflicts_nth: "kIntentTypeSetConflicts ! ToUIntPtr s = conflict_mask s"
  using ToUIntPtr_less [of s]
  by (simp add: kIntentTypeSetConflicts_def GenerateConflicts_def make_of_ToUIntPtr)

lemma kIntentTypeSetAdd_nth: "kIntentTypeSetAdd ! ToUIntPtr s = mask_of_set 1 s"
  using ToUIntPtr_less [of s]
  by (simp add: kIntentTypeSetAdd_def GenerateByMask_def make_of_ToUIntPtr)

lemma mask_of_set_1: "mask_of_set 1 s = lock_word (\<lambda>i. of_bool (Test s i))"
  unfolding mask_of_set_def elements_def kIntentTypeList_def lock_word_def kIntentTypeBits_def
  by (cases "Test s kWeakRead"; cases "Test s kWeakWrite"; cases "Test s kStrongRead";
      cases "Test s kStrongWrite") simp_all

lemma lock_word_add: "lock_word c + lock_word d = lock_word (\<lambda>i. c i + d i)"
  unfolding lock_word_def of_nat_add [symmetric] by (rule arg_cong [where f = of_nat]) simp

lemma lock_word_diff:
  assumes "\<And>i. d i \<le> c i"
  shows "lock_word c - lock_word d = lock_word (\<lambda>i. c i - d i)"
proof -
  have "lock_word (\<lambda>i. c i - d i) + lock_word d = lock_word c"
    unfolding lock_word_add using assms by simp
  then show ?thesis by (metis add_diff_cancel)
qed

lemma and_shifted_mask: "w AND push_bit k (mask n) = 0 \<longleftrightarrow> unat w div 2 ^ k mod 2 ^ n = 0"
  for w :: "'a::len word"
proof -
  have "w AND push_bit k (mask n) = 0 \<longleftrightarrow> take_bit n (drop_bit k w) = 0"
  proof
    assume 0: "w AND push_bit k (mask n) = 0"
    show "take_bit n (drop_bit k w) = 0"
    proof (rule bit_word_eqI)
      fix i assume "i < LENGTH('a)"
      have "\<not> bit (w AND push_bit k (mask n)) (k + i)" using 0 by simp
      then show "bit (take_bit n (drop_bit k w)) i \<longleftrightarrow> bit 0 i"
        using bit_imp_le_length [of w "k + i"] by (auto simp: bit_simps)
    qed
  next
    assume 0: "take_bit n (drop_bit k w) = 0"
    show "w AND push_bit k (mask n) = 0"
    proof (rule bit_word_eqI)
      fix i assume "i < LENGTH('a)"
      have "\<not> bit (take_bit n (drop_bit k w)) (i - k)" using 0 by simp
      then show "bit (w AND push_bit k (mask n)) i \<longleftrightarrow> bit 0 i" by (auto simp: bit_simps)
    qed
  qed
  moreover have "unat (take_bit n (drop_bit k w)) = unat w div 2 ^ k mod 2 ^ n"
    by (simp add: take_bit_eq_mask unat_and_mask unat_drop_bit)
  ultimately show ?thesis by (metis unat_eq_zero)
qed

lemma lock_word_mask:
  assumes "\<And>i. c i < 2 ^ 16"
  shows "lock_word c AND IntentTypeMask i = 0 \<longleftrightarrow> c i = 0"
proof -
  let ?v = "c kWeakRead + 2 ^ 16 * (c kWeakWrite + 2 ^ 16 * (c kStrongRead + 2 ^ 16 * c kStrongWrite))"
  have m: "IntentTypeMask i = push_bit (to_underlying i * 16) (mask 16)"
    by (simp add: IntentTypeMask_def kSingleIntentMask_def kIntentTypeBits_def mask_eq_exp_minus_1)
  have v: "?v < 2 ^ 64"
    using assms [of kWeakRead] assms [of kWeakWrite] assms [of kStrongRead] assms [of kStrongWrite] by simp
  have "unat (of_nat v :: u64) = v" if "v < 2 ^ 64" for v
    using that by (simp add: unsigned_of_nat take_bit_nat_eq_self)
  from this [OF v] have u: "unat (lock_word c) = ?v" unfolding lock_word_def .
  have "?v div 2 ^ (to_underlying i * 16) mod 2 ^ 16 = c i"
  proof -
    define B where "B = (2 :: nat) ^ 16"
    have p: "2 ^ (0 * 16) = (1 :: nat)" "2 ^ (1 * 16) = B" "2 ^ (2 * 16) = B * B" "2 ^ (3 * 16) = B * B * B"
      by (simp_all add: B_def)
    have d: "(a + B * x) div B = x" "(a + B * x) mod B = a" if "a < B" for a x
      using that by simp_all
    note b = assms [unfolded B_def [symmetric]]
    show ?thesis unfolding B_def [symmetric]
      by (cases i) (simp_all only: to_underlying_simps p div_by_1 div_mult2_eq d [OF b] mod_less [OF b])
  qed
  then show ?thesis unfolding m and_shifted_mask u by simp
qed

lemma lock_word_conflict:
  assumes "\<And>i. c i < 2 ^ 16"
  shows "lock_word c AND conflict_mask s = 0 \<longleftrightarrow> (\<forall>i j. Test s i \<longrightarrow> IntentTypesConflict i j \<longrightarrow> c j = 0)"
  unfolding and_conflict_mask lock_word_mask [OF assms] ..

subsection \<open>Locking and unlocking one entry\<close>

text \<open>A call of \<^verbatim>\<open>Lock\<close>: the intent types, and whether it has a deadline.\<close>

type_synonym request = "IntentTypeSet \<times> bool"

text \<open>
  The places of a thread. In \<^verbatim>\<open>Lock\<close>: at the top of the loop with \<^verbatim>\<open>old_value\<close>; before the
  compare-and-swap; before \<^verbatim>\<open>num_waiters\<close> is increased; before the mutex is taken; before
  \<^verbatim>\<open>num_holding\<close> is loaded again; before the wait; asleep; awake and waiting for the mutex
  (with the flag for a timeout); at the end of the block, before the mutex is released; before
  \<^verbatim>\<open>num_waiters\<close> is decreased. In \<^verbatim>\<open>Unlock\<close>: before the compare-and-swap; before
  \<^verbatim>\<open>num_waiters\<close> is read; before the mutex is taken; before it is released; before the
  notification.
\<close>

datatype pc =
    Idle
  | LockTry request LockState
  | LockCas request LockState
  | LockAddWaiter request LockState
  | LockMutex request LockState
  | LockReload request LockState
  | LockWait request LockState
  | LockSleep request LockState
  | LockWake request LockState bool
  | LockLeave request LockState bool
  | LockSubWaiter request LockState bool
  | Holding IntentTypeSet
  | UnlockCas IntentTypeSet LockState
  | UnlockWaiters IntentTypeSet LockState
  | UnlockMutex
  | UnlockRelease
  | UnlockNotify

record LockedBatchEntry =
  mutex :: "nat option"
  num_holding :: LockState
  num_waiters :: u64
  threads :: "nat \<Rightarrow> pc"

definition has_zero :: "IntentTypeSet \<Rightarrow> LockState \<Rightarrow> bool" where
  "has_zero lock_types new_state \<longleftrightarrow>
     list_ex (\<lambda>intent_type. new_state AND IntentTypeMask intent_type = 0) (elements lock_types)"

fun woken :: "pc \<Rightarrow> pc" where
  "woken (LockSleep r old_value) = LockWake r old_value False"
| "woken p = p"

definition goto :: "LockedBatchEntry \<Rightarrow> nat \<Rightarrow> pc \<Rightarrow> LockedBatchEntry" where
  "goto e t p = e\<lparr>threads := (threads e)(t := p)\<rparr>"

abbreviation conflicts_of :: "IntentTypeSet \<Rightarrow> LockState" where
  "conflicts_of s \<equiv> kIntentTypeSetConflicts ! ToUIntPtr s"

abbreviation add_of :: "IntentTypeSet \<Rightarrow> LockState" where
  "add_of s \<equiv> kIntentTypeSetAdd ! ToUIntPtr s"

inductive entry_step :: "nat \<Rightarrow> LockedBatchEntry \<Rightarrow> LockedBatchEntry \<Rightarrow> bool" for n where
  lock_call: "t < n \<Longrightarrow> threads e t = Idle \<Longrightarrow>
    entry_step n e (goto e t (LockTry r (num_holding e)))"
| lock_free: "t < n \<Longrightarrow> threads e t = LockTry r old_value \<Longrightarrow> old_value AND conflicts_of (fst r) = 0 \<Longrightarrow>
    entry_step n e (goto e t (LockCas r old_value))"
| lock_conflict: "t < n \<Longrightarrow> threads e t = LockTry r old_value \<Longrightarrow> old_value AND conflicts_of (fst r) \<noteq> 0 \<Longrightarrow>
    entry_step n e (goto e t (LockAddWaiter r old_value))"
| lock_exchange: "t < n \<Longrightarrow> threads e t = LockCas r old_value \<Longrightarrow> num_holding e = old_value \<Longrightarrow>
    entry_step n e (goto (e\<lparr>num_holding := old_value + add_of (fst r)\<rparr>) t (Holding (fst r)))"
| lock_retry: "t < n \<Longrightarrow> threads e t = LockCas r old_value \<Longrightarrow>
    entry_step n e (goto e t (LockTry r (num_holding e)))"
| lock_add_waiter: "t < n \<Longrightarrow> threads e t = LockAddWaiter r old_value \<Longrightarrow>
    entry_step n e (goto (e\<lparr>num_waiters := num_waiters e + 1\<rparr>) t (LockMutex r old_value))"
| lock_mutex: "t < n \<Longrightarrow> threads e t = LockMutex r old_value \<Longrightarrow> mutex e = None \<Longrightarrow>
    entry_step n e (goto (e\<lparr>mutex := Some t\<rparr>) t (LockReload r old_value))"
| lock_reload_conflict: "t < n \<Longrightarrow> threads e t = LockReload r old_value \<Longrightarrow>
    num_holding e AND conflicts_of (fst r) \<noteq> 0 \<Longrightarrow>
    entry_step n e (goto e t (LockWait r (num_holding e)))"
| lock_reload_free: "t < n \<Longrightarrow> threads e t = LockReload r old_value \<Longrightarrow>
    num_holding e AND conflicts_of (fst r) = 0 \<Longrightarrow>
    entry_step n e (goto e t (LockLeave r (num_holding e) False))"
| lock_wait: "t < n \<Longrightarrow> threads e t = LockWait r old_value \<Longrightarrow>
    entry_step n e (goto (e\<lparr>mutex := None\<rparr>) t (LockSleep r old_value))"
| lock_spurious: "t < n \<Longrightarrow> threads e t = LockSleep r old_value \<Longrightarrow>
    entry_step n e (goto e t (LockWake r old_value False))"
| lock_timeout: "t < n \<Longrightarrow> threads e t = LockSleep r old_value \<Longrightarrow> snd r \<Longrightarrow>
    entry_step n e (goto e t (LockWake r old_value True))"
| lock_wake: "t < n \<Longrightarrow> threads e t = LockWake r old_value timed_out \<Longrightarrow> mutex e = None \<Longrightarrow>
    entry_step n e (goto (e\<lparr>mutex := Some t\<rparr>) t (LockLeave r old_value timed_out))"
| lock_leave: "t < n \<Longrightarrow> threads e t = LockLeave r old_value timed_out \<Longrightarrow>
    entry_step n e (goto (e\<lparr>mutex := None\<rparr>) t (LockSubWaiter r old_value timed_out))"
| lock_again: "t < n \<Longrightarrow> threads e t = LockSubWaiter r old_value False \<Longrightarrow>
    entry_step n e (goto (e\<lparr>num_waiters := num_waiters e - 1\<rparr>) t (LockTry r old_value))"
| lock_fail: "t < n \<Longrightarrow> threads e t = LockSubWaiter r old_value True \<Longrightarrow>
    entry_step n e (goto (e\<lparr>num_waiters := num_waiters e - 1\<rparr>) t Idle)"
| unlock_call: "t < n \<Longrightarrow> threads e t = Holding s \<Longrightarrow>
    entry_step n e (goto e t (UnlockCas s (num_holding e)))"
| unlock_exchange: "t < n \<Longrightarrow> threads e t = UnlockCas s old_state \<Longrightarrow> num_holding e = old_state \<Longrightarrow>
    entry_step n e (goto (e\<lparr>num_holding := old_state - add_of s\<rparr>) t (UnlockWaiters s (old_state - add_of s)))"
| unlock_retry: "t < n \<Longrightarrow> threads e t = UnlockCas s old_state \<Longrightarrow>
    entry_step n e (goto e t (UnlockCas s (num_holding e)))"
| unlock_quiet: "t < n \<Longrightarrow> threads e t = UnlockWaiters s new_state \<Longrightarrow>
    num_waiters e = 0 \<or> \<not> has_zero s new_state \<Longrightarrow>
    entry_step n e (goto e t Idle)"
| unlock_waiters: "t < n \<Longrightarrow> threads e t = UnlockWaiters s new_state \<Longrightarrow>
    num_waiters e \<noteq> 0 \<Longrightarrow> has_zero s new_state \<Longrightarrow>
    entry_step n e (goto e t UnlockMutex)"
| unlock_mutex: "t < n \<Longrightarrow> threads e t = UnlockMutex \<Longrightarrow> mutex e = None \<Longrightarrow>
    entry_step n e (goto (e\<lparr>mutex := Some t\<rparr>) t UnlockRelease)"
| unlock_release: "t < n \<Longrightarrow> threads e t = UnlockRelease \<Longrightarrow>
    entry_step n e (goto (e\<lparr>mutex := None\<rparr>) t UnlockNotify)"
| unlock_notify: "t < n \<Longrightarrow> threads e t = UnlockNotify \<Longrightarrow>
    entry_step n e (e\<lparr>threads := (\<lambda>u. woken (threads e u))(t := Idle)\<rparr>)"

definition fresh_entry :: LockedBatchEntry where
  "fresh_entry = \<lparr>mutex = None, num_holding = 0, num_waiters = 0, threads = (\<lambda>_. Idle)\<rparr>"

inductive entry_reachable :: "nat \<Rightarrow> LockedBatchEntry \<Rightarrow> bool" for n where
  start: "entry_reachable n fresh_entry"
| step: "entry_reachable n e \<Longrightarrow> entry_step n e e' \<Longrightarrow> entry_reachable n e'"

subsection \<open>The invariant\<close>

text \<open>What a thread holds: from the exchange in \<^verbatim>\<open>Lock\<close> to the one in \<^verbatim>\<open>Unlock\<close>.\<close>

fun held :: "pc \<Rightarrow> IntentTypeSet" where
  "held (Holding s) = s"
| "held (UnlockCas s old_state) = s"
| "held _ = 0"

fun owns_mutex :: "pc \<Rightarrow> bool" where
  "owns_mutex (LockReload r old_value) = True"
| "owns_mutex (LockWait r old_value) = True"
| "owns_mutex (LockLeave r old_value timed_out) = True"
| "owns_mutex UnlockRelease = True"
| "owns_mutex _ = False"

fun counted_waiter :: "pc \<Rightarrow> bool" where
  "counted_waiter (LockMutex r old_value) = True"
| "counted_waiter (LockReload r old_value) = True"
| "counted_waiter (LockWait r old_value) = True"
| "counted_waiter (LockSleep r old_value) = True"
| "counted_waiter (LockWake r old_value timed_out) = True"
| "counted_waiter (LockLeave r old_value timed_out) = True"
| "counted_waiter (LockSubWaiter r old_value timed_out) = True"
| "counted_waiter _ = False"

text \<open>A thread in \<^verbatim>\<open>Unlock\<close> that will notify, before and after it has taken the mutex.\<close>

fun will_lock :: "pc \<Rightarrow> bool" where
  "will_lock (UnlockWaiters s new_state) = has_zero s new_state"
| "will_lock UnlockMutex = True"
| "will_lock _ = False"

fun will_notify :: "pc \<Rightarrow> bool" where
  "will_notify UnlockRelease = True"
| "will_notify UnlockNotify = True"
| "will_notify p = will_lock p"

definition holders :: "nat \<Rightarrow> (nat \<Rightarrow> pc) \<Rightarrow> IntentType \<Rightarrow> nat" where
  "holders n ths i = (\<Sum>u<n. of_bool (Test (held (ths u)) i))"

definition waiters :: "nat \<Rightarrow> (nat \<Rightarrow> pc) \<Rightarrow> nat" where
  "waiters n ths = (\<Sum>u<n. of_bool (counted_waiter (ths u)))"

definition counters_ok :: "nat \<Rightarrow> LockedBatchEntry \<Rightarrow> bool" where
  "counters_ok n e \<longleftrightarrow>
     num_holding e = lock_word (holders n (threads e)) \<and>
     num_waiters e = of_nat (waiters n (threads e)) \<and>
     (\<forall>t\<ge>n. threads e t = Idle)"

definition mutex_ok :: "LockedBatchEntry \<Rightarrow> bool" where
  "mutex_ok e \<longleftrightarrow> (\<forall>t. mutex e = Some t \<longleftrightarrow> owns_mutex (threads e t))"

definition exclusive :: "LockedBatchEntry \<Rightarrow> bool" where
  "exclusive e \<longleftrightarrow>
     (\<forall>t r old_value. threads e t = LockCas r old_value \<longrightarrow> old_value AND conflicts_of (fst r) = 0) \<and>
     (\<forall>t u. t \<noteq> u \<longrightarrow> \<not> IntentTypeSetsConflict (held (threads e t)) (held (threads e u)))"

definition justified :: "LockedBatchEntry \<Rightarrow> bool" where
  "justified e \<longleftrightarrow>
     (\<forall>t r old_value. threads e t = LockWait r old_value \<longrightarrow>
        num_holding e AND conflicts_of (fst r) \<noteq> 0 \<or> (\<exists>u. will_lock (threads e u))) \<and>
     (\<forall>t r old_value. threads e t = LockSleep r old_value \<longrightarrow>
        num_holding e AND conflicts_of (fst r) \<noteq> 0 \<or> (\<exists>u. will_notify (threads e u)))"

lemma sum_update:
  fixes f :: "pc \<Rightarrow> nat" and n t :: nat
  assumes "t < n"
  shows "(\<Sum>u<n. f ((ths(t := p)) u)) + f (ths t) = (\<Sum>u<n. f (ths u)) + f p"
proof -
  have "(\<Sum>u<n. g u) = g t + (\<Sum>u\<in>{..<n} - {t}. g u)" for g :: "nat \<Rightarrow> nat"
    using assms by (intro sum.remove) auto
  from this [of "\<lambda>u. f ((ths(t := p)) u)"] this [of "\<lambda>u. f (ths u)"] show ?thesis by simp
qed

lemma holders_goto:
  "t < n \<Longrightarrow> holders n ((threads e)(t := p)) i + of_bool (Test (held (threads e t)) i) =
     holders n (threads e) i + of_bool (Test (held p) i)"
  unfolding holders_def using sum_update [of t n "\<lambda>p. of_bool (Test (held p) i)"] by simp

lemma waiters_goto:
  "t < n \<Longrightarrow> waiters n ((threads e)(t := p)) + of_bool (counted_waiter (threads e t)) =
     waiters n (threads e) + of_bool (counted_waiter p)"
  unfolding waiters_def using sum_update [of t n "\<lambda>p. of_bool (counted_waiter p)"] by simp

lemma holders_le: "holders n ths i \<le> n"
  unfolding holders_def using sum_bounded_above [of "{..<n}" "\<lambda>u. of_bool (Test (held (ths u)) i)" "1 :: nat"] by simp

lemma waiters_le: "waiters n ths \<le> n"
  unfolding waiters_def using sum_bounded_above [of "{..<n}" "\<lambda>u. of_bool (counted_waiter (ths u))" "1 :: nat"] by simp

lemma held_woken [simp]: "held (woken p) = held p" "counted_waiter (woken p) = counted_waiter p"
  "owns_mutex (woken p) = owns_mutex p" "will_lock (woken p) = will_lock p"
  by (cases p; simp)+


lemma counters_ok_mutex [simp]: "counters_ok n (e\<lparr>mutex := x\<rparr>) = counters_ok n e"
  by (simp add: counters_ok_def)

lemma counters_goto:
  assumes "counters_ok n e" and "t < n" and "held p = held (threads e t)"
    and "counted_waiter p = counted_waiter (threads e t)"
  shows "counters_ok n (goto e t p)"
proof -
  have "holders n ((threads e)(t := p)) = holders n (threads e)"
    using holders_goto [OF assms(2), of e p] assms(3) by (intro ext) simp
  moreover have "waiters n ((threads e)(t := p)) = waiters n (threads e)"
    using waiters_goto [OF assms(2), of e p] assms(4) by simp
  ultimately show ?thesis using assms(1,2) by (simp add: counters_ok_def goto_def)
qed

lemma counters_lock:
  assumes ok: "counters_ok n e" and t: "t < n" "held (threads e t) = 0" "\<not> counted_waiter (threads e t)"
  shows "counters_ok n (goto (e\<lparr>num_holding := num_holding e + add_of s\<rparr>) t (Holding s))"
proof -
  have "holders n ((threads e)(t := Holding s)) = (\<lambda>i. holders n (threads e) i + of_bool (Test s i))"
    using holders_goto [OF t(1), of e "Holding s"] t(2) by (intro ext) (simp add: Test_def)
  moreover have "waiters n ((threads e)(t := Holding s)) = waiters n (threads e)"
    using waiters_goto [OF t(1), of e "Holding s"] t(3) by simp
  ultimately show ?thesis using ok t(1)
    by (simp add: counters_ok_def goto_def kIntentTypeSetAdd_nth mask_of_set_1 lock_word_add)
qed

lemma counters_unlock:
  assumes ok: "counters_ok n e" and t: "t < n" "threads e t = UnlockCas s old_state"
  shows "counters_ok n (goto (e\<lparr>num_holding := num_holding e - add_of s\<rparr>) t (UnlockWaiters s w))"
proof -
  let ?p = "UnlockWaiters s w"
  have h: "holders n ((threads e)(t := ?p)) i + of_bool (Test s i) = holders n (threads e) i" for i
    using holders_goto [OF t(1), of e ?p i] t(2) by (simp add: Test_def)
  have "of_bool (Test s i) \<le> holders n (threads e) i" for i using h [of i] by linarith
  moreover have "holders n ((threads e)(t := ?p)) = (\<lambda>i. holders n (threads e) i - of_bool (Test s i))"
    using h by (intro ext) (metis add_diff_cancel_right')
  moreover have "waiters n ((threads e)(t := ?p)) = waiters n (threads e)"
    using waiters_goto [OF t(1), of e ?p] t(2) by simp
  ultimately show ?thesis using ok t(1)
    by (simp add: counters_ok_def goto_def kIntentTypeSetAdd_nth mask_of_set_1 lock_word_diff)
qed

lemma counters_waiter:
  assumes ok: "counters_ok n e" and t: "t < n" "held p = held (threads e t)"
  shows "\<not> counted_waiter (threads e t) \<Longrightarrow> counted_waiter p \<Longrightarrow>
      counters_ok n (goto (e\<lparr>num_waiters := num_waiters e + 1\<rparr>) t p)"
    and "counted_waiter (threads e t) \<Longrightarrow> \<not> counted_waiter p \<Longrightarrow>
      counters_ok n (goto (e\<lparr>num_waiters := num_waiters e - 1\<rparr>) t p)"
proof -
  have h: "holders n ((threads e)(t := p)) = holders n (threads e)"
    using holders_goto [OF t(1), of e p] t(2) by (intro ext) simp
  note w = waiters_goto [OF t(1), of e p]
  show "counters_ok n (goto (e\<lparr>num_waiters := num_waiters e + 1\<rparr>) t p)"
    if "\<not> counted_waiter (threads e t)" "counted_waiter p"
    using w that h ok t(1) by (simp add: counters_ok_def goto_def)
  show "counters_ok n (goto (e\<lparr>num_waiters := num_waiters e - 1\<rparr>) t p)"
    if "counted_waiter (threads e t)" "\<not> counted_waiter p"
  proof -
    have "waiters n (threads e) = Suc (waiters n ((threads e)(t := p)))" using w that by simp
    then show ?thesis using h ok t(1) by (simp add: counters_ok_def goto_def)
  qed
qed

lemma step_counters: "entry_step n e e' \<Longrightarrow> counters_ok n e \<Longrightarrow> counters_ok n e'"
proof (induction rule: entry_step.induct)
  case (lock_exchange t e r old_value)
  then show ?case using counters_lock [of n e t "fst r"] by simp
next
  case (unlock_exchange t e s old_state)
  then show ?case using counters_unlock [of n e t s old_state] by simp
next
  case (lock_add_waiter t e r old_value)
  then show ?case by (intro counters_waiter(1)) auto
next
  case (lock_again t e r old_value)
  then show ?case by (intro counters_waiter(2)) auto
next
  case (lock_fail t e r old_value)
  then show ?case by (intro counters_waiter(2)) auto
next
  case (unlock_notify t e)
  have "held (((\<lambda>u. woken (threads e u))(t := Idle)) u) = held (threads e u)"
    "counted_waiter (((\<lambda>u. woken (threads e u))(t := Idle)) u) = counted_waiter (threads e u)" for u
    using unlock_notify(2) by auto
  then have "holders n ((\<lambda>u. woken (threads e u))(t := Idle)) = holders n (threads e)"
    "waiters n ((\<lambda>u. woken (threads e u))(t := Idle)) = waiters n (threads e)"
    unfolding holders_def waiters_def by (simp_all only:)
  then show ?case using unlock_notify by (simp add: counters_ok_def)
qed (auto intro!: counters_goto)

lemma mutex_release:
  assumes "mutex_ok e" and "owns_mutex (threads e t)" and "\<not> owns_mutex p"
  shows "mutex_ok (goto (e\<lparr>mutex := None\<rparr>) t p)"
proof -
  have "mutex e = Some t" using assms(1,2) by (simp add: mutex_ok_def)
  then have "\<not> owns_mutex (threads e u)" if "u \<noteq> t" for u
    using assms(1) that unfolding mutex_ok_def by (metis option.inject)
  then show ?thesis using assms(3) by (auto simp: mutex_ok_def goto_def)
qed

lemma step_mutex: "entry_step n e e' \<Longrightarrow> mutex_ok e \<Longrightarrow> mutex_ok e'"
proof (induction rule: entry_step.induct)
  case lock_wait
  then show ?case by (intro mutex_release) auto
next
  case lock_leave
  then show ?case by (intro mutex_release) auto
next
  case unlock_release
  then show ?case by (intro mutex_release) auto
qed (auto simp: mutex_ok_def goto_def)

subsection \<open>Mutual exclusion\<close>

lemma held_holders: "u < n \<Longrightarrow> Test (held (ths u)) i \<Longrightarrow> holders n ths i \<noteq> 0"
  unfolding holders_def by (auto simp: sum_eq_0_iff)

lemma conflicts_iff:
  assumes "counters_ok n e" and "n < 2 ^ 16"
  shows "num_holding e AND conflicts_of s = 0 \<longleftrightarrow>
    (\<forall>i j. Test s i \<longrightarrow> IntentTypesConflict i j \<longrightarrow> holders n (threads e) j = 0)"
proof -
  have "holders n (threads e) i < 2 ^ 16" for i using holders_le [of n "threads e" i] assms(2) by linarith
  then show ?thesis
    using assms(1) lock_word_conflict [of "holders n (threads e)" s]
    by (simp add: counters_ok_def kIntentTypeSetConflicts_nth)
qed

lemma no_conflict_0 [simp]: "\<not> IntentTypeSetsConflict 0 s" "\<not> IntentTypeSetsConflict s 0"
  by (simp_all add: IntentTypeSetsConflict_iff Test_def)

lemma free_no_conflict:
  assumes ok: "counters_ok n e" and n: "n < 2 ^ 16" and free: "num_holding e AND conflicts_of s = 0"
  shows "\<not> IntentTypeSetsConflict s (held (threads e u))"
proof (cases "u < n")
  case True
  then show ?thesis
    using held_holders [OF True, of "threads e"] free conflicts_iff [OF ok n]
    unfolding IntentTypeSetsConflict_iff by blast
next
  case False
  then show ?thesis using ok by (simp add: counters_ok_def)
qed

lemma exclusive_goto:
  assumes "exclusive e" and "held p = held (threads e t) \<or> held p = 0"
    and "\<And>r old_value. p = LockCas r old_value \<Longrightarrow> old_value AND conflicts_of (fst r) = 0"
  shows "exclusive (goto e t p)"
  using assms unfolding exclusive_def goto_def by (auto split: if_splits)

lemma exclusive_simps [simp]: "exclusive (e\<lparr>mutex := x\<rparr>) = exclusive e"
  "exclusive (e\<lparr>num_holding := y\<rparr>) = exclusive e" "exclusive (e\<lparr>num_waiters := z\<rparr>) = exclusive e"
  by (simp_all add: exclusive_def)

lemma step_exclusive:
  "entry_step n e e' \<Longrightarrow> counters_ok n e \<Longrightarrow> n < 2 ^ 16 \<Longrightarrow> exclusive e \<Longrightarrow> exclusive e'"
proof (induction rule: entry_step.induct)
  case (lock_exchange t e r old_value)
  then have "num_holding e AND conflicts_of (fst r) = 0" unfolding exclusive_def by blast
  from free_no_conflict [OF lock_exchange(4,5) this] lock_exchange(6)
  show ?case by (auto simp: exclusive_def goto_def IntentTypeSetsConflict_sym split: if_splits)
next
  case (unlock_notify t e)
  have "woken p = LockCas r v \<longleftrightarrow> p = LockCas r v" for p r v by (cases p) auto
  then show ?case using unlock_notify(5) by (auto simp: exclusive_def split: if_splits)
qed (auto intro!: exclusive_goto)

subsection \<open>No lost wake-up\<close>

lemma will_lock_notify: "will_lock p \<Longrightarrow> will_notify p"
  by (cases p) auto

definition awaited :: "LockedBatchEntry \<Rightarrow> request \<Rightarrow> bool" where
  "awaited e r \<longleftrightarrow> num_holding e AND conflicts_of (fst r) \<noteq> 0"

lemma justified_alt:
  "justified e \<longleftrightarrow>
     (\<forall>t r old_value. threads e t = LockWait r old_value \<longrightarrow> awaited e r \<or> (\<exists>u. will_lock (threads e u))) \<and>
     (\<forall>t r old_value. threads e t = LockSleep r old_value \<longrightarrow> awaited e r \<or> (\<exists>u. will_notify (threads e u)))"
  unfolding justified_def awaited_def ..

lemma justified_step:
  assumes "justified e"
    and "\<And>u r old_value. threads e' u = LockWait r old_value \<Longrightarrow>
      threads e u = LockWait r old_value \<or> awaited e' r"
    and "\<And>u r old_value. threads e' u = LockSleep r old_value \<Longrightarrow>
      threads e u = LockSleep r old_value \<or> threads e u = LockWait r old_value \<or> awaited e' r"
    and "\<And>u r. awaited e r \<Longrightarrow> awaited e' r \<or> (\<exists>v. will_lock (threads e' v))"
    and "\<And>u. will_lock (threads e u) \<Longrightarrow>
      (\<exists>v. will_lock (threads e' v)) \<or> (\<forall>t r old_value. threads e' t \<noteq> LockWait r old_value)"
    and "\<And>u. will_notify (threads e u) \<Longrightarrow>
      (\<exists>v. will_notify (threads e' v)) \<or> (\<forall>t r old_value. threads e' t \<noteq> LockSleep r old_value)"
  shows "justified e'"
  unfolding justified_alt
proof (intro conjI allI impI)
  fix u r old_value
  assume "threads e' u = LockWait r old_value"
  then show "awaited e' r \<or> (\<exists>u. will_lock (threads e' u))"
    using assms(1) [unfolded justified_alt] assms(2,4,5) by metis
next
  fix u r old_value
  assume "threads e' u = LockSleep r old_value"
  then show "awaited e' r \<or> (\<exists>u. will_notify (threads e' u))"
    using assms(1) [unfolded justified_alt] assms(3,4,6) will_lock_notify by metis
qed

lemma waiting_counted:
  assumes "counters_ok n e" and "n < 2 ^ 16" and "counted_waiter (threads e t)"
  shows "num_waiters e \<noteq> 0"
proof -
  have "t < n" using assms(1,3) unfolding counters_ok_def by (metis counted_waiter.simps(8) not_le)
  then have "0 < waiters n (threads e)"
    unfolding waiters_def using assms(3) by (intro sum_pos2 [of _ t]) auto
  moreover have "waiters n (threads e) < 2 ^ 64" using waiters_le [of n "threads e"] assms(2) by simp
  ultimately show ?thesis using assms(1) by (simp add: counters_ok_def word_of_nat_eq_0_iff dvd_imp_le nat_dvd_not_less)
qed

lemma awaited_iff:
  assumes "counters_ok n e" and "n < 2 ^ 16"
  shows "awaited e r \<longleftrightarrow>
    (\<exists>i j. Test (fst r) i \<and> IntentTypesConflict i j \<and> holders n (threads e) j \<noteq> 0)"
  unfolding awaited_def conflicts_iff [OF assms] by auto

lemma awaited_simps [simp]: "awaited (e\<lparr>mutex := x\<rparr>) = awaited e"
  "awaited (e\<lparr>num_waiters := z\<rparr>) = awaited e" "awaited (e\<lparr>threads := ts\<rparr>) = awaited e"
  "awaited (goto e t p) = awaited e"
  by (simp_all add: awaited_def goto_def fun_eq_iff)

lemma threads_goto [simp]: "threads (goto e t p) = (threads e)(t := p)"
  by (simp add: goto_def)

lemma justified_move:
  assumes "justified e" and ths: "threads e' = (threads e)(t := p)"
    and "\<And>r. awaited e r \<Longrightarrow> awaited e' r \<or> will_lock p"
    and "\<And>r old_value. p = LockWait r old_value \<Longrightarrow> awaited e' r"
    and "\<And>r old_value. p = LockSleep r old_value \<Longrightarrow> threads e t = LockWait r old_value"
    and "will_lock (threads e t) \<Longrightarrow> will_lock p \<or> (\<forall>u r old_value. threads e' u \<noteq> LockWait r old_value)"
    and "will_notify (threads e t) \<Longrightarrow> will_notify p"
  shows "justified e'"
proof (rule justified_step [OF assms(1)])
  have other: "\<exists>v. f (threads e' v)" if "f (threads e u)" "u \<noteq> t" for f :: "pc \<Rightarrow> bool" and u
    using that ths by (intro exI [of _ u]) simp
  have self: "\<exists>v. f (threads e' v)" if "f p" for f :: "pc \<Rightarrow> bool"
    using that ths by (intro exI [of _ t]) simp
  show "(\<exists>v. will_lock (threads e' v)) \<or> (\<forall>t r old_value. threads e' t \<noteq> LockWait r old_value)"
    if "will_lock (threads e u)" for u
    using other [of will_lock, OF that] self [of will_lock] that assms(6) by blast
  show "(\<exists>v. will_notify (threads e' v)) \<or> (\<forall>t r old_value. threads e' t \<noteq> LockSleep r old_value)"
    if "will_notify (threads e u)" for u
    using other [of will_notify, OF that] self [of will_notify] that assms(7) by blast
  show "awaited e' r \<or> (\<exists>v. will_lock (threads e' v))" if "awaited e r" for r
    using assms(3) [OF that] self [of will_lock] by blast
qed (use assms in \<open>auto split: if_splits\<close>)

lemma justified_quiet:
  assumes "justified e" and "threads e' = (threads e)(t := p)" and "\<not> will_notify (threads e t)"
    and "awaited e' = awaited e"
    and "\<And>r old_value. p = LockWait r old_value \<Longrightarrow> awaited e r"
    and "\<And>r old_value. p = LockSleep r old_value \<Longrightarrow> threads e t = LockWait r old_value"
  shows "justified e'"
  by (rule justified_move [OF assms(1,2)]) (use assms will_lock_notify in \<open>blast | simp\<close>)+

lemma justified_simps [simp]: "justified (e\<lparr>mutex := x\<rparr>) = justified e"
  "justified (e\<lparr>num_waiters := z\<rparr>) = justified e"
  by (simp_all add: justified_def)

lemma quiet_goto:
  assumes "justified e" and "\<not> will_notify (threads e t)"
    and "\<forall>r old_value. p \<noteq> LockWait r old_value"
    and "\<forall>r old_value. p = LockSleep r old_value \<longrightarrow> threads e t = LockWait r old_value"
  shows "justified (goto e t p)"
  by (rule justified_quiet [OF assms(1)]) (use assms in \<open>(simp; fail) | blast\<close>)+

lemma woken_eq [simp]: "woken p = LockWait r v \<longleftrightarrow> p = LockWait r v" "woken p \<noteq> LockSleep r v"
  "woken p = LockCas r v \<longleftrightarrow> p = LockCas r v"
  by (cases p; simp)+

lemma new_zero_flag:
  assumes "awaited e r" and "\<not> awaited e' r" and "counters_ok n e" "counters_ok n e'" and "n < 2 ^ 16"
    and "t < n" and "threads e t = UnlockCas s v" and "threads e' = (threads e)(t := UnlockWaiters s (num_holding e'))"
  shows "has_zero s (num_holding e')"
proof -
  obtain i j where ij: "Test (fst r) i" "IntentTypesConflict i j" "holders n (threads e) j \<noteq> 0"
    using assms(1) awaited_iff [OF assms(3,5)] by blast
  then have 0: "holders n (threads e') j = 0" using assms(2) awaited_iff [OF assms(4,5)] by blast
  then have "Test s j" using ij(3) holders_goto [OF assms(6), of e "UnlockWaiters s (num_holding e')" j] assms(7,8)
    by (cases "Test s j") (simp_all add: Test_def)
  moreover have "holders n (threads e') k < 2 ^ 16" for k using holders_le [of n "threads e'" k] assms(5) by linarith
  then have "num_holding e' AND IntentTypeMask j = 0"
    using 0 assms(4) lock_word_mask [of "holders n (threads e')" j] by (simp add: counters_ok_def)
  ultimately show ?thesis by (auto simp: has_zero_def list_ex_iff set_elements)
qed

lemma holders_grow:
  assumes "awaited e r" and "counters_ok n e" "counters_ok n e'" and "n < 2 ^ 16"
    and "t < n" and "held (threads e t) = 0" and "threads e' = (threads e)(t := p)"
  shows "awaited e' r"
proof -
  obtain i j where ij: "Test (fst r) i" "IntentTypesConflict i j" "holders n (threads e) j \<noteq> 0"
    using assms(1) awaited_iff [OF assms(2,4)] by blast
  have "holders n (threads e') j \<noteq> 0"
    using ij(3) holders_goto [OF assms(5), of e p j] assms(6,7) by (simp add: Test_def)
  then show ?thesis using ij(1,2) awaited_iff [OF assms(3,4)] by blast
qed

lemma no_lock_wait:
  assumes "mutex_ok e" and "mutex e = None"
  shows "threads e u \<noteq> LockWait r old_value"
  using assms unfolding mutex_ok_def by (metis option.distinct(1) owns_mutex.simps(2))

lemma unlock_quiet_justified:
  assumes "justified e" and "counters_ok n e" and "n < 2 ^ 16"
    and "threads e t = UnlockWaiters s x" and "num_waiters e = 0 \<or> \<not> has_zero s x"
  shows "justified (goto e t Idle)"
proof (cases "has_zero s x")
  case True
  then have "\<not> counted_waiter (threads e u)" for u using assms(5) waiting_counted [OF assms(2,3)] by blast
  then have "threads e u = LockWait r v \<longrightarrow> False" "threads e u = LockSleep r v \<longrightarrow> False" for u r v
    by (intro impI; metis counted_waiter.simps(3,4))+
  then have "threads (goto e t Idle) u \<noteq> LockWait r v" "threads (goto e t Idle) u \<noteq> LockSleep r v" for u r v
    by simp_all
  then show ?thesis unfolding justified_alt by blast
next
  case False
  then have "\<not> will_notify (threads e t)" using assms(4) by simp
  then show ?thesis
    by (intro justified_quiet [OF assms(1), of "goto e t Idle" t Idle]) simp_all
qed

lemma unlock_notify_justified:
  assumes "justified e" and "threads e t = UnlockNotify"
  shows "justified (e\<lparr>threads := (\<lambda>u. woken (threads e u))(t := Idle)\<rparr>)" (is "justified ?e")
proof (rule justified_step [OF assms(1)])
  fix u assume u: "will_lock (threads e u)"
  then have "u \<noteq> t" using assms(2) by auto
  then have "will_lock (threads ?e u)" using u by simp
  then show "(\<exists>v. will_lock (threads ?e v)) \<or> (\<forall>t r old_value. threads ?e t \<noteq> LockWait r old_value)" by blast
qed (auto split: if_splits)

lemma step_justified:
  "entry_step n e e' \<Longrightarrow> counters_ok n e \<Longrightarrow> counters_ok n e' \<Longrightarrow> mutex_ok e \<Longrightarrow> n < 2 ^ 16 \<Longrightarrow>
    justified e \<Longrightarrow> justified e'"
proof (induction rule: entry_step.induct)
  case (lock_exchange t e r old_value)
  note ok = lock_exchange
  show ?case
    by (rule justified_move [OF ok(8), of _ t "Holding (fst r)"])
      (use holders_grow [OF _ ok(4,5,7,1), of _ "Holding (fst r)"] ok(2) in \<open>auto simp: goto_def\<close>)
next
  case (unlock_exchange t e s old_state)
  note ok = unlock_exchange
  let ?e = "goto (e\<lparr>num_holding := old_state - add_of s\<rparr>) t (UnlockWaiters s (old_state - add_of s))"
  have ths: "threads ?e = (threads e)(t := UnlockWaiters s (num_holding ?e))"
    "UnlockWaiters s (old_state - add_of s) = UnlockWaiters s (num_holding ?e)" by (simp_all add: goto_def)
  have "awaited ?e r \<or> will_lock (UnlockWaiters s (num_holding ?e))" if "awaited e r" for r
    using new_zero_flag [OF that _ ok(4,5,7,1,2) ths(1)] by (simp only: will_lock.simps) blast
  then show ?case by (rule justified_move [OF ok(8) ths(1)]) (simp_all add: ok(2))
next
  case (unlock_quiet t e s new_state)
  then show ?case by (intro unlock_quiet_justified)
next
  case (unlock_mutex t e)
  have "threads (goto (e\<lparr>mutex := Some t\<rparr>) t UnlockRelease) u \<noteq> LockWait r old_value" for u r old_value
    using no_lock_wait [OF unlock_mutex(6,3)] by simp
  with unlock_mutex(2) show ?case by (intro justified_move [OF unlock_mutex(8), of _ t UnlockRelease]) simp_all
next
  case (unlock_notify t e)
  then show ?case by (intro unlock_notify_justified)
next
  case (lock_reload_conflict t e r old_value)
  then show ?case
    by (intro justified_quiet [OF lock_reload_conflict(8), of _ t "LockWait r (num_holding e)"])
      (simp_all add: awaited_def [of e])
next
  case (unlock_waiters t e s new_state)
  then show ?case by (intro justified_move [OF unlock_waiters(9), of _ t UnlockMutex]) simp_all
next
  case (unlock_release t e)
  then show ?case by (intro justified_move [OF unlock_release(7), of _ t UnlockNotify]) simp_all
qed (simp_all add: quiet_goto)

subsection \<open>Reachable states\<close>

lemma fresh_entry_ok: "counters_ok n fresh_entry" "mutex_ok fresh_entry" "exclusive fresh_entry" "justified fresh_entry"
proof -
  have "lock_word (\<lambda>_. 0) = 0" by (simp add: lock_word_def)
  then show "counters_ok n fresh_entry"
    by (simp add: counters_ok_def fresh_entry_def holders_def [abs_def] waiters_def Test_def)
qed (simp_all add: mutex_ok_def exclusive_def justified_def fresh_entry_def)

lemma entry_reachable_ok:
  assumes "entry_reachable n e" and "n < 2 ^ 16"
  shows "counters_ok n e \<and> mutex_ok e \<and> exclusive e \<and> justified e"
  using assms(1)
proof induction
  case start
  then show ?case using fresh_entry_ok by simp
next
  case (step e e')
  then have "counters_ok n e'" using step_counters assms(2) by blast
  then show ?case using step step_mutex step_exclusive step_justified assms(2) by blast
qed

text \<open>A thread that is at rest: in no call, or asleep in \<^verbatim>\<open>Lock\<close>.\<close>

fun at_rest :: "pc \<Rightarrow> bool" where
  "at_rest Idle = True"
| "at_rest (Holding s) = True"
| "at_rest (LockSleep r old_value) = True"
| "at_rest _ = False"

lemma at_rest_not_notify: "at_rest p \<Longrightarrow> \<not> will_notify p"
  by (cases p) auto

lemma at_rest_held: "at_rest p \<Longrightarrow> Test (held p) i \<Longrightarrow> p = Holding (held p)"
  by (cases p) (auto simp: Test_def)

lemma awaited_holder:
  assumes "awaited e r" and "counters_ok n e" and "n < 2 ^ 16"
  obtains u where "IntentTypeSetsConflict (fst r) (held (threads e u))"
proof -
  obtain i j where ij: "Test (fst r) i" "IntentTypesConflict i j" "holders n (threads e) j \<noteq> 0"
    using assms awaited_iff by blast
  then obtain u where "Test (held (threads e u)) j" unfolding holders_def by (auto simp: sum_eq_0_iff split: if_splits)
  then show ?thesis using ij that unfolding IntentTypeSetsConflict_iff by blast
qed

lemma conflict_held:
  assumes "IntentTypeSetsConflict s (held p)" and "at_rest p"
  shows "p = Holding (held p)"
  using assms at_rest_held unfolding IntentTypeSetsConflict_iff by blast

text \<open>A thread that does not wait for the mutex can take its next step.\<close>

definition moves :: "nat \<Rightarrow> LockedBatchEntry \<Rightarrow> nat \<Rightarrow> bool" where
  "moves n e t \<longleftrightarrow> (\<exists>e'. entry_step n e e' \<and> threads e' t \<noteq> threads e t)"

lemma movesI: "entry_step n e (goto e0 t p) \<Longrightarrow> threads e t \<noteq> p \<Longrightarrow> moves n e t"
  unfolding moves_def by (intro exI [of _ "goto e0 t p"]) simp

lemma moves_if_running:
  assumes t: "t < n" and "\<not> at_rest (threads e t)" and "mutex e = None \<or> owns_mutex (threads e t)"
  shows "moves n e t"
proof (cases "threads e t")
  case (LockTry r v)
  then show ?thesis using movesI [OF lock_free [OF t LockTry]] movesI [OF lock_conflict [OF t LockTry]] by fastforce
next
  case (LockReload r v)
  then show ?thesis
    using movesI [OF lock_reload_free [OF t LockReload]] movesI [OF lock_reload_conflict [OF t LockReload]] by fastforce
next
  case (LockSubWaiter r v timed_out)
  then show ?thesis
    using movesI [OF lock_again [OF t]] movesI [OF lock_fail [OF t]] by (cases timed_out) fastforce+
next
  case (UnlockCas s v)
  then show ?thesis using movesI [OF unlock_exchange [OF t UnlockCas]] movesI [OF unlock_retry [OF t UnlockCas]] by fastforce
next
  case (UnlockWaiters s v)
  then show ?thesis
    using movesI [OF unlock_quiet [OF t UnlockWaiters]] movesI [OF unlock_waiters [OF t UnlockWaiters]] by fastforce
next
  case (LockCas r v)
  then show ?thesis using movesI [OF lock_retry [OF t LockCas]] by simp
next
  case (LockAddWaiter r v)
  then show ?thesis using movesI [OF lock_add_waiter [OF t LockAddWaiter]] by simp
next
  case (LockMutex r v)
  then show ?thesis using movesI [OF lock_mutex [OF t LockMutex]] assms(3) by simp
next
  case (LockWait r v)
  then show ?thesis using movesI [OF lock_wait [OF t LockWait]] by simp
next
  case (LockWake r v timed_out)
  then show ?thesis using movesI [OF lock_wake [OF t LockWake]] assms(3) by simp
next
  case (LockLeave r v timed_out)
  then show ?thesis using movesI [OF lock_leave [OF t LockLeave]] by simp
next
  case UnlockMutex
  then show ?thesis using movesI [OF unlock_mutex [OF t UnlockMutex]] assms(3) by simp
next
  case UnlockRelease
  then show ?thesis using movesI [OF unlock_release [OF t UnlockRelease]] by simp
next
  case UnlockNotify
  then show ?thesis
    using unlock_notify [OF t UnlockNotify] unfolding moves_def
    by (intro exI [of _ "e\<lparr>threads := (\<lambda>u. woken (threads e u))(t := Idle)\<rparr>"]) simp
qed (use assms(2) in simp_all)

lemma running_moves:
  assumes "counters_ok n e" and "mutex_ok e" and "\<not> at_rest (threads e t)"
  shows "\<exists>u. \<not> at_rest (threads e u) \<and> moves n e u"
proof -
  have below: "u < n" if "\<not> at_rest (threads e u)" for u
    using assms(1) that unfolding counters_ok_def by (metis at_rest.simps(1) not_le)
  show ?thesis
  proof (cases "mutex e")
    case None
    then show ?thesis using moves_if_running [OF below] assms(3) by blast
  next
    case (Some u)
    then have u: "owns_mutex (threads e u)" using assms(2) unfolding mutex_ok_def by blast
    then have "\<not> at_rest (threads e u)" by (cases "threads e u") simp_all
    then show ?thesis using moves_if_running [OF below] u by blast
  qed
qed

subsection \<open>Properties of one entry\<close>

text \<open>
  C2: two threads never hold conflicting locks of an entry, however their calls of \<^verbatim>\<open>Lock\<close>
  and \<^verbatim>\<open>Unlock\<close> interleave; and the counters of \<^verbatim>\<open>num_holding\<close> are the numbers of
  holders of each intent type, with no overflow from one block of sixteen bits into the next.
\<close>

theorem lock_mutual_exclusion:
  assumes "entry_reachable n e" and "n < 2 ^ 16"
  shows "(\<forall>t u. t \<noteq> u \<longrightarrow> \<not> IntentTypeSetsConflict (held (threads e t)) (held (threads e u))) \<and>
    num_holding e = lock_word (holders n (threads e))"
  using entry_reachable_ok [OF assms] unfolding exclusive_def counters_ok_def by blast

text \<open>
  C3: a sleeping thread is not forgotten. When every thread is at rest, a thread asleep in
  \<^verbatim>\<open>Lock\<close> is blocked by a thread that holds a conflicting lock (whose \<^verbatim>\<open>Unlock\<close> will
  notify it); and while some thread is not at rest, some such thread can move, so the mutex of
  the entry never blocks them all.
\<close>

theorem lock_no_lost_wakeup:
  assumes "entry_reachable n e" and "n < 2 ^ 16"
  shows "((\<forall>u. at_rest (threads e u)) \<longrightarrow> threads e t = LockSleep r old_value \<longrightarrow>
      (\<exists>u s. threads e u = Holding s \<and> IntentTypeSetsConflict (fst r) s)) \<and>
    (\<not> at_rest (threads e t) \<longrightarrow> (\<exists>u. \<not> at_rest (threads e u) \<and> moves n e u))"
proof (intro conjI impI)
  note ok = entry_reachable_ok [OF assms]
  assume rest: "\<forall>u. at_rest (threads e u)" and "threads e t = LockSleep r old_value"
  then have "awaited e r" using ok at_rest_not_notify unfolding justified_alt by blast
  then obtain u where "IntentTypeSetsConflict (fst r) (held (threads e u))"
    using awaited_holder ok assms(2) by blast
  with conflict_held rest show "\<exists>u s. threads e u = Holding s \<and> IntentTypeSetsConflict (fst r) s" by metis
next
  assume "\<not> at_rest (threads e t)"
  then show "\<exists>u. \<not> at_rest (threads e u) \<and> moves n e u"
    using running_moves entry_reachable_ok [OF assms] by blast
qed

text \<open>A run in which thread 0 takes a strong write lock and thread 1 goes to sleep asking for a strong read lock.\<close>

definition strong_write :: IntentTypeSet where
  "strong_write = list_IntentTypeSet [kStrongWrite]"

definition strong_read :: IntentTypeSet where
  "strong_read = list_IntentTypeSet [kStrongRead]"

definition sleeping_entry :: LockedBatchEntry where
  "sleeping_entry = \<lparr>mutex = None, num_holding = 2 ^ 48, num_waiters = 1,
     threads = (\<lambda>_. Idle)(0 := Holding strong_write, 1 := LockSleep (strong_read, False) (2 ^ 48))\<rparr>"

lemma strong_tables: "add_of strong_write = 2 ^ 48" "conflicts_of strong_write AND 0 = 0"
  "conflicts_of strong_read AND 2 ^ 48 \<noteq> 0"
  by code_simp+

lemma entry_steps_sleeping:
  assumes "entry_reachable 2 e" and "e = fresh_entry"
  shows "entry_reachable 2 sleeping_entry"
proof -
  let ?w = "(strong_write, False)" and ?r = "(strong_read, False)"
  let ?e = "\<lambda>m h w p q. \<lparr>mutex = m, num_holding = h, num_waiters = w, threads = (\<lambda>_. Idle)(0 := p, 1 := q)\<rparr>"
  have idle [simp]: "(\<lambda>_. Idle)(0 := p, Suc 0 := Idle) = (\<lambda>_. Idle)(0 := p)" for p by auto
  have "entry_reachable 2 (?e None 0 0 (LockTry ?w 0) Idle)"
    using entry_reachable.step [OF assms(1) lock_call [of 0 2 e ?w]] assms(2) by (simp add: fresh_entry_def goto_def)
  from entry_reachable.step [OF this lock_free [of 0 2 _ ?w 0]]
  have "entry_reachable 2 (?e None 0 0 (LockCas ?w 0) Idle)" by (simp add: goto_def)
  from entry_reachable.step [OF this lock_exchange [of 0 2 _ ?w 0]]
  have "entry_reachable 2 (?e None (2 ^ 48) 0 (Holding strong_write) Idle)"
    by (simp add: goto_def strong_tables(1))
  from entry_reachable.step [OF this lock_call [of 1 2 _ ?r]]
  have "entry_reachable 2 (?e None (2 ^ 48) 0 (Holding strong_write) (LockTry ?r (2 ^ 48)))"
    by (simp add: goto_def fun_upd_twist)
  from entry_reachable.step [OF this lock_conflict [of 1 2 _ ?r "2 ^ 48"]]
  have "entry_reachable 2 (?e None (2 ^ 48) 0 (Holding strong_write) (LockAddWaiter ?r (2 ^ 48)))"
    using strong_tables(3) by (simp add: goto_def and.commute)
  from entry_reachable.step [OF this lock_add_waiter [of 1 2 _ ?r "2 ^ 48"]]
  have "entry_reachable 2 (?e None (2 ^ 48) 1 (Holding strong_write) (LockMutex ?r (2 ^ 48)))"
    by (simp add: goto_def)
  from entry_reachable.step [OF this lock_mutex [of 1 2 _ ?r "2 ^ 48"]]
  have "entry_reachable 2 (?e (Some 1) (2 ^ 48) 1 (Holding strong_write) (LockReload ?r (2 ^ 48)))"
    by (simp add: goto_def)
  from entry_reachable.step [OF this lock_reload_conflict [of 1 2 _ ?r "2 ^ 48"]]
  have "entry_reachable 2 (?e (Some 1) (2 ^ 48) 1 (Holding strong_write) (LockWait ?r (2 ^ 48)))"
    using strong_tables(3) by (simp add: goto_def and.commute)
  from entry_reachable.step [OF this lock_wait [of 1 2 _ ?r "2 ^ 48"]]
  show ?thesis by (simp add: goto_def sleeping_entry_def)
qed

lemmas sleeping_reachable = entry_steps_sleeping [OF entry_reachable.start refl]

theorem lock_mutual_exclusion_witness:
  "entry_reachable 2 sleeping_entry \<and>
   \<not> IntentTypeSetsConflict (held (threads sleeping_entry 0)) (held (threads sleeping_entry 1)) \<and>
   num_holding sleeping_entry = lock_word (holders 2 (threads sleeping_entry))"
  using lock_mutual_exclusion [OF sleeping_reachable] sleeping_reachable by simp

theorem lock_no_lost_wakeup_witness:
  "entry_reachable 2 sleeping_entry \<and>
   (\<exists>u s. threads sleeping_entry u = Holding s \<and> IntentTypeSetsConflict strong_read s)"
proof -
  have "\<forall>u. at_rest (threads sleeping_entry u)" "threads sleeping_entry 1 = LockSleep (strong_read, False) (2 ^ 48)"
    by (simp_all add: sleeping_entry_def)
  then show ?thesis using lock_no_lost_wakeup [OF sleeping_reachable] sleeping_reachable by fastforce
qed

end
