(* ===== verification/Lock_Batch.thy ===== *)
theory Lock_Batch imports Intent_Types "HOL-Library.Multiset" begin

text \<open>
  Batches of locks (\<^verbatim>\<open>docdb/lock_batch.cc\<close>) and the part of the shared lock manager that
  serves them (class \<^verbatim>\<open>Impl\<close> of \<^verbatim>\<open>docdb/shared_lock_manager.cc\<close>).

  The entries of the lock manager are numbered by their position in \<^verbatim>\<open>lock_entries_\<close>, and a
  pointer to an entry is that number. \<^verbatim>\<open>Reserve\<close> and \<^verbatim>\<open>Cleanup\<close> run under
  \<^verbatim>\<open>global_mutex_\<close>, so they are functions of the state of the manager. The calls of
  \<^verbatim>\<open>Lock\<close> on the entries of a batch depend on the other threads: their results are an
  argument (by position in the batch), and the calls made are recorded. The lemmas show that the
  reference counts are exact, that keys and entries correspond one to one, that no entry is lost
  and that a batch is locked completely or not at all.
\<close>

section \<open>Model\<close>

type_synonym RefCntPrefix = bytes

record LockBatchEntry =
  key :: RefCntPrefix
  intent_types :: IntentTypeSet
  locked :: "nat option"

record Impl =
  locks :: "RefCntPrefix \<rightharpoonup> nat"
  lock_entries :: "u64 list"
  free_lock_entries :: "nat list"

text \<open>The value that \<^verbatim>\<open>Reserve\<close> finds or makes for a key, with reference count not yet increased.\<close>

definition reserve_entry :: "Impl \<Rightarrow> RefCntPrefix \<Rightarrow> Impl \<times> nat" where
  "reserve_entry im k =
     (case locks im k of
        Some v \<Rightarrow> (im, v)
      | None \<Rightarrow>
          (if free_lock_entries im \<noteq> [] then
             let v = last (free_lock_entries im) in
             (im\<lparr>free_lock_entries := butlast (free_lock_entries im), locks := (locks im)(k \<mapsto> v)\<rparr>, v)
           else
             let v = length (lock_entries im) in
             (im\<lparr>lock_entries := lock_entries im @ [0], locks := (locks im)(k \<mapsto> v)\<rparr>, v)))"

primrec Reserve :: "Impl \<Rightarrow> LockBatchEntry list \<Rightarrow> Impl \<times> LockBatchEntry list" where
  "Reserve im [] = (im, [])"
| "Reserve im (item # batch) =
     (let (im1, v) = reserve_entry im (key item);
          im2 = im1\<lparr>lock_entries := (lock_entries im1)[v := lock_entries im1 ! v + 1]\<rparr>;
          (im3, batch1) = Reserve im2 batch
      in (im3, item\<lparr>locked := Some v\<rparr> # batch1))"

primrec Cleanup :: "Impl \<Rightarrow> LockBatchEntry list \<Rightarrow> Impl result" where
  "Cleanup im [] = Inr im"
| "Cleanup im (item # batch) =
     (case locked item of
        None \<Rightarrow> Inl Undefined
      | Some v \<Rightarrow>
          (if length (lock_entries im) \<le> v then Inl Undefined
           else
             let count = lock_entries im ! v - 1;
                 im1 = im\<lparr>lock_entries := (lock_entries im)[v := count]\<rparr>;
                 im2 = (if count = 0
                        then im1\<lparr>locks := (locks im1)(key item := None),
                                 free_lock_entries := free_lock_entries im1 @ [v]\<rparr>
                        else im1)
             in Cleanup im2 batch))"

text \<open>The calls made on the entries: a call of \<^verbatim>\<open>Lock\<close> with its result, a call of \<^verbatim>\<open>Unlock\<close>.\<close>

datatype entry_call = LockCall "nat option" IntentTypeSet bool | UnlockCall "nat option" IntentTypeSet

definition unlock_calls :: "LockBatchEntry list \<Rightarrow> entry_call list" where
  "unlock_calls batch = map (\<lambda>item. UnlockCall (locked item) (intent_types item)) (rev batch)"

fun lock_loop :: "(nat \<Rightarrow> bool) \<Rightarrow> LockBatchEntry list \<Rightarrow> LockBatchEntry list \<Rightarrow> entry_call list \<times> bool" where
  "lock_loop outcome before [] = ([], True)"
| "lock_loop outcome before (item # rest) =
     (if outcome (length before) then
        let (calls, ok) = lock_loop outcome (before @ [item]) rest
        in (LockCall (locked item) (intent_types item) True # calls, ok)
      else (LockCall (locked item) (intent_types item) False # unlock_calls before, False))"

definition Impl_Lock ::
    "(nat \<Rightarrow> bool) \<Rightarrow> Impl \<Rightarrow> LockBatchEntry list \<Rightarrow> (Impl \<times> LockBatchEntry list \<times> entry_call list \<times> bool) result" where
  "Impl_Lock outcome im batch =
     (let (im1, batch1) = Reserve im batch;
          (calls, ok) = lock_loop outcome [] batch1
      in if ok then Inr (im1, batch1, calls, True)
         else (case Cleanup im1 batch1 of
                 Inl e \<Rightarrow> Inl e
               | Inr im2 \<Rightarrow> Inr (im2, batch1, calls, False)))"

definition Impl_Unlock :: "Impl \<Rightarrow> LockBatchEntry list \<Rightarrow> (Impl \<times> entry_call list) result" where
  "Impl_Unlock im batch =
     (case Cleanup im batch of
        Inl e \<Rightarrow> Inl e
      | Inr im1 \<Rightarrow> Inr (im1, unlock_calls batch))"

text \<open>\<^verbatim>\<open>LockBatch\<close>: its entries, whether it refers to the lock manager, and its status.\<close>

record LockBatch =
  key_to_type :: "LockBatchEntry list"
  shared_lock_manager :: bool
  batch_status :: "status_code option"

definition LockBatch_default :: LockBatch where
  "LockBatch_default = \<lparr>key_to_type = [], shared_lock_manager = False, batch_status = None\<rparr>"

definition LockBatch_new ::
    "(nat \<Rightarrow> bool) \<Rightarrow> Impl \<Rightarrow> LockBatchEntry list \<Rightarrow> (Impl \<times> LockBatch \<times> entry_call list) result" where
  "LockBatch_new outcome im key_to_intent_type =
     (if key_to_intent_type = [] then
        Inr (im, \<lparr>key_to_type = [], shared_lock_manager = True, batch_status = None\<rparr>, [])
      else
        (case Impl_Lock outcome im key_to_intent_type of
           Inl e \<Rightarrow> Inl e
         | Inr (im1, batch, calls, ok) \<Rightarrow>
             (if ok then
                Inr (im1, \<lparr>key_to_type = batch, shared_lock_manager = True, batch_status = None\<rparr>, calls)
              else
                Inr (im1, \<lparr>key_to_type = [], shared_lock_manager = False, batch_status = Some TimedOut\<rparr>, calls))))"

definition LockBatch_Reset :: "Impl \<Rightarrow> LockBatch \<Rightarrow> (Impl \<times> LockBatch \<times> entry_call list) result" where
  "LockBatch_Reset im b =
     (if key_to_type b = [] then Inr (im, b, [])
      else if \<not> shared_lock_manager b then Inl Undefined
      else
        (case Impl_Unlock im (key_to_type b) of
           Inl e \<Rightarrow> Inl e
         | Inr (im1, calls) \<Rightarrow> Inr (im1, b\<lparr>key_to_type := []\<rparr>, calls)))"

text \<open>
  \<^verbatim>\<open>MoveFrom\<close> returns the batch moved to and the batch moved from, whose status is moved out and
  reads as OK.
\<close>

definition LockBatch_MoveFrom ::
    "Impl \<Rightarrow> LockBatch \<Rightarrow> LockBatch \<Rightarrow> (Impl \<times> LockBatch \<times> LockBatch \<times> entry_call list) result" where
  "LockBatch_MoveFrom im b other =
     (case LockBatch_Reset im b of
        Inl e \<Rightarrow> Inl e
      | Inr (im1, b1, calls) \<Rightarrow> Inr (im1, other, other\<lparr>key_to_type := [], batch_status := None\<rparr>, calls))"

section \<open>Reference counts\<close>

text \<open>
  The state of the manager against the multiset of the entries of batches that are reserved and
  not cleaned up: the counts are exact, every reserved entry is the one of its key, keys and
  entries correspond one to one, and the entries without references are the free ones.
\<close>

definition refs :: "LockBatchEntry multiset \<Rightarrow> nat \<Rightarrow> nat" where
  "refs out v = size (filter_mset (\<lambda>item. locked item = Some v) out)"

definition impl_ok :: "Impl \<Rightarrow> LockBatchEntry multiset \<Rightarrow> bool" where
  "impl_ok im out \<longleftrightarrow>
     (\<forall>v<length (lock_entries im). unat (lock_entries im ! v) = refs out v) \<and>
     (\<forall>item\<in>#out. locked item \<noteq> None \<and> locks im (key item) = locked item) \<and>
     (\<forall>k v. locks im k = Some v \<longrightarrow> v < length (lock_entries im) \<and> v \<notin> set (free_lock_entries im)) \<and>
     (\<forall>k k' v. locks im k = Some v \<longrightarrow> locks im k' = Some v \<longrightarrow> k = k') \<and>
     (\<forall>k v. locks im k = Some v \<longrightarrow> refs out v \<noteq> 0) \<and>
     (\<forall>v<length (lock_entries im). refs out v = 0 \<longrightarrow> v \<in> set (free_lock_entries im)) \<and>
     distinct (free_lock_entries im) \<and> set (free_lock_entries im) \<subseteq> {..<length (lock_entries im)}"

lemma refs_simps [simp]:
  "refs {#} v = 0"
  "refs (add_mset item out) v = refs out v + of_bool (locked item = Some v)"
  by (simp_all add: refs_def)

lemma refs_pos: "item \<in># out \<Longrightarrow> locked item = Some v \<Longrightarrow> refs out v \<noteq> 0"
  by (auto simp: refs_def)

lemma refs_le: "refs out v \<le> size out"
  unfolding refs_def by (rule size_filter_mset_lesseq)

lemma impl_okD:
  assumes "impl_ok im out"
  shows "v < length (lock_entries im) \<Longrightarrow> unat (lock_entries im ! v) = refs out v"
    and "item \<in># out \<Longrightarrow> \<exists>v. locked item = Some v \<and> locks im (key item) = Some v"
    and "locks im k = Some v \<Longrightarrow> v < length (lock_entries im)"
    and "locks im k = Some v \<Longrightarrow> v \<notin> set (free_lock_entries im)"
    and "locks im k = Some v \<Longrightarrow> locks im k' = Some v \<Longrightarrow> k = k'"
    and "locks im k = Some v \<Longrightarrow> refs out v \<noteq> 0"
    and "v < length (lock_entries im) \<Longrightarrow> refs out v = 0 \<Longrightarrow> v \<in> set (free_lock_entries im)"
    and "distinct (free_lock_entries im)"
    and "v \<in> set (free_lock_entries im) \<Longrightarrow> v < length (lock_entries im)"
  using assms unfolding impl_ok_def by (blast | metis not_None_eq)+

lemma refs_unreachable:
  assumes "impl_ok im out" and "\<And>k. locks im k \<noteq> Some v"
  shows "refs out v = 0"
proof -
  have "locked item \<noteq> Some v" if "item \<in># out" for item
    using impl_okD(2) [OF assms(1) that] assms(2) by fastforce
  then show ?thesis by (auto simp: refs_def filter_mset_eq_conv)
qed

text \<open>The state between the choice of an entry and the increase of its count.\<close>

lemma reserve_entry_ok:
  assumes ok: "impl_ok im out" and r: "reserve_entry im k = (im1, v)"
  shows "locks im1 = (locks im)(k \<mapsto> v)" and "v < length (lock_entries im1)"
    and "\<And>u. u < length (lock_entries im1) \<Longrightarrow> unat (lock_entries im1 ! u) = refs out u"
    and "distinct (free_lock_entries im1)"
    and "v \<notin> set (free_lock_entries im1)"
    and "set (free_lock_entries im1) \<subseteq> set (free_lock_entries im)"
    and "length (lock_entries im) \<le> length (lock_entries im1)"
    and "\<And>u. u < length (lock_entries im1) \<Longrightarrow> refs out u = 0 \<Longrightarrow> u \<noteq> v \<Longrightarrow> u \<in> set (free_lock_entries im1)"
    and "\<And>k'. locks im k' = Some v \<Longrightarrow> k' = k"
proof -
  note d = impl_okD [OF ok]
  consider (old) "locks im k = Some v" "im1 = im"
    | (free) "locks im k = None" "free_lock_entries im \<noteq> []" "v = last (free_lock_entries im)"
      "im1 = im\<lparr>free_lock_entries := butlast (free_lock_entries im), locks := (locks im)(k \<mapsto> v)\<rparr>"
    | (new) "locks im k = None" "free_lock_entries im = []" "v = length (lock_entries im)"
      "im1 = im\<lparr>lock_entries := lock_entries im @ [0], locks := (locks im)(k \<mapsto> v)\<rparr>"
    using r unfolding reserve_entry_def
    by (auto simp: Let_def split: option.splits if_splits)
  note cases = this
  have "locks im1 = (locks im)(k \<mapsto> v) \<and> v < length (lock_entries im1) \<and>
    (\<forall>u<length (lock_entries im1). unat (lock_entries im1 ! u) = refs out u) \<and>
    distinct (free_lock_entries im1) \<and> v \<notin> set (free_lock_entries im1) \<and>
    set (free_lock_entries im1) \<subseteq> set (free_lock_entries im) \<and>
    length (lock_entries im) \<le> length (lock_entries im1) \<and>
    (\<forall>u<length (lock_entries im1). refs out u = 0 \<longrightarrow> u \<noteq> v \<longrightarrow> u \<in> set (free_lock_entries im1)) \<and>
    (\<forall>k'. locks im k' = Some v \<longrightarrow> k' = k)"
    using cases
  proof cases
    case old
    then show ?thesis using d by auto
  next
    case free
    have fr: "free_lock_entries im = butlast (free_lock_entries im) @ [v]" using free(2,3) by simp
    have dist: "distinct (butlast (free_lock_entries im) @ [v])" using d(8) fr by simp
    have st: "set (free_lock_entries im) = insert v (set (butlast (free_lock_entries im)))"
      using arg_cong [OF fr, of set] by simp
    have "v < length (lock_entries im)" using d(9) st by blast
    then show ?thesis using free(4) dist st d(1,4,7) by (simp add: subset_insertI) blast
  next
    case new
    have no: "locks im k' \<noteq> Some v" for k' using d(3) new(3) by blast
    then have "refs out v = 0" using refs_unreachable [OF ok] by blast
    then show ?thesis using new no d(1,7) by (auto simp: nth_append less_Suc_eq)
  qed
  then show "locks im1 = (locks im)(k \<mapsto> v)" and "v < length (lock_entries im1)"
    and "\<And>u. u < length (lock_entries im1) \<Longrightarrow> unat (lock_entries im1 ! u) = refs out u"
    and "distinct (free_lock_entries im1)"
    and "v \<notin> set (free_lock_entries im1)"
    and "set (free_lock_entries im1) \<subseteq> set (free_lock_entries im)"
    and "length (lock_entries im) \<le> length (lock_entries im1)"
    and "\<And>u. u < length (lock_entries im1) \<Longrightarrow> refs out u = 0 \<Longrightarrow> u \<noteq> v \<Longrightarrow> u \<in> set (free_lock_entries im1)"
    and "\<And>k'. locks im k' = Some v \<Longrightarrow> k' = k"
    by blast+
qed

lemma unat_suc: "unat (w :: u64) < 2 ^ 64 - 1 \<Longrightarrow> unat (w + 1) = Suc (unat w)"
  by (simp add: unat_word_ariths)

lemma unat_pred: "unat (w :: u64) \<noteq> 0 \<Longrightarrow> unat (w - 1) = unat w - 1"
  by (metis Suc_pred' diff_Suc_1 gr0I unat_0 unat_minus_one)

lemma reserve_count_ok:
  assumes ok: "impl_ok im out" and r: "reserve_entry im (key item) = (im1, v)" and sz: "size out < 2 ^ 64 - 1"
  shows "impl_ok (im1\<lparr>lock_entries := (lock_entries im1)[v := lock_entries im1 ! v + 1]\<rparr>)
    (add_mset (item\<lparr>locked := Some v\<rparr>) out)"
proof -
  note d = impl_okD [OF ok] and e = reserve_entry_ok [OF ok r]
  have "refs out v < 2 ^ 64 - 1" using refs_le [of out v] sz by linarith
  then have count: "unat (lock_entries im1 ! v + 1) = Suc (refs out v)" using e(2,3) unat_suc by simp
  have same: "w = v" if "locks im (key item) = Some w" for w
    using r that by (simp add: reserve_entry_def)
  have items: "locked x \<noteq> None \<and> locks im1 (key x) = locked x" if "x \<in># out" for x
    using d(2) [OF that] e(1) same by auto
  have lk: "locks im1 k = Some u \<longleftrightarrow> (if k = key item then u = v else locks im k = Some u)" for k u
    using e(1) by auto
  have ent: "unat ((lock_entries im1)[v := lock_entries im1 ! v + 1] ! u) = refs out u + of_bool (v = u)"
    if "u < length (lock_entries im1)" for u
    using count e(3) [OF that] that by (cases "u = v") auto
  define im2 where "im2 = im1\<lparr>lock_entries := (lock_entries im1)[v := lock_entries im1 ! v + 1]\<rparr>"
  have sel: "locks im2 = locks im1" "free_lock_entries im2 = free_lock_entries im1"
    "lock_entries im2 = (lock_entries im1)[v := lock_entries im1 ! v + 1]" by (simp_all add: im2_def)
  show ?thesis
    unfolding impl_ok_def im2_def [symmetric] sel length_list_update
  proof (intro conjI allI impI ballI)
    fix k u assume "locks im1 k = Some u"
    then have k: "u = v \<or> locks im k = Some u" unfolding lk by (simp split: if_splits)
    show "u < length (lock_entries im1)" using k e(2,7) d(3) by (meson order_less_le_trans)
    show "u \<notin> set (free_lock_entries im1)" using k e(5,6) d(4) by blast
    show "refs (add_mset (item\<lparr>locked := Some v\<rparr>) out) u \<noteq> 0" using k d(6) by fastforce
  next
    fix k k' u assume "locks im1 k = Some u" and "locks im1 k' = Some u"
    then show "k = k'" unfolding lk using e(9) d(5) by (metis (full_types))
  next
    show "set (free_lock_entries im1) \<subseteq> {..<length (lock_entries im1)}"
      using e(6,7) d(9) by (meson lessThan_iff order_less_le_trans subset_iff)
  next
    fix x assume "x \<in># add_mset (item\<lparr>locked := Some v\<rparr>) out"
    then consider "x = item\<lparr>locked := Some v\<rparr>" | "x \<in># out" by auto
    then show "locked x \<noteq> None" "locks im1 (key x) = locked x" using items e(1) by (cases; simp)+
  next
    fix u assume "u < length (lock_entries im1)" "refs (add_mset (item\<lparr>locked := Some v\<rparr>) out) u = 0"
    then show "u \<in> set (free_lock_entries im1)" using e(8) [of u] by (simp split: if_splits)
  qed (use ent e(4) in simp_all)
qed

lemma Reserve_ok:
  assumes "impl_ok im out" and "size out + length batch < 2 ^ 64" and "Reserve im batch = (im', batch')"
  shows "impl_ok im' (out + mset batch') \<and> map (\<lambda>x. (key x, intent_types x)) batch' = map (\<lambda>x. (key x, intent_types x)) batch"
  using assms
proof (induction batch arbitrary: im out im' batch')
  case (Cons item batch)
  obtain im1 v where r: "reserve_entry im (key item) = (im1, v)" by fastforce
  let ?im = "im1\<lparr>lock_entries := (lock_entries im1)[v := lock_entries im1 ! v + 1]\<rparr>"
  obtain b where b: "Reserve ?im batch = (im', b)" and batch': "batch' = item\<lparr>locked := Some v\<rparr> # b"
    using Cons.prems(3) by (auto simp: r split: prod.splits)
  have "impl_ok ?im (add_mset (item\<lparr>locked := Some v\<rparr>) out)"
    using reserve_count_ok [OF Cons.prems(1) r] Cons.prems(2) by simp
  from Cons.IH [OF this _ b] Cons.prems(2) show ?case by (simp add: batch')
qed simp

lemma cleanup_entry_ok:
  assumes ok: "impl_ok im (add_mset item out)" and v: "locked item = Some v"
    and im': "im' = (let count = lock_entries im ! v - 1; im1 = im\<lparr>lock_entries := (lock_entries im)[v := count]\<rparr>
      in if count = 0 then im1\<lparr>locks := (locks im1)(key item := None), free_lock_entries := free_lock_entries im1 @ [v]\<rparr>
         else im1)"
  shows "impl_ok im' out" and "v < length (lock_entries im)"
proof -
  note d = impl_okD [OF ok]
  have lk: "locks im (key item) = Some v" using d(2) [of item] v by auto
  then show len: "v < length (lock_entries im)" using d(3) by blast
  have count: "unat (lock_entries im ! v - 1) = refs out v" using unat_pred d(1) [OF len] v by simp
  then have zero: "lock_entries im ! v - 1 = 0 \<longleftrightarrow> refs out v = 0" by (metis unat_0 unat_eq_0)
  have ent: "unat ((lock_entries im)[v := lock_entries im ! v - 1] ! u) = refs out u" if "u < length (lock_entries im)" for u
    using that count d(1) [OF that] v by (cases "u = v") auto
  have items: "locked x \<noteq> None \<and> locks im (key x) = locked x" if "x \<in># out" for x
    using d(2) [of x] that by auto
  have away: "key x \<noteq> key item" if "x \<in># out" "refs out v = 0" for x
    using items [OF that(1)] refs_pos [OF that(1), of v] that(2) lk by auto
  have other: "u \<noteq> v" if "locks im k = Some u" "k \<noteq> key item" for k u using d(5) [OF that(1)] lk that(2) by blast
  have some: "refs out u \<noteq> 0" if "locks im k = Some u" "u \<noteq> v" for k u using d(6) [OF that(1)] that(2) v by simp
  have free: "u = v \<or> u \<in> set (free_lock_entries im)" if "u < length (lock_entries im)" "refs out u = 0" for u
    using d(7) [OF that(1)] that(2) v by auto
  have lks: "locks im' k = Some u \<longleftrightarrow> locks im k = Some u \<and> \<not> (k = key item \<and> refs out v = 0)" for k u
    unfolding im' Let_def using zero by simp
  have fr: "free_lock_entries im' = (if refs out v = 0 then free_lock_entries im @ [v] else free_lock_entries im)"
    and en: "lock_entries im' = (lock_entries im)[v := lock_entries im ! v - 1]"
    unfolding im' Let_def using zero by simp_all
  show "impl_ok im' out"
    unfolding impl_ok_def en length_list_update
  proof (intro conjI allI impI ballI)
    fix x assume x: "x \<in># out"
    then obtain u where "locked x = Some u" "locks im (key x) = Some u" using items by fastforce
    then show "locked x \<noteq> None" "locks im' (key x) = locked x" using lks [of "key x" u] away [OF x] by auto
  next
    fix k u assume "locks im' k = Some u"
    then have k: "locks im k = Some u" "k = key item \<Longrightarrow> refs out v \<noteq> 0" unfolding lks by auto
    show "u < length (lock_entries im)" using d(3) [OF k(1)] .
    show "u \<notin> set (free_lock_entries im')" using d(4) [OF k(1)] other [OF k(1)] k(2) fr by (cases "k = key item") auto
    show "refs out u \<noteq> 0" using some [OF k(1)] other [OF k(1)] k(2) by metis
  next
    fix k k' u assume "locks im' k = Some u" "locks im' k' = Some u"
    then show "k = k'" unfolding lks using d(5) by blast
  next
    fix u assume u: "u < length (lock_entries im)" "refs out u = 0"
    then show "u \<in> set (free_lock_entries im')" using free [OF u] fr by auto
  next
    show "distinct (free_lock_entries im')" using d(8) d(4) [OF lk] fr by simp
    show "set (free_lock_entries im') \<subseteq> {..<length (lock_entries im)}" using d(9) len fr by auto
  qed (use ent in blast)
qed

lemma Cleanup_ok:
  "impl_ok im (mset batch + out) \<Longrightarrow> \<exists>im'. Cleanup im batch = Inr im' \<and> impl_ok im' out"
proof (induction batch arbitrary: im)
  case (Cons item batch)
  have ok: "impl_ok im (add_mset item (mset batch + out))" using Cons.prems by simp
  then obtain v where v: "locked item = Some v" using impl_okD(2) [OF ok, of item] by auto
  show ?case
    using cleanup_entry_ok [OF ok v refl] Cons.IH v by (simp add: Let_def)
qed simp

section \<open>Whole batches\<close>

text \<open>What is held on the entries after a sequence of calls; a call of \<^verbatim>\<open>Lock\<close> that failed took nothing.\<close>

fun granted :: "(nat option \<times> IntentTypeSet) multiset \<Rightarrow> entry_call list \<Rightarrow> (nat option \<times> IntentTypeSet) multiset" where
  "granted held [] = held"
| "granted held (LockCall v s ok # calls) = granted (if ok then add_mset (v, s) held else held) calls"
| "granted held (UnlockCall v s # calls) = granted (held - {#(v, s)#}) calls"

abbreviation locks_of :: "LockBatchEntry list \<Rightarrow> (nat option \<times> IntentTypeSet) multiset" where
  "locks_of batch \<equiv> image_mset (\<lambda>item. (locked item, intent_types item)) (mset batch)"

lemma granted_unlock: "granted (locks_of batch + held) (unlock_calls batch) = held"
proof -
  have "granted (locks_of b + held) (map (\<lambda>item. UnlockCall (locked item) (intent_types item)) b) = held" for b
    by (induction b) auto
  from this [of "rev batch"] show ?thesis by (simp add: unlock_calls_def)
qed

lemma lock_loop_granted:
  "lock_loop outcome before batch = (calls, ok) \<Longrightarrow>
    granted (locks_of before + held) calls = (if ok then locks_of (before @ batch) + held else held)"
proof (induction batch arbitrary: before calls)
  case (Cons item batch)
  then show ?case
    using Cons.IH [of "before @ [item]"] granted_unlock [of before held]
    by (auto split: if_splits prod.splits)
qed simp

lemma lock_loop_ok: "snd (lock_loop outcome before batch) \<longleftrightarrow>
    (\<forall>i<length batch. outcome (length before + i))"
proof (induction batch arbitrary: before)
  case (Cons item batch)
  obtain calls ok where l: "lock_loop outcome (before @ [item]) batch = (calls, ok)" by (rule prod.exhaust)
  then show ?case using Cons.IH [of "before @ [item]"] by (simp add: All_less_Suc2)
qed simp

lemma Impl_Lock_ok:
  assumes "impl_ok im out" and "size out + length batch < 2 ^ 64"
  shows "\<exists>im' batch' calls ok. Impl_Lock outcome im batch = Inr (im', batch', calls, ok) \<and>
    (ok \<longleftrightarrow> (\<forall>i<length batch. outcome i)) \<and>
    impl_ok im' (if ok then mset batch' + out else out) \<and>
    granted held calls = (if ok then locks_of batch' + held else held) \<and>
    map (\<lambda>x. (key x, intent_types x)) batch' = map (\<lambda>x. (key x, intent_types x)) batch"
proof -
  obtain im1 b where r: "Reserve im batch = (im1, b)" by (rule prod.exhaust)
  obtain calls ok where l: "lock_loop outcome [] b = (calls, ok)" by (rule prod.exhaust)
  note R = Reserve_ok [OF assms r]
  then have len: "length b = length batch" by (blast dest: map_eq_imp_length_eq)
  have ok: "ok \<longleftrightarrow> (\<forall>i<length batch. outcome i)" using lock_loop_ok [of outcome "[]" b] l len by simp
  have gr: "granted held calls = (if ok then locks_of b + held else held)"
    using lock_loop_granted [OF l, of held] by simp
  show ?thesis
  proof (cases ok)
    case True
    then have "Impl_Lock outcome im batch = Inr (im1, b, calls, True)" using r l by (simp add: Impl_Lock_def)
    then show ?thesis using True R ok gr
      by (intro exI [of _ im1] exI [of _ b] exI [of _ calls] exI [of _ True] conjI) (simp_all add: add.commute)
  next
    case False
    obtain im2 where "Cleanup im1 b = Inr im2" "impl_ok im2 out"
      using Cleanup_ok [of im1 b out] R by (auto simp: add.commute)
    moreover from this have "Impl_Lock outcome im batch = Inr (im2, b, calls, False)"
      using False r l by (simp add: Impl_Lock_def)
    moreover have "granted held calls = held" using gr False by (simp only: if_False)
    moreover have "\<not> (\<forall>i<length batch. outcome i)" using ok False by blast
    ultimately show ?thesis using R
      by (intro exI [of _ im2] exI [of _ b] exI [of _ calls] exI [of _ False] conjI) simp_all
  qed
qed

lemma Impl_Unlock_ok:
  assumes "impl_ok im (mset batch + out)"
  shows "\<exists>im' calls. Impl_Unlock im batch = Inr (im', calls) \<and> impl_ok im' out \<and>
    granted (locks_of batch + held) calls = held"
  using Cleanup_ok [OF assms] granted_unlock [of batch held] by (auto simp: Impl_Unlock_def)

text \<open>
  A state of the program: the lock manager, the batches that exist, what is held on the entries.
  Batches are created, moved onto one another and reset, in any order.
\<close>

definition batches_ok :: "Impl \<Rightarrow> LockBatch list \<Rightarrow> (nat option \<times> IntentTypeSet) multiset \<Rightarrow> bool" where
  "batches_ok im bs held \<longleftrightarrow>
     impl_ok im (mset (concat (map key_to_type bs))) \<and>
     held = locks_of (concat (map key_to_type bs)) \<and>
     (\<forall>b\<in>set bs. key_to_type b \<noteq> [] \<longrightarrow> shared_lock_manager b)"

inductive batch_step ::
    "Impl \<times> LockBatch list \<times> (nat option \<times> IntentTypeSet) multiset \<Rightarrow>
     Impl \<times> LockBatch list \<times> (nat option \<times> IntentTypeSet) multiset \<Rightarrow> bool" where
  batch_default: "batch_step (im, bs, held) (im, LockBatch_default # bs, held)"
| batch_new: "length (concat (map key_to_type bs)) + length entries < 2 ^ 64 \<Longrightarrow>
    LockBatch_new outcome im entries = Inr (im', b, calls) \<Longrightarrow>
    batch_step (im, bs, held) (im', b # bs, granted held calls)"
| batch_reset: "i < length bs \<Longrightarrow> LockBatch_Reset im (bs ! i) = Inr (im', b, calls) \<Longrightarrow>
    batch_step (im, bs, held) (im', bs[i := b], granted held calls)"
| batch_move: "i < length bs \<Longrightarrow> j < length bs \<Longrightarrow> i \<noteq> j \<Longrightarrow>
    LockBatch_MoveFrom im (bs ! i) (bs ! j) = Inr (im', b, c, calls) \<Longrightarrow>
    batch_step (im, bs, held) (im', bs[i := b, j := c], granted held calls)"
| batch_destroy: "i < length bs \<Longrightarrow> LockBatch_Reset im (bs ! i) = Inr (im', b, calls) \<Longrightarrow>
    batch_step (im, bs, held) (im', take i bs @ drop (Suc i) bs, granted held calls)"

definition fresh_impl :: Impl where
  "fresh_impl = \<lparr>locks = (\<lambda>_. None), lock_entries = [], free_lock_entries = []\<rparr>"

inductive batches_reachable ::
    "Impl \<times> LockBatch list \<times> (nat option \<times> IntentTypeSet) multiset \<Rightarrow> bool" where
  start: "batches_reachable (fresh_impl, [], {#})"
| step: "batches_reachable s \<Longrightarrow> batch_step s s' \<Longrightarrow> batches_reachable s'"

abbreviation all_entries :: "LockBatch list \<Rightarrow> LockBatchEntry list" where
  "all_entries bs \<equiv> concat (map key_to_type bs)"

lemma all_entries_split:
  assumes "i < length bs"
  shows "mset (all_entries bs) = mset (key_to_type (bs ! i)) + mset (all_entries (take i bs @ drop (Suc i) bs))"
    and "mset (all_entries (bs[i := b])) = mset (key_to_type b) + mset (all_entries (take i bs @ drop (Suc i) bs))"
proof -
  have one: "mset (all_entries (xs @ x # ys)) = mset (key_to_type x) + mset (all_entries (xs @ ys))" for xs x ys
    by simp
  show "mset (all_entries bs) = mset (key_to_type (bs ! i)) + mset (all_entries (take i bs @ drop (Suc i) bs))"
    using one [of "take i bs" "bs ! i" "drop (Suc i) bs"] id_take_nth_drop [OF assms] by simp
  show "mset (all_entries (bs[i := b])) = mset (key_to_type b) + mset (all_entries (take i bs @ drop (Suc i) bs))"
    using one [of "take i bs" b "drop (Suc i) bs"] upd_conv_take_nth_drop [OF assms, of b] by simp
qed

lemma LockBatch_Reset_ok:
  assumes "impl_ok im (mset (key_to_type b) + out)" and "key_to_type b \<noteq> [] \<longrightarrow> shared_lock_manager b"
  shows "\<exists>im' calls. LockBatch_Reset im b = Inr (im', b\<lparr>key_to_type := []\<rparr>, calls) \<and> impl_ok im' out \<and>
    granted (locks_of (key_to_type b) + held) calls = held"
proof (cases "key_to_type b = []")
  case True
  then have "b\<lparr>key_to_type := []\<rparr> = b" by simp
  then show ?thesis using True assms(1) by (simp add: LockBatch_Reset_def)
next
  case False
  then show ?thesis using assms Impl_Unlock_ok [OF assms(1), of held] by (auto simp: LockBatch_Reset_def)
qed

lemma LockBatch_new_ok:
  assumes "impl_ok im out" and "size out + length entries < 2 ^ 64"
  shows "\<exists>im' b calls. LockBatch_new outcome im entries = Inr (im', b, calls) \<and>
    impl_ok im' (mset (key_to_type b) + out) \<and>
    granted held calls = locks_of (key_to_type b) + held \<and>
    (key_to_type b \<noteq> [] \<longrightarrow> shared_lock_manager b) \<and>
    (if \<forall>i<length entries. outcome i
     then batch_status b = None \<and> map (\<lambda>x. (key x, intent_types x)) (key_to_type b) = map (\<lambda>x. (key x, intent_types x)) entries
     else batch_status b = Some TimedOut \<and> key_to_type b = [])"
proof (cases "entries = []")
  case True
  then show ?thesis using assms(1) by (simp add: LockBatch_new_def)
next
  case False
  obtain im' batch calls ok where L: "Impl_Lock outcome im entries = Inr (im', batch, calls, ok)"
    "ok \<longleftrightarrow> (\<forall>i<length entries. outcome i)" "impl_ok im' (if ok then mset batch + out else out)"
    "granted held calls = (if ok then locks_of batch + held else held)"
    "map (\<lambda>x. (key x, intent_types x)) batch = map (\<lambda>x. (key x, intent_types x)) entries"
    using Impl_Lock_ok [OF assms, of outcome held] by blast
  show ?thesis
  proof (cases ok)
    case True
    then have "LockBatch_new outcome im entries =
      Inr (im', \<lparr>key_to_type = batch, shared_lock_manager = True, batch_status = None\<rparr>, calls)"
      using False L(1) by (simp add: LockBatch_new_def)
    moreover have "\<forall>i<length entries. outcome i" using True L(2) by blast
    ultimately show ?thesis using True L(3-5)
      by (intro exI [of _ im'] exI [of _ "\<lparr>key_to_type = batch, shared_lock_manager = True, batch_status = None\<rparr>"]
          exI [of _ calls] conjI) simp_all
  next
    case F: False
    then have "LockBatch_new outcome im entries =
      Inr (im', \<lparr>key_to_type = [], shared_lock_manager = False, batch_status = Some TimedOut\<rparr>, calls)"
      using False L(1) by (simp add: LockBatch_new_def)
    moreover have "\<not> (\<forall>i<length entries. outcome i)" using F L(2) by blast
    ultimately show ?thesis using F L(3-5)
      by (intro exI [of _ im'] exI [of _ "\<lparr>key_to_type = [], shared_lock_manager = False, batch_status = Some TimedOut\<rparr>"]
          exI [of _ calls] conjI) simp_all
  qed
qed

lemma batches_ok_reset:
  assumes ok: "batches_ok im bs held" and i: "i < length bs" and r: "LockBatch_Reset im (bs ! i) = Inr (im', b, calls)"
  shows "batches_ok im' (bs[i := b]) (granted held calls)"
    and "batches_ok im' (take i bs @ drop (Suc i) bs) (granted held calls)"
    and "key_to_type b = []"
proof -
  let ?rest = "take i bs @ drop (Suc i) bs"
  have io: "impl_ok im (mset (key_to_type (bs ! i)) + mset (all_entries ?rest))"
    using ok all_entries_split(1) [OF i] by (simp only: batches_ok_def)
  have sh: "key_to_type (bs ! i) \<noteq> [] \<longrightarrow> shared_lock_manager (bs ! i)"
    using ok i unfolding batches_ok_def by (meson nth_mem)
  have h: "held = locks_of (key_to_type (bs ! i)) + locks_of (all_entries ?rest)"
    using ok all_entries_split(1) [OF i] by (simp only: batches_ok_def image_mset_union)
  from LockBatch_Reset_ok [OF io sh, of "locks_of (all_entries ?rest)"] r
  have res: "impl_ok im' (mset (all_entries ?rest))" "granted held calls = locks_of (all_entries ?rest)"
    "b = (bs ! i)\<lparr>key_to_type := []\<rparr>" unfolding h by auto
  show b: "key_to_type b = []" using res(3) by simp
  have shared: "\<forall>x\<in>set bs. key_to_type x \<noteq> [] \<longrightarrow> shared_lock_manager x" using ok by (simp add: batches_ok_def)
  show "batches_ok im' ?rest (granted held calls)"
    using res shared by (auto simp: batches_ok_def dest: in_set_takeD in_set_dropD)
  show "batches_ok im' (bs[i := b]) (granted held calls)"
    using res(1,2) shared b all_entries_split(2) [OF i, of b] set_update_subset_insert [of bs i b]
    by (auto simp: batches_ok_def)
qed

lemma all_entries_move:
  assumes "i < length bs" "j < length bs" "i \<noteq> j" and "key_to_type b = []" and "key_to_type c = []"
  shows "mset (all_entries (bs[i := bs ! j, j := c])) = mset (all_entries (bs[i := b]))"
proof -
  let ?bs = "bs[i := b, j := c]"
  have 1: "mset (all_entries ?bs) + mset (key_to_type (bs ! j)) = mset (all_entries (bs[i := b]))"
    using all_entries_split(1) [of j "bs[i := b]"] all_entries_split(2) [of j "bs[i := b]" c] assms by simp
  have 2: "mset (all_entries (?bs[i := bs ! j])) = mset (key_to_type (bs ! j)) + mset (all_entries ?bs)"
    using all_entries_split(1) [of i ?bs] all_entries_split(2) [of i ?bs "bs ! j"] assms by simp
  have "?bs[i := bs ! j] = bs[i := bs ! j, j := c]" using assms(3) by (metis list_update_overwrite list_update_swap)
  then show ?thesis using 1 2 by (simp add: union_commute)
qed

lemma batches_ok_move:
  assumes ok: "batches_ok im bs held" and ij: "i < length bs" "j < length bs" "i \<noteq> j"
    and m: "LockBatch_MoveFrom im (bs ! i) (bs ! j) = Inr (im', b, c, calls)"
  shows "batches_ok im' (bs[i := b, j := c]) (granted held calls)"
proof -
  obtain b1 where r: "LockBatch_Reset im (bs ! i) = Inr (im', b1, calls)"
    and bc: "b = bs ! j" "c = (bs ! j)\<lparr>key_to_type := [], batch_status := None\<rparr>"
    using m by (auto simp: LockBatch_MoveFrom_def split: sum.splits)
  note R = batches_ok_reset [OF ok ij(1) r]
  have same: "mset (all_entries (bs[i := b, j := c])) = mset (all_entries (bs[i := b1]))"
    using all_entries_move [OF ij R(3)] bc by simp
  have "shared_lock_manager x" if "x \<in> set (bs[i := b, j := c])" "key_to_type x \<noteq> []" for x
  proof -
    have "x = c \<or> x = b \<or> x \<in> set bs"
      using that(1) set_update_subset_insert [of "bs[i := b]" j c] set_update_subset_insert [of bs i b] by blast
    then have "x \<in> set bs" using that(2) bc ij(2) by auto
    then show ?thesis using ok that(2) by (simp add: batches_ok_def)
  qed
  then show ?thesis using R(1) unfolding batches_ok_def same by blast
qed

lemma batches_ok_new:
  assumes ok: "batches_ok im bs held" and len: "length (all_entries bs) + length entries < 2 ^ 64"
    and n: "LockBatch_new outcome im entries = Inr (im', b, calls)"
  shows "batches_ok im' (b # bs) (granted held calls)"
proof -
  have io: "impl_ok im (mset (all_entries bs))" and h: "held = locks_of (all_entries bs)"
    and sh: "\<forall>b\<in>set bs. key_to_type b \<noteq> [] \<longrightarrow> shared_lock_manager b"
    using ok by (simp_all add: batches_ok_def)
  have "size (mset (all_entries bs)) + length entries < 2 ^ 64" using len by simp
  from LockBatch_new_ok [OF io this, of outcome held] n
  have "impl_ok im' (mset (key_to_type b) + mset (all_entries bs))"
    "granted held calls = locks_of (key_to_type b) + held" "key_to_type b \<noteq> [] \<longrightarrow> shared_lock_manager b"
    by auto
  then show ?thesis using sh h by (simp add: batches_ok_def)
qed

lemma batch_step_ok:
  "batch_step s s' \<Longrightarrow> (case s of (im, bs, held) \<Rightarrow> batches_ok im bs held) \<Longrightarrow>
    (case s' of (im, bs, held) \<Rightarrow> batches_ok im bs held)"
proof (induction rule: batch_step.induct)
  case (batch_default im bs held)
  then show ?case by (simp add: batches_ok_def LockBatch_default_def)
next
  case (batch_new bs entries outcome im im' b calls held)
  then show ?case using batches_ok_new by simp
next
  case (batch_reset i bs im im' b calls held)
  then show ?case using batches_ok_reset(1) by simp
next
  case (batch_move i bs j im im' b c calls held)
  then show ?case using batches_ok_move by simp
next
  case (batch_destroy i bs im im' b calls held)
  then show ?case using batches_ok_reset(2) by simp
qed

lemma batches_reachable_ok: "batches_reachable (im, bs, held) \<Longrightarrow> batches_ok im bs held"
proof -
  have "batches_reachable s \<Longrightarrow> (case s of (im, bs, held) \<Rightarrow> batches_ok im bs held)" for s
  proof (induction rule: batches_reachable.induct)
    case start
    then show ?case by (simp add: batches_ok_def impl_ok_def fresh_impl_def)
  next
    case (step s s')
    then show ?case using batch_step_ok by blast
  qed
  then show "batches_reachable (im, bs, held) \<Longrightarrow> batches_ok im bs held" by fastforce
qed

section \<open>Properties\<close>

text \<open>
  C13: however batches are created, moved, reset and destroyed, the reference count of every entry
  of the lock manager is the number of batch entries that point to it; two batch entries share an
  entry of the manager exactly when they have the same key; the locks held are those of the
  batches that exist; and when no batch holds a lock the map of the manager is empty, so the check
  in its destructor passes.
\<close>

theorem lock_manager_refcounts:
  assumes "batches_reachable (im, bs, held)"
  shows "(\<forall>v<length (lock_entries im). unat (lock_entries im ! v) = refs (mset (all_entries bs)) v) \<and>
    (\<forall>x\<in>set (all_entries bs). \<forall>y\<in>set (all_entries bs). locked x = locked y \<longleftrightarrow> key x = key y) \<and>
    held = locks_of (all_entries bs) \<and>
    (all_entries bs = [] \<longrightarrow> locks im = (\<lambda>_. None))"
proof (intro conjI)
  have ok: "impl_ok im (mset (all_entries bs))" and h: "held = locks_of (all_entries bs)"
    using batches_reachable_ok [OF assms] by (simp_all add: batches_ok_def)
  note d = impl_okD [OF ok]
  show "\<forall>v<length (lock_entries im). unat (lock_entries im ! v) = refs (mset (all_entries bs)) v"
    using d(1) by blast
  show "\<forall>x\<in>set (all_entries bs). \<forall>y\<in>set (all_entries bs). locked x = locked y \<longleftrightarrow> key x = key y"
  proof (intro ballI)
    fix x y assume "x \<in> set (all_entries bs)" "y \<in> set (all_entries bs)"
    then obtain v w where "locked x = Some v" "locks im (key x) = Some v" "locked y = Some w" "locks im (key y) = Some w"
      using d(2) by (metis set_mset_mset)
    then show "locked x = locked y \<longleftrightarrow> key x = key y" using d(5) by auto
  qed
  show "held = locks_of (all_entries bs)" by (rule h)
  show "all_entries bs = [] \<longrightarrow> locks im = (\<lambda>_. None)"
  proof
    assume "all_entries bs = []"
    then have "refs (mset (all_entries bs)) v = 0" for v by (simp only: mset.simps refs_simps)
    then have "locks im k = None" for k using d(6) by (metis not_None_eq)
    then show "locks im = (\<lambda>_. None)" by blast
  qed
qed

text \<open>
  C14: a batch is locked completely or not at all. When every entry can be locked in time the new
  batch holds exactly the locks asked for, with status OK; otherwise it holds none, what was held
  before is held still, the locks taken on the way have been given back and the status is
  \<^verbatim>\<open>TimedOut\<close>. The constructor never fails in another way.
\<close>

theorem lock_batch_all_or_nothing:
  assumes "batches_reachable (im, bs, held)" and "length (all_entries bs) + length entries < 2 ^ 64"
  shows "\<exists>im' b calls. LockBatch_new outcome im entries = Inr (im', b, calls) \<and>
    granted held calls = locks_of (key_to_type b) + held \<and>
    (if \<forall>i<length entries. outcome i
     then batch_status b = None \<and>
       map (\<lambda>x. (key x, intent_types x)) (key_to_type b) = map (\<lambda>x. (key x, intent_types x)) entries
     else batch_status b = Some TimedOut \<and> key_to_type b = [])"
proof -
  have ok: "impl_ok im (mset (all_entries bs))"
    using batches_reachable_ok [OF assms(1)] by (simp add: batches_ok_def)
  have "size (mset (all_entries bs)) + length entries < 2 ^ 64" using assms(2) by simp
  from LockBatch_new_ok [OF ok this, of outcome held] show ?thesis by blast
qed

text \<open>Two keys asked for, of which the second times out.\<close>

definition two_keys :: "LockBatchEntry list" where
  "two_keys =
     [\<lparr>key = [97], intent_types = 1, locked = None\<rparr>, \<lparr>key = [98], intent_types = 8, locked = None\<rparr>]"

theorem lock_batch_all_or_nothing_witness:
  "\<exists>im' b calls. LockBatch_new (\<lambda>i. i = 0) fresh_impl two_keys = Inr (im', b, calls) \<and>
    granted {#} calls = {#} \<and> batch_status b = Some TimedOut"
proof -
  have no: "\<not> (\<forall>i<length two_keys. i = 0)" by (auto simp: two_keys_def)
  have len: "length (all_entries []) + length two_keys < 2 ^ 64" by (simp add: two_keys_def)
  show ?thesis
    using lock_batch_all_or_nothing [OF batches_reachable.start len, of "\<lambda>i. i = 0"]
    unfolding if_not_P [OF no] by auto
qed

definition one_batch :: "LockBatch list" where
  "one_batch = [\<lparr>key_to_type = [\<lparr>key = [97], intent_types = 1, locked = Some 0\<rparr>],
     shared_lock_manager = True, batch_status = None\<rparr>]"

theorem lock_manager_refcounts_witness:
  "\<exists>im held. batches_reachable (im, one_batch, held) \<and>
    unat (lock_entries im ! 0) = refs (mset (all_entries one_batch)) 0 \<and> lock_entries im = [1]"
proof -
  let ?im = "\<lparr>locks = (\<lambda>_. None)([97] \<mapsto> 0), lock_entries = [1], free_lock_entries = []\<rparr>"
  have "batch_step (fresh_impl, [], {#}) (?im, [hd one_batch], granted {#} [LockCall (Some 0) 1 True])"
    by (rule batch_new [of "[]" "[\<lparr>key = [97], intent_types = 1, locked = None\<rparr>]" "\<lambda>_. True"])
      (simp_all add: LockBatch_new_def Impl_Lock_def reserve_entry_def fresh_impl_def one_batch_def Let_def)
  then have "batches_reachable (?im, one_batch, {#(Some 0, 1)#})"
    using batches_reachable.step [OF batches_reachable.start] by (simp add: one_batch_def)
  then show ?thesis using lock_manager_refcounts by fastforce
qed

end
