(* ===== verification/Op_Id.thy ===== *)
theory Op_Id
  imports Prelude
begin

text \<open>
  Identifiers of the operations of a Raft log: \<^verbatim>\<open>src/src/yb/util/opid.h\<close>,
  \<^verbatim>\<open>src/src/yb/util/opid.cc\<close> (the C++ type) and \<^verbatim>\<open>src/src/yb/consensus/opid_util.cc\<close> (the
  protocol message). The order of the C++ type is its \<^verbatim>\<open>linorder\<close> instance, whose \<open><\<close> and
  \<open>\<le>\<close> are the operators of the source; the functions on the message, which may have unset
  fields, are shown to agree with it. Terms and indexes are the values of \<^verbatim>\<open>int64_t\<close>; nothing
  here computes with them.
\<close>

section \<open>The C++ type\<close>

datatype OpId = OpId (op_term: int) (op_index: int)

definition kUnknownTerm :: int where
  "kUnknownTerm = -1"

definition OpId_default :: OpId where
  "OpId_default = OpId 0 0"

definition OpId_empty :: "OpId \<Rightarrow> bool" where
  "OpId_empty op \<longleftrightarrow> op_term op = 0 \<and> op_index op = 0"

instantiation OpId :: linorder
begin

definition less_OpId :: "OpId \<Rightarrow> OpId \<Rightarrow> bool" where
  "less_OpId lhs rhs \<longleftrightarrow>
     op_term lhs < op_term rhs \<or> (op_term lhs = op_term rhs \<and> op_index lhs < op_index rhs)"

definition less_eq_OpId :: "OpId \<Rightarrow> OpId \<Rightarrow> bool" where
  "less_eq_OpId lhs rhs \<longleftrightarrow> \<not> rhs < lhs"

instance
proof
  fix x y z :: OpId
  show "x < y \<longleftrightarrow> x \<le> y \<and> \<not> y \<le> x" "x \<le> x" "x \<le> y \<or> y \<le> x"
    by (auto simp: less_OpId_def less_eq_OpId_def)
  show "x \<le> y \<Longrightarrow> y \<le> z \<Longrightarrow> x \<le> z" by (auto simp: less_OpId_def less_eq_OpId_def)
  show "x \<le> y \<Longrightarrow> y \<le> x \<Longrightarrow> x = y" by (cases x; cases y) (auto simp: less_OpId_def less_eq_OpId_def)
qed

end

definition OpId_MakeAtLeast :: "OpId \<Rightarrow> OpId \<Rightarrow> OpId" where
  "OpId_MakeAtLeast op rhs =
     (if OpId_empty rhs then op
      else if OpId_empty op then rhs
      else if op_term rhs > op_term op \<or> (op_term rhs = op_term op \<and> op_index rhs > op_index op) then rhs
      else op)"

definition OpId_MakeAtMost :: "OpId \<Rightarrow> OpId \<Rightarrow> OpId" where
  "OpId_MakeAtMost op rhs =
     (if OpId_empty rhs then op
      else if OpId_empty op then rhs
      else if op_term rhs < op_term op \<or> (op_term rhs = op_term op \<and> op_index rhs < op_index op) then rhs
      else op)"

section \<open>The protocol message\<close>

text \<open>A required field that is not set reads as 0; a message is initialised when both are set.\<close>

record OpIdPB =
  pb_term :: "int option"
  pb_index :: "int option"

definition get_term :: "OpIdPB \<Rightarrow> int" where
  "get_term pb = case_option 0 id (pb_term pb)"

definition get_index :: "OpIdPB \<Rightarrow> int" where
  "get_index pb = case_option 0 id (pb_index pb)"

definition IsInitialized :: "OpIdPB \<Rightarrow> bool" where
  "IsInitialized pb \<longleftrightarrow> pb_term pb \<noteq> None \<and> pb_index pb \<noteq> None"

definition OpId_ToPB :: "OpId \<Rightarrow> OpIdPB" where
  "OpId_ToPB op = \<lparr>pb_term = Some (op_term op), pb_index = Some (op_index op)\<rparr>"

definition OpId_FromPB :: "OpIdPB \<Rightarrow> OpId" where
  "OpId_FromPB pb = OpId (get_term pb) (get_index pb)"

definition OpIdCompare :: "OpIdPB \<Rightarrow> OpIdPB \<Rightarrow> int" where
  "OpIdCompare first second =
     (if get_term first = get_term second
      then if get_index first < get_index second then -1
           else if get_index first = get_index second then 0 else 1
      else if get_term first < get_term second then -1 else 1)"

definition OpIdEquals :: "OpIdPB \<Rightarrow> OpIdPB \<Rightarrow> bool" where
  "OpIdEquals left right \<longleftrightarrow> get_term left = get_term right \<and> get_index left = get_index right"

definition OpIdLessThan :: "OpIdPB \<Rightarrow> OpIdPB \<Rightarrow> bool" where
  "OpIdLessThan left right =
     (if get_term left < get_term right then True
      else if get_term left > get_term right then False
      else get_index left < get_index right)"

definition OpIdBiggerThan :: "OpIdPB \<Rightarrow> OpIdPB \<Rightarrow> bool" where
  "OpIdBiggerThan left right =
     (if get_term left > get_term right then True
      else if get_term left < get_term right then False
      else get_index left > get_index right)"

text \<open>\<^verbatim>\<open>CopyIfOpIdLessThan\<close> returns whether it copied, and the target.\<close>

definition CopyIfOpIdLessThan :: "OpIdPB \<Rightarrow> OpIdPB \<Rightarrow> bool \<times> OpIdPB" where
  "CopyIfOpIdLessThan to_compare target =
     (if IsInitialized to_compare \<and> (\<not> IsInitialized target \<or> OpIdLessThan to_compare target)
      then (True, to_compare) else (False, target))"

definition MinimumOpId :: OpIdPB where
  "MinimumOpId = \<lparr>pb_term = Some 0, pb_index = Some 0\<rparr>"

definition MaximumOpId :: OpIdPB where
  "MaximumOpId = \<lparr>pb_term = Some (2 ^ 63 - 1), pb_index = Some (2 ^ 63 - 1)\<rparr>"

definition MakeOpId :: "int \<Rightarrow> int \<Rightarrow> OpIdPB" where
  "MakeOpId t i = \<lparr>pb_term = Some t, pb_index = Some i\<rparr>"

section \<open>Lemmas\<close>

lemma OpId_FromPB_ToPB [simp]: "OpId_FromPB (OpId_ToPB op) = op"
  by (simp add: OpId_FromPB_def OpId_ToPB_def get_term_def get_index_def)

lemma OpId_less_iff: "OpId a b < OpId c d \<longleftrightarrow> a < c \<or> a = c \<and> b < d"
  by (simp add: less_OpId_def)

lemma OpId_le_iff: "OpId a b \<le> OpId c d \<longleftrightarrow> a < c \<or> a = c \<and> b \<le> d"
  by (auto simp: less_eq_OpId_def less_OpId_def)

lemma OpIdLessThan_iff: "OpIdLessThan left right \<longleftrightarrow> OpId_FromPB left < OpId_FromPB right"
  by (auto simp: OpIdLessThan_def OpId_FromPB_def less_OpId_def)

lemma OpIdBiggerThan_iff: "OpIdBiggerThan left right \<longleftrightarrow> OpId_FromPB right < OpId_FromPB left"
  by (auto simp: OpIdBiggerThan_def OpId_FromPB_def less_OpId_def)

lemma OpIdEquals_iff: "OpIdEquals left right \<longleftrightarrow> OpId_FromPB left = OpId_FromPB right"
  by (auto simp: OpIdEquals_def OpId_FromPB_def)

lemma OpIdCompare_iff:
  "OpIdCompare first second < 0 \<longleftrightarrow> OpIdLessThan first second"
  "OpIdCompare first second = 0 \<longleftrightarrow> OpIdEquals first second"
  "OpIdCompare first second > 0 \<longleftrightarrow> OpIdBiggerThan first second"
  by (auto simp: OpIdCompare_def OpIdLessThan_def OpIdEquals_def OpIdBiggerThan_def)

lemma OpId_MakeAtLeast_max:
  "\<not> OpId_empty op \<Longrightarrow> \<not> OpId_empty rhs \<Longrightarrow> OpId_MakeAtLeast op rhs = max op rhs"
  "\<not> OpId_empty op \<Longrightarrow> \<not> OpId_empty rhs \<Longrightarrow> OpId_MakeAtMost op rhs = min op rhs"
  by (cases op; cases rhs; auto simp: OpId_MakeAtLeast_def OpId_MakeAtMost_def max_def min_def OpId_le_iff)+

end
