(* ===== verification/Quorum_Util.thy ===== *)
theory Quorum_Util
  imports Prelude
begin

text \<open>
  Raft configurations: \<^verbatim>\<open>src/src/yb/consensus/quorum_util.cc\<close> on the messages of
  \<^verbatim>\<open>src/src/yb/consensus/metadata.proto\<close>. A field of a message that may be unset is an option and
  reads as the default of its type (the empty string, the first enumerator). The lemmas show what a
  verified configuration is, that a voter is counted once, and that two majorities of the voters
  meet; the last is the contract of the locale \<open>quorum_system\<close>, interpreted on the voters of a
  verified configuration.
\<close>

section \<open>Messages\<close>

datatype Role = FOLLOWER | LEADER | LEARNER | NON_PARTICIPANT | READ_REPLICA | UNKNOWN_ROLE

datatype MemberType = UNKNOWN_MEMBER_TYPE | PRE_VOTER | VOTER | PRE_OBSERVER | OBSERVER

record HostPortPB =
  host :: string
  port :: u32

record RaftPeerPB =
  peer_uuid_field :: "string option"
  member_type_field :: "MemberType option"
  last_known_private_addr :: "HostPortPB list"
  last_known_broadcast_addr :: "HostPortPB list"

definition permanent_uuid :: "RaftPeerPB \<Rightarrow> string" where
  "permanent_uuid peer = case_option '''' id (peer_uuid_field peer)"

definition member_type :: "RaftPeerPB \<Rightarrow> MemberType" where
  "member_type peer = case_option UNKNOWN_MEMBER_TYPE id (member_type_field peer)"

record RaftConfigPB =
  opid_index :: "int option"
  peers :: "RaftPeerPB list"

record ConsensusStatePB =
  current_term_field :: "int option"
  leader_uuid_field :: "string option"
  config_field :: "RaftConfigPB option"

definition cstate_leader_uuid :: "ConsensusStatePB \<Rightarrow> string" where
  "cstate_leader_uuid cstate = case_option '''' id (leader_uuid_field cstate)"

definition cstate_config :: "ConsensusStatePB \<Rightarrow> RaftConfigPB" where
  "cstate_config cstate = case_option \<lparr>opid_index = None, peers = []\<rparr> id (config_field cstate)"

record ChangeConfigRequestPB =
  use_host_field :: "bool option"
  server :: RaftPeerPB

datatype RaftConfigState = UNCOMMITTED_QUORUM | COMMITTED_QUORUM

section \<open>Operations\<close>

primrec find_peer :: "string \<Rightarrow> RaftPeerPB list \<Rightarrow> RaftPeerPB option" where
  "find_peer uuid [] = None"
| "find_peer uuid (peer # ps) = (if permanent_uuid peer = uuid then Some peer else find_peer uuid ps)"

definition IsRaftConfigMember :: "string \<Rightarrow> RaftConfigPB \<Rightarrow> bool" where
  "IsRaftConfigMember uuid config \<longleftrightarrow> find_peer uuid (peers config) \<noteq> None"

definition IsRaftConfigVoter :: "string \<Rightarrow> RaftConfigPB \<Rightarrow> bool" where
  "IsRaftConfigVoter uuid config =
     (case find_peer uuid (peers config) of
        Some peer \<Rightarrow> member_type peer = VOTER
      | None \<Rightarrow> False)"

definition GetRaftConfigMember :: "RaftConfigPB \<Rightarrow> string \<Rightarrow> RaftPeerPB result" where
  "GetRaftConfigMember config uuid =
     (case find_peer uuid (peers config) of
        Some peer \<Rightarrow> Inr peer
      | None \<Rightarrow> Inl (Status NotFound))"

text \<open>The mutable variant returns a pointer into the configuration: the position of the peer.\<close>

primrec peer_position :: "string \<Rightarrow> RaftPeerPB list \<Rightarrow> nat option" where
  "peer_position uuid [] = None"
| "peer_position uuid (peer # ps) =
     (if permanent_uuid peer = uuid then Some 0 else map_option Suc (peer_position uuid ps))"

definition GetMutableRaftConfigMember :: "RaftConfigPB \<Rightarrow> string \<Rightarrow> nat result" where
  "GetMutableRaftConfigMember config uuid =
     (case peer_position uuid (peers config) of
        Some i \<Rightarrow> Inr i
      | None \<Rightarrow> Inl (Status NotFound))"

definition GetRaftConfigLeader :: "ConsensusStatePB \<Rightarrow> RaftPeerPB result" where
  "GetRaftConfigLeader cstate =
     (if leader_uuid_field cstate = None \<or> cstate_leader_uuid cstate = '''' then Inl (Status NotFound)
      else GetRaftConfigMember (cstate_config cstate) (cstate_leader_uuid cstate))"

definition HasHostPortPB :: "HostPortPB list \<Rightarrow> HostPortPB \<Rightarrow> bool" where
  "HasHostPortPB hps hp \<longleftrightarrow> list_ex (\<lambda>i. host i = host hp \<and> port i = port hp) hps"

definition peer_matches :: "ChangeConfigRequestPB \<Rightarrow> RaftPeerPB \<Rightarrow> bool" where
  "peer_matches req peer =
     (if use_host_field req = Some True then
        HasHostPortPB (last_known_private_addr peer) (hd (last_known_private_addr (server req))) \<or>
        HasHostPortPB (last_known_broadcast_addr peer) (hd (last_known_private_addr (server req)))
      else permanent_uuid peer = permanent_uuid (server req))"

definition RemoveFromRaftConfig :: "RaftConfigPB \<Rightarrow> ChangeConfigRequestPB \<Rightarrow> bool \<times> RaftConfigPB" where
  "RemoveFromRaftConfig config req =
     (if use_host_field req = Some True \<and> length (last_known_private_addr (server req)) \<noteq> 1 then (False, config)
      else
        let modified_peers = filter (\<lambda>peer. \<not> peer_matches req peer) (peers config);
            removed = list_ex (peer_matches req) (peers config)
        in if \<not> removed then (False, config) else (True, config\<lparr>peers := modified_peers\<rparr>))"

definition CountMemberType :: "RaftConfigPB \<Rightarrow> MemberType \<Rightarrow> string \<Rightarrow> int" where
  "CountMemberType config mt ignore_uuid =
     int (length (filter (\<lambda>peer. member_type peer = mt \<and> permanent_uuid peer \<noteq> ignore_uuid) (peers config)))"

definition CountVoters :: "RaftConfigPB \<Rightarrow> int" where
  "CountVoters config = CountMemberType config VOTER ''''"

definition CountVotersInTransition :: "RaftConfigPB \<Rightarrow> int" where
  "CountVotersInTransition config = CountMemberType config PRE_VOTER ''''"

definition CountServersInTransition :: "RaftConfigPB \<Rightarrow> string \<Rightarrow> int" where
  "CountServersInTransition config ignore_uuid =
     CountMemberType config PRE_VOTER ignore_uuid + CountMemberType config PRE_OBSERVER ignore_uuid"

text \<open>The division of C rounds toward zero; the argument is at least 1.\<close>

definition MajoritySize :: "int \<Rightarrow> int" where
  "MajoritySize num_voters = num_voters div 2 + 1"

definition GetConsensusMemberType :: "string \<Rightarrow> ConsensusStatePB \<Rightarrow> MemberType" where
  "GetConsensusMemberType uuid cstate =
     (case find_peer uuid (peers (cstate_config cstate)) of
        Some peer \<Rightarrow> member_type peer
      | None \<Rightarrow> UNKNOWN_MEMBER_TYPE)"

fun role_of_member :: "MemberType \<Rightarrow> Role" where
  "role_of_member VOTER = FOLLOWER"
| "role_of_member PRE_VOTER = LEARNER"
| "role_of_member PRE_OBSERVER = LEARNER"
| "role_of_member OBSERVER = READ_REPLICA"
| "role_of_member UNKNOWN_MEMBER_TYPE = UNKNOWN_ROLE"

definition GetConsensusRole :: "string \<Rightarrow> ConsensusStatePB \<Rightarrow> Role" where
  "GetConsensusRole uuid cstate =
     (if cstate_leader_uuid cstate = uuid then
        (if IsRaftConfigVoter uuid (cstate_config cstate) then LEADER else NON_PARTICIPANT)
      else
        (case find_peer uuid (peers (cstate_config cstate)) of
           Some peer \<Rightarrow> role_of_member (member_type peer)
         | None \<Rightarrow> NON_PARTICIPANT))"

fun verify_peers :: "nat \<Rightarrow> string set \<Rightarrow> RaftPeerPB list \<Rightarrow> unit result" where
  "verify_peers num_peers uuids [] = Inr ()"
| "verify_peers num_peers uuids (peer # ps) =
     (if peer_uuid_field peer = None \<or> permanent_uuid peer = '''' then Inl (Status IllegalState)
      else if permanent_uuid peer \<in> uuids then Inl (Status IllegalState)
      else if num_peers > 1 \<and> last_known_private_addr peer = [] then Inl (Status IllegalState)
      else if member_type_field peer = None then Inl (Status IllegalState)
      else verify_peers num_peers (insert (permanent_uuid peer) uuids) ps)"

definition VerifyRaftConfig :: "RaftConfigPB \<Rightarrow> RaftConfigState \<Rightarrow> unit result" where
  "VerifyRaftConfig config type =
     (if peers config = [] then Inl (Status IllegalState)
      else if type = COMMITTED_QUORUM \<and> opid_index config = None then Inl (Status IllegalState)
      else if type = UNCOMMITTED_QUORUM \<and> opid_index config \<noteq> None then Inl (Status IllegalState)
      else verify_peers (length (peers config)) {} (peers config))"

definition VerifyConsensusState :: "ConsensusStatePB \<Rightarrow> RaftConfigState \<Rightarrow> unit result" where
  "VerifyConsensusState cstate type =
     (if current_term_field cstate = None then Inl (Status IllegalState)
      else if config_field cstate = None then Inl (Status IllegalState)
      else
        verify_result (VerifyRaftConfig (cstate_config cstate) type) (\<lambda>_.
          if leader_uuid_field cstate \<noteq> None \<and> cstate_leader_uuid cstate \<noteq> '''' \<and>
             \<not> IsRaftConfigVoter (cstate_leader_uuid cstate) (cstate_config cstate)
          then Inl (Status IllegalState) else Inr ()))"

section \<open>Verified configurations\<close>

definition peer_ok :: "nat \<Rightarrow> RaftPeerPB \<Rightarrow> bool" where
  "peer_ok num_peers peer \<longleftrightarrow>
     permanent_uuid peer \<noteq> '''' \<and> (num_peers > 1 \<longrightarrow> last_known_private_addr peer \<noteq> []) \<and>
     member_type_field peer \<noteq> None"

definition raft_config_ok :: "RaftConfigPB \<Rightarrow> bool" where
  "raft_config_ok config \<longleftrightarrow>
     peers config \<noteq> [] \<and> distinct (map permanent_uuid (peers config)) \<and>
     list_all (peer_ok (length (peers config))) (peers config)"

lemma permanent_uuid_set: "permanent_uuid peer \<noteq> '''' \<Longrightarrow> peer_uuid_field peer \<noteq> None"
  by (cases "peer_uuid_field peer") (simp_all add: permanent_uuid_def)

lemma verify_peers_iff:
  "verify_peers n uuids ps = Inr () \<longleftrightarrow>
     list_all (peer_ok n) ps \<and> distinct (map permanent_uuid ps) \<and> uuids \<inter> permanent_uuid ` set ps = {}"
  by (induction ps arbitrary: uuids) (auto simp: peer_ok_def dest: permanent_uuid_set)

lemma VerifyRaftConfig_iff:
  "VerifyRaftConfig config type = Inr () \<longleftrightarrow>
     raft_config_ok config \<and> (opid_index config \<noteq> None \<longleftrightarrow> type = COMMITTED_QUORUM)"
  by (cases type) (auto simp: VerifyRaftConfig_def verify_peers_iff raft_config_ok_def)

lemma find_peer_Some: "find_peer uuid ps = Some peer \<Longrightarrow> peer \<in> set ps \<and> permanent_uuid peer = uuid"
  by (induction ps) (auto split: if_splits)

lemma find_peer_None: "find_peer uuid ps = None \<longleftrightarrow> uuid \<notin> permanent_uuid ` set ps"
  by (induction ps) auto

lemma find_peer_distinct:
  "distinct (map permanent_uuid ps) \<Longrightarrow> peer \<in> set ps \<Longrightarrow> find_peer (permanent_uuid peer) ps = Some peer"
  by (induction ps) (auto simp: image_iff)

lemma GetMutableRaftConfigMember_eq:
  "GetMutableRaftConfigMember config uuid = Inr i \<Longrightarrow>
     i < length (peers config) \<and> GetRaftConfigMember config uuid = Inr (peers config ! i)"
proof -
  have "peer_position uuid ps = Some i \<Longrightarrow> i < length ps \<and> find_peer uuid ps = Some (ps ! i)" for ps
    by (induction ps arbitrary: i) (auto split: if_splits)
  then show "GetMutableRaftConfigMember config uuid = Inr i \<Longrightarrow> ?thesis"
    by (auto simp: GetMutableRaftConfigMember_def GetRaftConfigMember_def split: option.splits)
qed

section \<open>Voters and majorities\<close>

definition voters :: "RaftConfigPB \<Rightarrow> string list" where
  "voters config = map permanent_uuid (filter (\<lambda>peer. member_type peer = VOTER) (peers config))"

lemma distinct_voters: "raft_config_ok config \<Longrightarrow> distinct (voters config)"
  unfolding raft_config_ok_def voters_def by (metis distinct_map_filter)

lemma IsRaftConfigVoter_iff:
  "raft_config_ok config \<Longrightarrow> IsRaftConfigVoter uuid config \<longleftrightarrow> uuid \<in> set (voters config)"
  using find_peer_distinct [of "peers config"] find_peer_Some [of uuid "peers config"]
  by (fastforce simp: IsRaftConfigVoter_def voters_def raft_config_ok_def split: option.splits)

lemma CountVoters_eq: "raft_config_ok config \<Longrightarrow> CountVoters config = int (length (voters config))"
proof -
  assume ok: "raft_config_ok config"
  have "filter (\<lambda>p. member_type p = VOTER \<and> permanent_uuid p \<noteq> '''') (peers config) =
      filter (\<lambda>p. member_type p = VOTER) (peers config)"
    using ok by (intro filter_cong refl) (auto simp: raft_config_ok_def list_all_iff peer_ok_def)
  then show ?thesis by (simp add: CountVoters_def CountMemberType_def voters_def)
qed

text \<open>What an election relies on: any two quorums have a voter in common.\<close>

locale quorum_system =
  fixes quorum :: "'a set \<Rightarrow> bool"
  assumes quorum_meet: "quorum Q \<Longrightarrow> quorum R \<Longrightarrow> Q \<inter> R \<noteq> {}"
begin

text \<open>If every voter gives its vote to one candidate, at most one candidate has a quorum.\<close>

lemma unique_winner:
  assumes "quorum Q" and "quorum R"
    and "\<And>v. v \<in> Q \<Longrightarrow> vote v c" and "\<And>v. v \<in> R \<Longrightarrow> vote v d"
    and "\<And>v a b. vote v a \<Longrightarrow> vote v b \<Longrightarrow> a = b"
  shows "c = d"
proof -
  obtain v where "v \<in> Q" "v \<in> R" using quorum_meet [OF assms(1,2)] by blast
  then show ?thesis using assms(3) [of v] assms(4) [of v] assms(5) [of v] by blast
qed

end

definition majority :: "RaftConfigPB \<Rightarrow> string set \<Rightarrow> bool" where
  "majority config Q \<longleftrightarrow>
     raft_config_ok config \<and> Q \<subseteq> set (voters config) \<and> int (card Q) \<ge> MajoritySize (CountVoters config)"

lemma majority_meet:
  assumes "majority config Q" and "majority config R"
  shows "Q \<inter> R \<noteq> {}"
proof
  assume disj: "Q \<inter> R = {}"
  have fin: "finite Q" "finite R" using assms by (auto simp: majority_def intro: finite_subset)
  have ok: "raft_config_ok config" using assms(1) by (simp add: majority_def)
  have "card (Q \<union> R) \<le> card (set (voters config))"
    using assms by (intro card_mono) (auto simp: majority_def)
  also have "\<dots> = length (voters config)" by (rule distinct_card [OF distinct_voters [OF ok]])
  finally have "int (card Q) + int (card R) \<le> CountVoters config"
    using card_Un_disjoint [OF fin disj] CountVoters_eq [OF ok] by simp
  moreover have "MajoritySize (CountVoters config) * 2 > CountVoters config" by (simp add: MajoritySize_def)
  ultimately show False using assms by (simp add: majority_def)
qed

interpretation raft: quorum_system "majority config" for config
  by unfold_locales (rule majority_meet)

section \<open>Removing a server\<close>

lemma RemoveFromRaftConfig_peers:
  assumes "RemoveFromRaftConfig config req = (removed, config')"
  shows "peers config' = (if removed then filter (\<lambda>peer. \<not> peer_matches req peer) (peers config) else peers config)"
    and "opid_index config' = opid_index config"
  using assms by (auto simp: RemoveFromRaftConfig_def Let_def split: if_splits)

lemma raft_config_ok_filter:
  assumes "raft_config_ok config" and "filter P (peers config) \<noteq> []"
  shows "raft_config_ok (config\<lparr>peers := filter P (peers config)\<rparr>)"
proof -
  have "Suc 0 < length (filter P (peers config)) \<Longrightarrow> Suc 0 < length (peers config)"
    using length_filter_le [of P "peers config"] by linarith
  then show ?thesis using assms unfolding raft_config_ok_def by (auto simp: list_all_iff peer_ok_def distinct_map_filter)
qed

lemma voters_removed:
  assumes ok: "raft_config_ok config" and r: "RemoveFromRaftConfig config req = (removed, config')"
    and uuid: "use_host_field req \<noteq> Some True"
  shows "set (voters config) \<subseteq> insert (permanent_uuid (server req)) (set (voters config'))"
    and "set (voters config') \<subseteq> set (voters config)"
  using RemoveFromRaftConfig_peers(1) [OF r] uuid by (auto simp: voters_def peer_matches_def split: if_splits)

lemma majorities_meet:
  assumes "majority config Q" and "majority config' R"
    and sub: "set (voters config') \<subseteq> set (voters config)" and one: "set (voters config) \<subseteq> insert u (set (voters config'))"
  shows "Q \<inter> R \<noteq> {}"
proof
  assume disj: "Q \<inter> R = {}"
  have fin: "finite Q" "finite R" using assms(1,2) by (auto simp: majority_def intro: finite_subset)
  have ok: "raft_config_ok config" "raft_config_ok config'" using assms(1,2) by (simp_all add: majority_def)
  have len: "CountVoters config = int (card (set (voters config)))" "CountVoters config' = int (card (set (voters config')))"
    using ok by (simp_all add: CountVoters_eq distinct_card distinct_voters)
  have "card (Q \<union> R) \<le> card (set (voters config))"
    using assms by (intro card_mono) (auto simp: majority_def)
  then have "int (card Q) + int (card R) \<le> CountVoters config"
    using card_Un_disjoint [OF fin disj] len by simp
  moreover have "card (set (voters config)) \<le> Suc (card (set (voters config')))"
    using card_mono [OF _ one] card_insert_le_m1 [of _ "set (voters config')" u] by (auto simp: card_insert_if split: if_splits)
  moreover have "CountVoters config div 2 + 1 \<le> int (card Q)" "CountVoters config' div 2 + 1 \<le> int (card R)"
    using assms(1,2) by (simp_all add: majority_def MajoritySize_def)
  ultimately show False unfolding len by linarith
qed

text \<open>
  C15: A server is removed from a valid configuration by its uuid. If a server remains, the new
  configuration is valid as well, has no server of that uuid and all others, and each of its
  majorities has a voter in common with each majority of the old configuration, so that a leader
  elected by the one is noticed by the other.
\<close>

theorem remove_server_keeps_valid_config:
  assumes "VerifyRaftConfig config type = Inr ()" and "RemoveFromRaftConfig config req = (removed, config')"
    and "use_host_field req \<noteq> Some True" and "peers config' \<noteq> []"
  shows "VerifyRaftConfig config' type = Inr () \<and>
    (removed \<longleftrightarrow> IsRaftConfigMember (permanent_uuid (server req)) config) \<and>
    (\<forall>uuid. IsRaftConfigMember uuid config' \<longleftrightarrow> IsRaftConfigMember uuid config \<and> uuid \<noteq> permanent_uuid (server req)) \<and>
    (majority config Q \<longrightarrow> majority config' R \<longrightarrow> Q \<inter> R \<noteq> {})"
proof (intro conjI impI)
  have ok: "raft_config_ok config" using assms(1) by (simp add: VerifyRaftConfig_iff)
  note p = RemoveFromRaftConfig_peers [OF assms(2)]
  have "raft_config_ok config'"
    using raft_config_ok_filter [OF ok, of "\<lambda>peer. \<not> peer_matches req peer"] ok assms(4) p
    by (cases removed) (auto simp: raft_config_ok_def)
  then show "VerifyRaftConfig config' type = Inr ()" using assms(1) p(2) by (simp add: VerifyRaftConfig_iff)
  show r: "removed \<longleftrightarrow> IsRaftConfigMember (permanent_uuid (server req)) config"
    using assms(2,3)
    by (auto simp: RemoveFromRaftConfig_def Let_def IsRaftConfigMember_def find_peer_None list_ex_iff peer_matches_def image_iff split: if_splits) metis+
  show "\<forall>uuid. IsRaftConfigMember uuid config' \<longleftrightarrow> IsRaftConfigMember uuid config \<and> uuid \<noteq> permanent_uuid (server req)"
    using p(1) r assms(3)
    by (cases removed) (auto simp: IsRaftConfigMember_def find_peer_None peer_matches_def image_iff)
  show "Q \<inter> R \<noteq> {}" if "majority config Q" "majority config' R"
    using voters_removed [OF ok assms(2,3)] by (rule majorities_meet [OF that, rotated])
qed

text \<open>A configuration with three voters.\<close>

definition sample_peer :: "string \<Rightarrow> RaftPeerPB" where
  "sample_peer uuid =
     \<lparr>peer_uuid_field = Some uuid, member_type_field = Some VOTER,
      last_known_private_addr = [\<lparr>host = uuid, port = 7100\<rparr>], last_known_broadcast_addr = []\<rparr>"

definition sample_config :: RaftConfigPB where
  "sample_config = \<lparr>opid_index = Some 1, peers = map sample_peer [''a'', ''b'', ''c'']\<rparr>"

lemma sample_config_ok: "VerifyRaftConfig sample_config COMMITTED_QUORUM = Inr ()" "raft_config_ok sample_config"
  "voters sample_config = [''a'', ''b'', ''c'']"
  by (simp_all add: sample_config_def sample_peer_def VerifyRaftConfig_def raft_config_ok_def permanent_uuid_def
      peer_ok_def voters_def member_type_def)

text \<open>Non-vacuity of \<open>remove_server_keeps_valid_config\<close>: one of the three voters is removed.\<close>

theorem remove_server_keeps_valid_config_witness:
  "VerifyRaftConfig (sample_config\<lparr>peers := map sample_peer [''a'', ''c'']\<rparr>) COMMITTED_QUORUM = Inr () \<and>
   majority sample_config {''a'', ''b''} \<and> majority (sample_config\<lparr>peers := map sample_peer [''a'', ''c'']\<rparr>) {''a'', ''c''} \<and>
   {''a'', ''b''} \<inter> {''a'', ''c''} \<noteq> {}"
proof -
  let ?c = "sample_config\<lparr>peers := map sample_peer [''a'', ''c'']\<rparr>"
  let ?req = "\<lparr>use_host_field = None, server = sample_peer ''b''\<rparr>"
  have "RemoveFromRaftConfig sample_config ?req = (True, ?c)"
    by (simp add: RemoveFromRaftConfig_def sample_config_def sample_peer_def peer_matches_def permanent_uuid_def Let_def)
  moreover have "majority sample_config {''a'', ''b''}"
    using sample_config_ok(2,3) by (simp add: majority_def CountVoters_eq MajoritySize_def)
  moreover have v: "raft_config_ok ?c" "voters ?c = [''a'', ''c'']"
    by (simp_all add: sample_config_def sample_peer_def raft_config_ok_def permanent_uuid_def peer_ok_def voters_def member_type_def)
  then have "majority ?c {''a'', ''c''}" by (simp add: majority_def CountVoters_eq MajoritySize_def)
  ultimately show ?thesis
    using remove_server_keeps_valid_config [OF sample_config_ok(1), of ?req True ?c "{''a'', ''b''}" "{''a'', ''c''}"]
    by (simp add: sample_config_def)
qed

end
