(* ===== verification/Leader_Election.thy ===== *)
theory Leader_Election
  imports Op_Id Quorum_Util
begin

text \<open>
  One election: \<^verbatim>\<open>src/src/yb/consensus/leader_election.cc\<close>, with the leases of
  \<^verbatim>\<open>src/src/yb/consensus/leader_lease.h\<close> it carries. The object is protected by a lock, so each
  critical section is a function of its state; \<^verbatim>\<open>VoteResponseRpcCallback\<close> has two of them (the
  handling of the answer and \<^verbatim>\<open>CheckForDecision\<close>), between which the sections of other threads may
  run. The relation \<open>election_run\<close> interleaves them in every way. A call of the decision callback
  is an output. The lemmas show that the counters are those of the votes, that the callback is
  called at most once, that it is called when all voters have answered, and that an election is won
  only with the votes of a majority.
\<close>

section \<open>Leases\<close>

record 'a LeaseData =
  holder_uuid :: string
  expiration :: 'a

definition TryUpdate :: "('a :: linorder) LeaseData \<Rightarrow> 'a LeaseData \<Rightarrow> 'a LeaseData" where
  "TryUpdate lease rhs =
     (if expiration rhs > expiration lease
      then lease\<lparr>expiration := expiration rhs, holder_uuid := holder_uuid rhs\<rparr> else lease)"

text \<open>Time points of the coarse clock are counts of nanoseconds; the hybrid time lease holds microseconds.\<close>

definition coarse_none :: int where
  "coarse_none = - (2 ^ 63)"

definition micros_none :: u64 where
  "micros_none = 0"

type_synonym CoarseTimeLease = "int LeaseData"
type_synonym PhysicalComponentLease = "u64 LeaseData"

definition CoarseTimeLease_default :: CoarseTimeLease where
  "CoarseTimeLease_default = \<lparr>holder_uuid = '''', expiration = coarse_none\<rparr>"

definition PhysicalComponentLease_default :: PhysicalComponentLease where
  "PhysicalComponentLease_default = \<lparr>holder_uuid = '''', expiration = micros_none\<rparr>"

section \<open>Counting votes\<close>

datatype ElectionVote = kDenied | kGranted | kUnknown

record VoteCounter =
  num_voters :: int
  majority_size :: int
  votes :: "string \<rightharpoonup> ElectionVote"
  yes_votes :: int
  no_votes :: int

definition VoteCounter_new :: "int \<Rightarrow> int \<Rightarrow> VoteCounter result" where
  "VoteCounter_new n m =
     (if m \<le> n \<and> n > 0 \<and> m > 0
      then Inr \<lparr>num_voters = n, majority_size = m, votes = (\<lambda>_. None), yes_votes = 0, no_votes = 0\<rparr>
      else Inl Fatal)"

text \<open>The counter after the call, and the status with \<^verbatim>\<open>is_duplicate\<close>.\<close>

definition RegisterVote :: "VoteCounter \<Rightarrow> string \<Rightarrow> ElectionVote \<Rightarrow> VoteCounter \<times> bool result" where
  "RegisterVote vc voter_uuid vote =
     (case votes vc voter_uuid of
        Some prior_vote \<Rightarrow>
          (if prior_vote \<noteq> vote then (vc, Inl (Status InvalidArgument)) else (vc, Inr True))
      | None \<Rightarrow>
          (if yes_votes vc + no_votes vc = num_voters vc then (vc, Inl (Status InvalidArgument))
           else
             let vc1 = vc\<lparr>votes := (votes vc)(voter_uuid \<mapsto> vote)\<rparr>
             in case vote of
                  kGranted \<Rightarrow> (vc1\<lparr>yes_votes := yes_votes vc1 + 1\<rparr>, Inr False)
                | kDenied \<Rightarrow> (vc1\<lparr>no_votes := no_votes vc1 + 1\<rparr>, Inr False)
                | kUnknown \<Rightarrow> (vc1, Inl (Status InvalidArgument))))"

definition GetDecision :: "VoteCounter \<Rightarrow> ElectionVote" where
  "GetDecision vc =
     (if yes_votes vc \<ge> majority_size vc then kGranted
      else if no_votes vc > num_voters vc - majority_size vc then kDenied
      else kUnknown)"

definition GetTotalVotesCounted :: "VoteCounter \<Rightarrow> int" where
  "GetTotalVotesCounted vc = yes_votes vc + no_votes vc"

definition AreAllVotesIn :: "VoteCounter \<Rightarrow> bool" where
  "AreAllVotesIn vc \<longleftrightarrow> GetTotalVotesCounted vc = num_voters vc"

section \<open>The election\<close>

record VoteRequestPB =
  candidate_uuid :: string
  candidate_term :: int
  ignore_live_leader :: bool
  request_preelection :: bool
  last_received :: OpIdPB

datatype ConsensusError =
    INVALID_TERM | ALREADY_VOTED | LAST_OPID_TOO_OLD | LEADER_IS_ALIVE | CONSENSUS_BUSY

record VoteResponsePB =
  responder_uuid :: string
  responder_term :: int
  vote_granted :: bool
  remaining_leader_lease_duration_ms :: "int option"
  leader_lease_uuid :: string
  leader_ht_lease_expiration :: "u64 option"
  leader_ht_lease_uuid :: string
  response_preelection :: bool
  consensus_error :: "ConsensusError option"
  has_error :: bool

record ElectionResult =
  preelection :: bool
  preelections_not_supported_by_uuid :: string
  election_term :: int
  decision :: ElectionVote
  higher_term :: "int option"
  old_leader_lease :: CoarseTimeLease
  old_leader_ht_lease :: PhysicalComponentLease

definition ElectionResult_new :: "bool \<Rightarrow> int \<Rightarrow> ElectionResult" where
  "ElectionResult_new p t =
     \<lparr>preelection = p, preelections_not_supported_by_uuid = '''', election_term = t, decision = kUnknown,
      higher_term = None, old_leader_lease = CoarseTimeLease_default,
      old_leader_ht_lease = PhysicalComponentLease_default\<rparr>"

definition decided :: "ElectionResult \<Rightarrow> bool" where
  "decided r \<longleftrightarrow> decision r \<noteq> kUnknown"

record LeaderElection =
  request :: VoteRequestPB
  result :: ElectionResult
  vote_counter :: VoteCounter
  voting_follower_uuids :: "string list"
  has_responded :: bool

text \<open>The loop of the constructor; a voter seen twice fails the check of \<^verbatim>\<open>emplace\<close>.\<close>

fun election_followers :: "string \<Rightarrow> string list \<Rightarrow> RaftPeerPB list \<Rightarrow> string list result" where
  "election_followers candidate seen [] = Inr seen"
| "election_followers candidate seen (peer # ps) =
     (if candidate = permanent_uuid peer then election_followers candidate seen ps
      else if member_type peer \<noteq> VOTER then election_followers candidate seen ps
      else if permanent_uuid peer \<in> set seen then Inl Fatal
      else election_followers candidate (seen @ [permanent_uuid peer]) ps)"

definition LeaderElection_new ::
    "RaftConfigPB \<Rightarrow> VoteRequestPB \<Rightarrow> VoteCounter \<Rightarrow> bool \<Rightarrow> LeaderElection result" where
  "LeaderElection_new config req vc p =
     verify_result (election_followers (candidate_uuid req) [] (peers config)) (\<lambda>followers.
       if GetTotalVotesCounted vc \<noteq> 1 then Inl Fatal
       else if GetTotalVotesCounted vc + int (length followers) \<noteq> num_voters vc then Inl Fatal
       else Inr \<lparr>request = req, result = ElectionResult_new p (candidate_term req), vote_counter = vc,
                 voting_follower_uuids = followers, has_responded = False\<rparr>)"

definition consensus_term :: "LeaderElection \<Rightarrow> int" where
  "consensus_term e = candidate_term (request e) - (if preelection (result e) then 1 else 0)"

definition RecordVoteUnlocked :: "LeaderElection \<Rightarrow> string \<Rightarrow> ElectionVote \<Rightarrow> LeaderElection" where
  "RecordVoteUnlocked e voter_uuid vote =
     e\<lparr>vote_counter := fst (RegisterVote (vote_counter e) voter_uuid vote)\<rparr>"

definition HandleHigherTermUnlocked :: "LeaderElection \<Rightarrow> VoteResponsePB \<Rightarrow> LeaderElection" where
  "HandleHigherTermUnlocked e resp =
     (if \<not> decided (result e)
      then e\<lparr>result := (result e)\<lparr>decision := kDenied, higher_term := Some (responder_term resp)\<rparr>\<rparr>
      else e)"

text \<open>The leases of the answer; \<open>now\<close> is the reading of the coarse clock, in nanoseconds.\<close>

definition update_leases :: "int \<Rightarrow> VoteResponsePB \<Rightarrow> ElectionResult \<Rightarrow> ElectionResult" where
  "update_leases now resp r =
     (let r1 = (case remaining_leader_lease_duration_ms resp of
                  Some ms \<Rightarrow>
                    r\<lparr>old_leader_lease := TryUpdate (old_leader_lease r)
                        \<lparr>holder_uuid = leader_lease_uuid resp, expiration = now + ms * 1000000\<rparr>\<rparr>
                | None \<Rightarrow> r)
      in case leader_ht_lease_expiration resp of
           Some t \<Rightarrow>
             r1\<lparr>old_leader_ht_lease := TryUpdate (old_leader_ht_lease r1)
                  \<lparr>holder_uuid = leader_ht_lease_uuid resp, expiration = t\<rparr>\<rparr>
         | None \<Rightarrow> r1)"

definition HandleVoteGrantedUnlocked :: "int \<Rightarrow> LeaderElection \<Rightarrow> string \<Rightarrow> VoteResponsePB \<Rightarrow> LeaderElection" where
  "HandleVoteGrantedUnlocked now e voter_uuid resp =
     RecordVoteUnlocked (e\<lparr>result := update_leases now resp (result e)\<rparr>) voter_uuid kGranted"

definition HandleVoteDeniedUnlocked :: "LeaderElection \<Rightarrow> string \<Rightarrow> VoteResponsePB \<Rightarrow> LeaderElection" where
  "HandleVoteDeniedUnlocked e voter_uuid resp =
     (if responder_term resp > consensus_term e then HandleHigherTermUnlocked e resp
      else RecordVoteUnlocked e voter_uuid kDenied)"

text \<open>\<^verbatim>\<open>CheckForDecision\<close>: the election, and the result given to the callback if it is called.\<close>

definition CheckForDecision :: "LeaderElection \<Rightarrow> LeaderElection \<times> ElectionResult option" where
  "CheckForDecision e =
     (let dec = GetDecision (vote_counter e);
          r = (if \<not> decided (result e) \<and> dec \<noteq> kUnknown then (result e)\<lparr>decision := dec\<rparr> else result e);
          e1 = e\<lparr>result := r\<rparr>
      in if decided r \<and> \<not> has_responded e1 then (e1\<lparr>has_responded := True\<rparr>, Some r) else (e1, None))"

text \<open>The first section of \<^verbatim>\<open>VoteResponseRpcCallback\<close>; the flag says whether the second follows.\<close>

definition VoteResponse ::
    "int \<Rightarrow> LeaderElection \<Rightarrow> string \<Rightarrow> bool \<Rightarrow> VoteResponsePB \<Rightarrow> (LeaderElection \<times> bool) result" where
  "VoteResponse now e voter_uuid rpc_ok resp =
     (if has_responded e then Inr (e, False)
      else if voter_uuid \<notin> set (voting_follower_uuids e) then Inl Fatal
      else if \<not> rpc_ok then Inr (RecordVoteUnlocked e voter_uuid kDenied, True)
      else if has_error resp then Inr (RecordVoteUnlocked e voter_uuid kDenied, True)
      else if voter_uuid \<noteq> responder_uuid resp then Inr (RecordVoteUnlocked e voter_uuid kDenied, True)
      else if preelection (result e) \<and> \<not> response_preelection resp then
        Inr (HandleVoteDeniedUnlocked
               (e\<lparr>result := (result e)\<lparr>preelections_not_supported_by_uuid := voter_uuid\<rparr>\<rparr>) voter_uuid resp, True)
      else if vote_granted resp then Inr (HandleVoteGrantedUnlocked now e voter_uuid resp, True)
      else Inr (HandleVoteDeniedUnlocked e voter_uuid resp, True))"

text \<open>\<^verbatim>\<open>Run\<close> sends the request to the followers in turn until the election is decided.\<close>

definition Run_next :: "LeaderElection \<Rightarrow> string list \<Rightarrow> (string \<times> string list) option" where
  "Run_next e to_send =
     (case to_send of
        [] \<Rightarrow> None
      | voter_uuid # rest \<Rightarrow> if decided (result e) then None else Some (voter_uuid, rest))"

section \<open>Counters and votes\<close>

definition voted :: "VoteCounter \<Rightarrow> ElectionVote \<Rightarrow> string set" where
  "voted vc vote = {v. votes vc v = Some vote}"

definition counter_ok :: "RaftConfigPB \<Rightarrow> VoteCounter \<Rightarrow> bool" where
  "counter_ok config vc \<longleftrightarrow>
     raft_config_ok config \<and> dom (votes vc) \<subseteq> set (voters config) \<and>
     num_voters vc = CountVoters config \<and> majority_size vc = MajoritySize (CountVoters config) \<and>
     yes_votes vc = int (card (voted vc kGranted)) \<and> no_votes vc = int (card (voted vc kDenied)) \<and>
     voted vc kUnknown = {}"

lemma finite_voted: "dom (votes vc) \<subseteq> set (voters config) \<Longrightarrow> finite (voted vc vote)"
  by (rule finite_subset [of _ "set (voters config)"]) (auto simp: voted_def)

lemma votes_counted:
  assumes "counter_ok config vc"
  shows "GetTotalVotesCounted vc = int (card (dom (votes vc)))"
proof -
  have dom: "dom (votes vc) = voted vc kGranted \<union> voted vc kDenied"
  proof (intro equalityI subsetI)
    fix v assume "v \<in> dom (votes vc)"
    then obtain x where x: "votes vc v = Some x" by blast
    then have "x \<noteq> kUnknown" using assms by (auto simp: counter_ok_def voted_def)
    then show "v \<in> voted vc kGranted \<union> voted vc kDenied" using x by (cases x) (auto simp: voted_def)
  qed (auto simp: voted_def)
  have "card (voted vc kGranted \<union> voted vc kDenied) = card (voted vc kGranted) + card (voted vc kDenied)"
    using assms finite_voted by (intro card_Un_disjoint) (auto simp: counter_ok_def voted_def)
  then show ?thesis using assms by (simp add: GetTotalVotesCounted_def dom counter_ok_def)
qed

lemma votes_bounded:
  assumes "counter_ok config vc"
  shows "GetTotalVotesCounted vc \<le> num_voters vc"
    and "v \<in> set (voters config) \<Longrightarrow> votes vc v = None \<Longrightarrow> GetTotalVotesCounted vc < num_voters vc"
proof -
  have ok: "raft_config_ok config" and sub: "dom (votes vc) \<subseteq> set (voters config)"
    and n: "num_voters vc = int (card (set (voters config)))"
    using assms distinct_card [OF distinct_voters] CountVoters_eq by (auto simp: counter_ok_def)
  show "GetTotalVotesCounted vc \<le> num_voters vc"
    using votes_counted [OF assms] n card_mono [OF _ sub] by simp
  assume "v \<in> set (voters config)" "votes vc v = None"
  then have "dom (votes vc) \<subset> set (voters config)" using sub by blast
  then show "GetTotalVotesCounted vc < num_voters vc"
    using votes_counted [OF assms] n psubset_card_mono [OF finite_set] by simp
qed

lemma voted_insert:
  "votes vc v = None \<Longrightarrow> voted (vc\<lparr>votes := (votes vc)(v \<mapsto> x), yes_votes := y, no_votes := n\<rparr>) z =
     (if x = z then insert v (voted vc z) else voted vc z)"
  by (auto simp: voted_def)

lemma RegisterVote_new:
  assumes ok: "counter_ok config vc" and v: "v \<in> set (voters config)" "votes vc v = None" and x: "x \<noteq> kUnknown"
  shows "counter_ok config (fst (RegisterVote vc v x))" and "snd (RegisterVote vc v x) = Inr False"
    and "votes (fst (RegisterVote vc v x)) = (votes vc)(v \<mapsto> x)"
proof -
  have room: "yes_votes vc + no_votes vc \<noteq> num_voters vc"
    using votes_bounded(2) [OF ok v] by (simp add: GetTotalVotesCounted_def)
  have fin: "finite (voted vc z)" for z using finite_voted ok by (auto simp: counter_ok_def)
  have notin: "v \<notin> voted vc z" for z using v(2) by (simp add: voted_def)
  have reg: "RegisterVote vc v x = (if x = kGranted
      then (vc\<lparr>votes := (votes vc)(v \<mapsto> x), yes_votes := yes_votes vc + 1, no_votes := no_votes vc\<rparr>, Inr False)
      else (vc\<lparr>votes := (votes vc)(v \<mapsto> x), yes_votes := yes_votes vc, no_votes := no_votes vc + 1\<rparr>, Inr False))"
    using v(2) room x by (cases x) (simp_all add: RegisterVote_def)
  show "counter_ok config (fst (RegisterVote vc v x))"
    using ok v x fin notin unfolding reg
    by (cases x) (auto simp: counter_ok_def voted_insert [OF v(2)])
  show "snd (RegisterVote vc v x) = Inr False" "votes (fst (RegisterVote vc v x)) = (votes vc)(v \<mapsto> x)"
    unfolding reg by simp_all
qed

lemma RegisterVote_again: "votes vc v = Some x \<Longrightarrow> fst (RegisterVote vc v y) = vc"
  by (simp add: RegisterVote_def)

lemma RegisterVote_ok:
  assumes "counter_ok config vc" and "v \<in> set (voters config)" and "x \<noteq> kUnknown"
  shows "counter_ok config (fst (RegisterVote vc v x)) \<and> votes (fst (RegisterVote vc v x)) v \<noteq> None"
  using RegisterVote_new [OF assms(1,2) _ assms(3)] RegisterVote_again [of vc v] assms(1)
  by (cases "votes vc v") auto

lemma all_votes_decide:
  assumes "counter_ok config vc" and "\<forall>v\<in>set (voters config). votes vc v \<noteq> None"
  shows "GetDecision vc \<noteq> kUnknown"
proof -
  have "dom (votes vc) = set (voters config)" using assms by (auto simp: counter_ok_def)
  then have "yes_votes vc + no_votes vc = num_voters vc"
    using votes_counted [OF assms(1)] assms(1) distinct_card [OF distinct_voters] CountVoters_eq
    by (auto simp: counter_ok_def GetTotalVotesCounted_def)
  then show ?thesis by (auto simp: GetDecision_def)
qed

lemma granted_majority:
  assumes "counter_ok config vc" and "GetDecision vc = kGranted"
  shows "majority config (voted vc kGranted)"
  using assms by (auto simp: GetDecision_def majority_def counter_ok_def voted_def split: if_splits)

lemma decision_stable:
  assumes "counter_ok config vc" and "GetDecision vc = x" "x \<noteq> kUnknown" and "v \<in> set (voters config)" and "y \<noteq> kUnknown"
  shows "GetDecision (fst (RegisterVote vc v y)) = x"
proof (cases "votes vc v")
  case None
  have "counter_ok config (fst (RegisterVote vc v y))" using RegisterVote_new [OF assms(1,4) None assms(5)] by simp
  note bound = votes_bounded(1) [OF this, unfolded GetTotalVotesCounted_def]
  have "yes_votes vc + no_votes vc \<noteq> num_voters vc"
    using votes_bounded(2) [OF assms(1,4) None] by (simp add: GetTotalVotesCounted_def)
  with bound show ?thesis using assms(2,3,5) None
    by (cases y) (auto simp: RegisterVote_def GetDecision_def split: if_splits)
qed (use assms RegisterVote_again in auto)

section \<open>Runs of an election\<close>

text \<open>The counter and the election that \<^verbatim>\<open>CreateElectionUnlocked\<close> of \<^verbatim>\<open>raft_consensus.cc\<close> sets up.\<close>

definition start_election :: "RaftConfigPB \<Rightarrow> VoteRequestPB \<Rightarrow> bool \<Rightarrow> LeaderElection result" where
  "start_election config req p =
     verify_result (VoteCounter_new (CountVoters config) (MajoritySize (CountVoters config))) (\<lambda>counter.
       case RegisterVote counter (candidate_uuid req) kGranted of
         (counter1, Inl err) \<Rightarrow> Inl err
       | (counter1, Inr duplicate) \<Rightarrow>
           if duplicate then Inl Fatal else LeaderElection_new config req counter1 p)"

lemma election_followers_eq:
  "distinct (map permanent_uuid ps) \<Longrightarrow> set seen \<inter> permanent_uuid ` set ps = {} \<Longrightarrow>
    election_followers c seen ps =
      Inr (seen @ filter (\<lambda>u. u \<noteq> c) (map permanent_uuid (filter (\<lambda>p. member_type p = VOTER) ps)))"
  by (induction ps arbitrary: seen) auto

lemma length_filter_out:
  assumes "distinct xs" and "x \<in> set xs"
  shows "length xs = Suc (length (filter (\<lambda>u. u \<noteq> x) xs))"
proof -
  have "set (filter (\<lambda>u. u \<noteq> x) xs) = set xs - {x}" by auto
  then have "length (filter (\<lambda>u. u \<noteq> x) xs) = card (set xs - {x})"
    using distinct_card [of "filter (\<lambda>u. u \<noteq> x) xs"] assms(1) by simp
  then show ?thesis using card_Suc_Diff1 [OF finite_set assms(2)] distinct_card [OF assms(1)] by simp
qed

lemma start_election_ok:
  assumes ok: "raft_config_ok config" and c: "candidate_uuid req \<in> set (voters config)"
  shows "\<exists>e. start_election config req p = Inr e \<and> counter_ok config (vote_counter e) \<and>
    request e = req \<and> result e = ElectionResult_new p (candidate_term req) \<and>
    votes (vote_counter e) = (\<lambda>_. None)(candidate_uuid req \<mapsto> kGranted) \<and>
    voting_follower_uuids e = filter (\<lambda>u. u \<noteq> candidate_uuid req) (voters config) \<and> \<not> has_responded e"
proof -
  let ?n = "CountVoters config" and ?c = "candidate_uuid req"
  have n: "?n = int (length (voters config))" "?n > 0"
    using CountVoters_eq [OF ok] c by (cases "voters config"; simp)+
  let ?vc = "\<lparr>num_voters = ?n, majority_size = MajoritySize ?n, votes = (\<lambda>_. None), yes_votes = 0, no_votes = 0\<rparr>"
  have new: "VoteCounter_new ?n (MajoritySize ?n) = Inr ?vc"
    using n(2) by (simp add: VoteCounter_new_def MajoritySize_def)
  have "counter_ok config ?vc" using ok by (simp add: counter_ok_def voted_def)
  note reg = RegisterVote_new [OF this c, of kGranted, simplified]
  obtain vc1 where vc1: "RegisterVote ?vc ?c kGranted = (vc1, Inr False)" using reg(2) by (metis prod.collapse)
  have ok1: "counter_ok config vc1" and votes1: "votes vc1 = (\<lambda>_. None)(?c \<mapsto> kGranted)" using reg(1,3) vc1 by simp_all
  have total: "GetTotalVotesCounted vc1 = 1" using votes_counted [OF ok1] votes1 by simp
  have followers: "election_followers ?c [] (peers config) = Inr (filter (\<lambda>u. u \<noteq> ?c) (voters config))"
    using election_followers_eq [of "peers config" "[]" ?c] ok by (simp add: raft_config_ok_def voters_def)
  have "length (voters config) = Suc (length (filter (\<lambda>u. u \<noteq> ?c) (voters config)))"
    by (rule length_filter_out [OF distinct_voters [OF ok] c])
  then have "GetTotalVotesCounted vc1 + int (length (filter (\<lambda>u. u \<noteq> ?c) (voters config))) = num_voters vc1"
    using total ok1 n(1) by (simp add: counter_ok_def)
  then have "start_election config req p = Inr \<lparr>request = req, result = ElectionResult_new p (candidate_term req),
      vote_counter = vc1, voting_follower_uuids = filter (\<lambda>u. u \<noteq> ?c) (voters config), has_responded = False\<rparr>"
    using total followers by (simp add: start_election_def new vc1 LeaderElection_new_def)
  then show ?thesis using ok1 votes1 by simp
qed

text \<open>
  The state of a run: the election, the number of threads that have yet to run
  \<^verbatim>\<open>CheckForDecision\<close>, the voters whose answers (or errors) have been handled, and the calls of
  the callback. \<^verbatim>\<open>Run\<close> itself starts with a check.
\<close>

inductive election_run ::
    "RaftConfigPB \<Rightarrow> VoteRequestPB \<Rightarrow> bool \<Rightarrow> LeaderElection \<Rightarrow> nat \<Rightarrow> string set \<Rightarrow> ElectionResult list \<Rightarrow> bool"
  for config req p where
  start: "start_election config req p = Inr e \<Longrightarrow> election_run config req p e 1 {} []"
| answer: "election_run config req p e k answered calls \<Longrightarrow> v \<in> set (voting_follower_uuids e) \<Longrightarrow> v \<notin> answered \<Longrightarrow>
    VoteResponse now e v rpc_ok resp = Inr (e', check) \<Longrightarrow>
    election_run config req p e' (if check then Suc k else k) (insert v answered) calls"
| check: "election_run config req p e (Suc k) answered calls \<Longrightarrow> CheckForDecision e = (e', call) \<Longrightarrow>
    election_run config req p e' k answered (calls @ (case call of None \<Rightarrow> [] | Some r \<Rightarrow> [r]))"

definition election_ok :: "RaftConfigPB \<Rightarrow> LeaderElection \<Rightarrow> bool" where
  "election_ok config e \<longleftrightarrow>
     counter_ok config (vote_counter e) \<and>
     candidate_uuid (request e) \<in> set (voters config) \<and>
     set (voting_follower_uuids e) = set (voters config) - {candidate_uuid (request e)} \<and>
     votes (vote_counter e) (candidate_uuid (request e)) = Some kGranted \<and>
     (decision (result e) = kGranted \<longrightarrow> GetDecision (vote_counter e) = kGranted) \<and>
     (has_responded e \<longrightarrow> decided (result e))"

lemma decided_simps [simp]:
  "decided (r\<lparr>decision := x\<rparr>) \<longleftrightarrow> x \<noteq> kUnknown"
  "decided (r\<lparr>higher_term := y\<rparr>) = decided r"
  "decided (r\<lparr>preelections_not_supported_by_uuid := u\<rparr>) = decided r"
  "decision (update_leases now resp r) = decision r"
  "decided (update_leases now resp r) = decided r"
  by (simp_all add: decided_def update_leases_def Let_def split: option.splits)

lemma record_vote_ok:
  assumes ok: "election_ok config e" and v: "v \<in> set (voting_follower_uuids e)" and x: "x \<noteq> kUnknown"
  shows "election_ok config (RecordVoteUnlocked e v x)"
    and "votes (vote_counter (RecordVoteUnlocked e v x)) v \<noteq> None"
    and "votes (vote_counter e) u \<noteq> None \<Longrightarrow> votes (vote_counter (RecordVoteUnlocked e v x)) u = votes (vote_counter e) u"
proof -
  let ?vc = "vote_counter e"
  have c: "counter_ok config ?vc" and vv: "v \<in> set (voters config)" "v \<noteq> candidate_uuid (request e)"
    using ok v by (auto simp: election_ok_def)
  note reg = RegisterVote_ok [OF c vv(1) x]
  have keep: "votes (fst (RegisterVote ?vc v x)) u = votes ?vc u" if "votes ?vc u \<noteq> None" for u
    using that RegisterVote_new(3) [OF c vv(1) _ x] RegisterVote_again [of ?vc v] by (cases "votes ?vc v") auto
  have "GetDecision ?vc = kGranted \<Longrightarrow> GetDecision (fst (RegisterVote ?vc v x)) = kGranted"
    using decision_stable [OF c _ _ vv(1) x] by blast
  then show "election_ok config (RecordVoteUnlocked e v x)"
    using ok reg keep [of "candidate_uuid (request e)"] by (auto simp: election_ok_def RecordVoteUnlocked_def)
  show "votes (vote_counter (RecordVoteUnlocked e v x)) v \<noteq> None" using reg by (simp add: RecordVoteUnlocked_def)
  show "votes (vote_counter e) u \<noteq> None \<Longrightarrow> votes (vote_counter (RecordVoteUnlocked e v x)) u = votes (vote_counter e) u"
    using keep by (simp add: RecordVoteUnlocked_def)
qed

lemma record_vote_simps [simp]:
  "request (RecordVoteUnlocked e v x) = request e" "result (RecordVoteUnlocked e v x) = result e"
  "voting_follower_uuids (RecordVoteUnlocked e v x) = voting_follower_uuids e"
  "has_responded (RecordVoteUnlocked e v x) = has_responded e"
  by (simp_all add: RecordVoteUnlocked_def)

lemma election_ok_result:
  assumes "election_ok config e" and "decision r = decision (result e)"
  shows "election_ok config (e\<lparr>result := r\<rparr>)"
  using assms by (simp add: election_ok_def decided_def)

text \<open>What handling the answer of a voter does to an election.\<close>

definition answered_by :: "LeaderElection \<Rightarrow> string \<Rightarrow> bool \<Rightarrow> LeaderElection \<Rightarrow> bool" where
  "answered_by e v grant e' \<longleftrightarrow>
     request e' = request e \<and> voting_follower_uuids e' = voting_follower_uuids e \<and>
     has_responded e' = has_responded e \<and> preelection (result e') = preelection (result e) \<and>
     election_term (result e') = election_term (result e) \<and>
     (decided (result e) \<longrightarrow> decision (result e') = decision (result e)) \<and>
     (\<forall>u. votes (vote_counter e) u \<noteq> None \<longrightarrow> votes (vote_counter e') u = votes (vote_counter e) u) \<and>
     (\<not> decided (result e') \<longrightarrow> votes (vote_counter e') v \<noteq> None) \<and>
     (\<forall>u. votes (vote_counter e') u = Some kGranted \<longrightarrow>
        votes (vote_counter e) u = Some kGranted \<or> u = v \<and> grant)"

lemma update_leases_simps [simp]:
  "preelection (update_leases now resp r) = preelection r"
  "election_term (update_leases now resp r) = election_term r"
  by (simp_all add: update_leases_def Let_def split: option.splits)

lemma record_vote_votes:
  "votes (vote_counter (RecordVoteUnlocked e v x)) u = Some kGranted \<Longrightarrow>
     votes (vote_counter e) u = Some kGranted \<or> u = v \<and> x = kGranted"
  by (cases x) (auto simp: RecordVoteUnlocked_def RegisterVote_def Let_def split: option.splits if_splits)

lemma record_vote_answered:
  assumes ok: "election_ok config e" and v: "v \<in> set (voting_follower_uuids e)" and x: "x \<noteq> kUnknown"
    and r: "decision r = decision (result e)" "preelection r = preelection (result e)"
      "election_term r = election_term (result e)" and g: "x = kGranted \<longrightarrow> grant"
  shows "election_ok config (RecordVoteUnlocked (e\<lparr>result := r\<rparr>) v x)"
    and "answered_by e v grant (RecordVoteUnlocked (e\<lparr>result := r\<rparr>) v x)"
proof -
  let ?e = "e\<lparr>result := r\<rparr>"
  have ok': "election_ok config ?e" using election_ok_result [OF ok r(1)] .
  have v': "v \<in> set (voting_follower_uuids ?e)" using v by simp
  note R = record_vote_ok [OF ok' v' x]
  show "election_ok config (RecordVoteUnlocked ?e v x)" by (rule R(1))
  show "answered_by e v grant (RecordVoteUnlocked ?e v x)"
    using R(2,3) r g record_vote_votes [of ?e v x] unfolding answered_by_def by (auto simp: decided_def)
qed

lemma higher_term_answered:
  assumes "election_ok config e" and r: "decision r = decision (result e)" "preelection r = preelection (result e)"
      "election_term r = election_term (result e)"
  shows "election_ok config (HandleHigherTermUnlocked (e\<lparr>result := r\<rparr>) resp)"
    and "answered_by e v grant (HandleHigherTermUnlocked (e\<lparr>result := r\<rparr>) resp)"
  using assms by (auto simp: HandleHigherTermUnlocked_def answered_by_def election_ok_def decided_def)

lemma denied_answered:
  assumes "election_ok config e" and "v \<in> set (voting_follower_uuids e)"
    and "decision r = decision (result e)" "preelection r = preelection (result e)"
      "election_term r = election_term (result e)"
  shows "election_ok config (HandleVoteDeniedUnlocked (e\<lparr>result := r\<rparr>) v resp)"
    and "answered_by e v grant (HandleVoteDeniedUnlocked (e\<lparr>result := r\<rparr>) v resp)"
  using higher_term_answered [OF assms(1,3-5)] record_vote_answered [OF assms(1,2) _ assms(3-5), of kDenied]
  by (auto simp: HandleVoteDeniedUnlocked_def)

lemma VoteResponse_ok:
  assumes ok: "election_ok config e" and v: "v \<in> set (voting_follower_uuids e)"
  obtains e' check where "VoteResponse now e v rpc_ok resp = Inr (e', check)" and "election_ok config e'"
    and "if has_responded e then e' = e \<and> \<not> check
         else check \<and> answered_by e v (rpc_ok \<and> \<not> has_error resp \<and> responder_uuid resp = v \<and> vote_granted resp \<and>
           (preelection (result e) \<longrightarrow> response_preelection resp)) e'"
proof -
  let ?grant = "rpc_ok \<and> \<not> has_error resp \<and> responder_uuid resp = v \<and> vote_granted resp \<and>
    (preelection (result e) \<longrightarrow> response_preelection resp)"
  have same: "e\<lparr>result := result e\<rparr> = e" by simp
  note denied = record_vote_answered [OF ok v _ refl refl refl, of kDenied ?grant, unfolded same, simplified]
  note dn = denied_answered(1) [OF ok v refl refl refl, of resp, unfolded same]
    denied_answered(2) [OF ok v refl refl refl, of ?grant resp, unfolded same]
  let ?r = "(result e)\<lparr>preelections_not_supported_by_uuid := v\<rparr>"
  note deny' = denied_answered(1) [OF ok v, of ?r resp, simplified]
    denied_answered(2) [OF ok v, of ?r ?grant resp, simplified]
  show ?thesis
  proof (cases "has_responded e")
    case True
    then show ?thesis using ok by (intro that [of e False]) (simp_all add: VoteResponse_def)
  next
    case False
    consider (err) "\<not> rpc_ok \<or> has_error resp \<or> v \<noteq> responder_uuid resp"
      | (old) "rpc_ok" "\<not> has_error resp" "v = responder_uuid resp" "preelection (result e) \<and> \<not> response_preelection resp"
      | (grant) "rpc_ok" "\<not> has_error resp" "v = responder_uuid resp"
        "\<not> (preelection (result e) \<and> \<not> response_preelection resp)" "vote_granted resp"
      | (deny) "rpc_ok" "\<not> has_error resp" "v = responder_uuid resp"
        "\<not> (preelection (result e) \<and> \<not> response_preelection resp)" "\<not> vote_granted resp"
      by blast
    then show ?thesis
    proof cases
      case err
      then have "VoteResponse now e v rpc_ok resp = Inr (RecordVoteUnlocked e v kDenied, True)" using v False by (auto simp: VoteResponse_def)
      then show ?thesis using that denied unfolding if_not_P [OF False] by blast
    next
      case old
      then have "VoteResponse now e v rpc_ok resp = Inr (HandleVoteDeniedUnlocked (e\<lparr>result := ?r\<rparr>) v resp, True)"
        using v False by (auto simp: VoteResponse_def)
      then show ?thesis using that deny' unfolding if_not_P [OF False] by blast
    next
      case grant
      then have "VoteResponse now e v rpc_ok resp = Inr (HandleVoteGrantedUnlocked now e v resp, True)"
        using v False by (auto simp: VoteResponse_def)
      moreover have g: ?grant using grant by blast
      have "election_ok config (HandleVoteGrantedUnlocked now e v resp)"
        "answered_by e v ?grant (HandleVoteGrantedUnlocked now e v resp)"
        unfolding HandleVoteGrantedUnlocked_def by (rule record_vote_answered [OF ok v]; use g in simp)+
      ultimately show ?thesis using that unfolding if_not_P [OF False] by blast
    next
      case deny
      then have "VoteResponse now e v rpc_ok resp = Inr (HandleVoteDeniedUnlocked e v resp, True)"
        using v False by (auto simp: VoteResponse_def)
      then show ?thesis using that dn unfolding if_not_P [OF False] by blast
    qed
  qed
qed

lemma CheckForDecision_ok:
  assumes ok: "election_ok config e" and c: "CheckForDecision e = (e', call)"
  shows "election_ok config e'" and "vote_counter e' = vote_counter e" and "request e' = request e"
    and "voting_follower_uuids e' = voting_follower_uuids e"
    and "preelection (result e') = preelection (result e)" "election_term (result e') = election_term (result e)"
    and "has_responded e' \<longleftrightarrow> has_responded e \<or> call \<noteq> None"
    and "has_responded e \<Longrightarrow> e' = e \<and> call = None"
    and "call \<noteq> None \<Longrightarrow> call = Some (result e')"
    and "\<not> has_responded e' \<Longrightarrow> \<not> decided (result e') \<and> GetDecision (vote_counter e') = kUnknown"
proof -
  have same: "e\<lparr>result := result e\<rparr> = e" by simp
  define r where "r = (if \<not> decided (result e) \<and> GetDecision (vote_counter e) \<noteq> kUnknown
    then (result e)\<lparr>decision := GetDecision (vote_counter e)\<rparr> else result e)"
  have "decision (result e) = kGranted \<longrightarrow> GetDecision (vote_counter e) = kGranted"
    using ok unfolding election_ok_def by blast
  then have r: "preelection r = preelection (result e)" "election_term r = election_term (result e)"
    "decision r = kGranted \<Longrightarrow> GetDecision (vote_counter e) = kGranted"
    unfolding r_def by (simp_all split: if_splits)
  consider (responded) "has_responded e" "e' = e" "call = None"
    | (undecided) "\<not> has_responded e" "\<not> decided (result e)" "GetDecision (vote_counter e) = kUnknown" "e' = e" "call = None"
    | (new) "\<not> has_responded e" "decided r" "e' = e\<lparr>result := r, has_responded := True\<rparr>" "call = Some r"
  proof (cases "has_responded e")
    case True
    then have d: "decided (result e)" using ok unfolding election_ok_def by blast
    show ?thesis using that(1) [OF True] c True d unfolding CheckForDecision_def Let_def by simp
  next
    case False
    show ?thesis
    proof (cases "decided r")
      case True
      then show ?thesis using that(3) [OF False True] c False
        unfolding CheckForDecision_def Let_def r_def [symmetric] by simp
    next
      case F: False
      then have d: "\<not> decided (result e)" "GetDecision (vote_counter e) = kUnknown"
        unfolding r_def by (simp_all split: if_splits)
      then show ?thesis using that(2) [OF False d] c unfolding CheckForDecision_def Let_def by simp
    qed
  qed
  note cases = this
  show "election_ok config e'" using cases by cases (use ok r(3) in \<open>unfold election_ok_def, simp_all\<close>)
  show "vote_counter e' = vote_counter e" "request e' = request e" "voting_follower_uuids e' = voting_follower_uuids e"
    "preelection (result e') = preelection (result e)" "election_term (result e') = election_term (result e)"
    "has_responded e' \<longleftrightarrow> has_responded e \<or> call \<noteq> None"
    using cases by (cases; simp add: r)+
  show "has_responded e \<Longrightarrow> e' = e \<and> call = None" "call \<noteq> None \<Longrightarrow> call = Some (result e')"
    "\<not> has_responded e' \<Longrightarrow> \<not> decided (result e') \<and> GetDecision (vote_counter e') = kUnknown"
    using cases by (cases; simp)+
qed

definition run_ok :: "RaftConfigPB \<Rightarrow> LeaderElection \<Rightarrow> nat \<Rightarrow> string set \<Rightarrow> ElectionResult list \<Rightarrow> bool" where
  "run_ok config e k answered calls \<longleftrightarrow>
     election_ok config e \<and>
     calls = (if has_responded e then [result e] else []) \<and>
     (k = 0 \<longrightarrow> \<not> has_responded e \<longrightarrow> \<not> decided (result e) \<and> GetDecision (vote_counter e) = kUnknown) \<and>
     (\<not> decided (result e) \<longrightarrow> (\<forall>v\<in>answered. votes (vote_counter e) v \<noteq> None))"

lemma election_run_ok:
  assumes "election_run config req p e k answered calls" and "raft_config_ok config"
    and "candidate_uuid req \<in> set (voters config)"
  shows "run_ok config e k answered calls \<and> request e = req"
  using assms(1)
proof induction
  case (start e)
  then show ?case using start_election_ok [OF assms(2,3), of p] assms(3)
    by (auto simp: run_ok_def election_ok_def ElectionResult_new_def decided_def)
next
  case (answer e k answered calls v now rpc_ok resp e' check)
  then have ok: "election_ok config e" by (simp add: run_ok_def)
  let ?g = "rpc_ok \<and> \<not> has_error resp \<and> responder_uuid resp = v \<and> vote_granted resp \<and>
    (preelection (result e) \<longrightarrow> response_preelection resp)"
  obtain e2 check2 where V: "VoteResponse now e v rpc_ok resp = Inr (e2, check2)" "election_ok config e2"
    "if has_responded e then e2 = e \<and> \<not> check2 else check2 \<and> answered_by e v ?g e2"
    by (rule VoteResponse_ok [OF ok answer.hyps(2)])
  have eq: "e2 = e'" "check2 = check" using V(1) answer.hyps(4) by simp_all
  note R = V(2,3) [unfolded eq]
  have IH: "calls = (if has_responded e then [result e] else [])"
    "\<not> decided (result e) \<Longrightarrow> u \<in> answered \<Longrightarrow> votes (vote_counter e) u \<noteq> None" "request e = req" for u
    using answer.IH unfolding run_ok_def by blast+
  show ?case
  proof (cases "has_responded e")
    case True
    then have "e' = e" using R(2) by (simp only: if_True)
    moreover have "decided (result e)" using ok True unfolding election_ok_def by blast
    ultimately show ?thesis using ok True IH(1,3) unfolding run_ok_def by simp
  next
    case False
    then have g: "answered_by e v ?g e'" and c: "check" using R(2) by (simp_all only: if_False)
    have "votes (vote_counter e') u \<noteq> None" if "\<not> decided (result e')" "u \<in> insert v answered" for u
    proof (cases "u = v")
      case True
      then show ?thesis using g that(1) unfolding answered_by_def by blast
    next
      case F: False
      have "\<not> decided (result e)" using g that(1) unfolding answered_by_def decided_def by metis
      then have "votes (vote_counter e) u \<noteq> None" using IH(2) that(2) F by blast
      then show ?thesis using g unfolding answered_by_def by metis
    qed
    moreover have "has_responded e' = has_responded e" "request e' = request e"
      using g unfolding answered_by_def by blast+
    ultimately show ?thesis using R(1) False c IH(1,3) unfolding run_ok_def by simp
  qed
next
  case (check e k answered calls e' call)
  then have ok: "election_ok config e" unfolding run_ok_def by blast
  have IH: "calls = (if has_responded e then [result e] else [])"
    "\<not> decided (result e) \<Longrightarrow> u \<in> answered \<Longrightarrow> votes (vote_counter e) u \<noteq> None" "request e = req" for u
    using check.IH unfolding run_ok_def by blast+
  note C = CheckForDecision_ok [OF ok check.hyps(2)]
  show ?case
  proof (cases "has_responded e")
    case True
    then have e: "e' = e" "call = None" using C(8) by blast+
    have "decided (result e)" using ok True unfolding election_ok_def by blast
    then show ?thesis using ok True IH(1,3) unfolding run_ok_def e by simp
  next
    case False
    have "\<not> decided (result e') \<Longrightarrow> \<not> decided (result e)"
      using check.hyps(2) unfolding CheckForDecision_def Let_def by (auto split: if_splits)
    then have votes: "votes (vote_counter e') u \<noteq> None" if "\<not> decided (result e')" "u \<in> answered" for u
      using IH(2) that C(2) by simp
    have calls: "calls @ (case call of None \<Rightarrow> [] | Some r \<Rightarrow> [r]) = (if has_responded e' then [result e'] else [])"
      using C(7,9) False IH(1) by (cases call) simp_all
    show ?thesis using C(1,3,10) votes calls IH(3) unfolding run_ok_def by blast
  qed
qed

section \<open>Properties\<close>

text \<open>
  C5: the decision callback is called at most once, and it has been called exactly once when every
  voter has answered (or its call has failed) and no thread is about to check for the decision, in
  whatever order the answers and the checks are interleaved. No step of an election of a voter of
  a verified configuration fails.
\<close>

theorem election_decides_once:
  assumes "VerifyRaftConfig config COMMITTED_QUORUM = Inr ()" and "candidate_uuid req \<in> set (voters config)"
  shows "(\<exists>e. start_election config req p = Inr e) \<and>
    (election_run config req p e k answered calls \<longrightarrow>
       length calls \<le> 1 \<and>
       (k = 0 \<and> answered = set (voting_follower_uuids e) \<longrightarrow> length calls = 1) \<and>
       (v \<in> set (voting_follower_uuids e) \<longrightarrow> (\<exists>e' check. VoteResponse now e v rpc_ok resp = Inr (e', check))))"
proof (intro conjI impI)
  have ok: "raft_config_ok config" using assms(1) by (simp add: VerifyRaftConfig_iff)
  show "\<exists>e. start_election config req p = Inr e" using start_election_ok [OF ok assms(2)] by blast
  assume run: "election_run config req p e k answered calls"
  note R = election_run_ok [OF run ok assms(2)]
  then have calls: "calls = (if has_responded e then [result e] else [])" and e: "election_ok config e"
    unfolding run_ok_def by blast+
  show "length calls \<le> 1" using calls by simp
  show "\<exists>e' check. VoteResponse now e v rpc_ok resp = Inr (e', check)" if "v \<in> set (voting_follower_uuids e)"
    using VoteResponse_ok [OF e that] by blast
  show "length calls = 1" if all: "k = 0 \<and> answered = set (voting_follower_uuids e)"
  proof (rule ccontr)
    assume "length calls \<noteq> 1"
    then have no: "\<not> has_responded e" using calls by (simp split: if_splits)
    then have undecided: "\<not> decided (result e)" "GetDecision (vote_counter e) = kUnknown"
      using R all unfolding run_ok_def by blast+
    have "votes (vote_counter e) v \<noteq> None" if "v \<in> set (voters config)" for v
    proof (cases "v = candidate_uuid (request e)")
      case True
      then show ?thesis using e unfolding election_ok_def by simp
    next
      case False
      then have "v \<in> answered" using e that all unfolding election_ok_def by blast
      then show ?thesis using R undecided(1) unfolding run_ok_def by blast
    qed
    then show False using all_votes_decide [of config "vote_counter e"] undecided(2) e unfolding election_ok_def by blast
  qed
qed

text \<open>
  C6: an election is reported as won only when a majority of the voters of the configuration have
  granted their vote.
\<close>

theorem election_won_by_majority:
  assumes "raft_config_ok config" and "candidate_uuid req \<in> set (voters config)"
    and "election_run config req p e k answered calls" and "r \<in> set calls" and "decision r = kGranted"
  shows "majority config {v. votes (vote_counter e) v = Some kGranted}"
proof -
  have R: "run_ok config e k answered calls" using election_run_ok [OF assms(3,1,2)] by blast
  then have "r = result e" using assms(4) by (simp add: run_ok_def split: if_splits)
  then have "GetDecision (vote_counter e) = kGranted" "counter_ok config (vote_counter e)"
    using R assms(5) unfolding run_ok_def election_ok_def by blast+
  then show ?thesis using granted_majority unfolding voted_def by blast
qed

definition sample_request :: VoteRequestPB where
  "sample_request =
     \<lparr>candidate_uuid = ''a'', candidate_term = 5, ignore_live_leader = False, request_preelection = False,
      last_received = MinimumOpId\<rparr>"

definition sample_grant :: "string \<Rightarrow> VoteResponsePB" where
  "sample_grant uuid =
     \<lparr>responder_uuid = uuid, responder_term = 5, vote_granted = True, remaining_leader_lease_duration_ms = None,
      leader_lease_uuid = '''', leader_ht_lease_expiration = None, leader_ht_lease_uuid = '''',
      response_preelection = False, consensus_error = None, has_error = False\<rparr>"

definition sample_election :: "(string \<rightharpoonup> ElectionVote) \<Rightarrow> int \<Rightarrow> bool \<Rightarrow> LeaderElection" where
  "sample_election vs yes done =
     \<lparr>request = sample_request,
      result = (ElectionResult_new False 5)\<lparr>decision := (if done then kGranted else kUnknown)\<rparr>,
      vote_counter = \<lparr>num_voters = 3, majority_size = 2, votes = vs, yes_votes = yes, no_votes = 0\<rparr>,
      voting_follower_uuids = [''b'', ''c''], has_responded = done\<rparr>"

lemma sample_run:
  "election_run sample_config sample_request False
     (sample_election [''a'' \<mapsto> kGranted, ''b'' \<mapsto> kGranted] 2 True) 0 {''b'', ''c''}
     [(ElectionResult_new False 5)\<lparr>decision := kGranted\<rparr>]"
proof -
  let ?run = "election_run sample_config sample_request False"
  let ?e0 = "sample_election [''a'' \<mapsto> kGranted] 1 False"
  let ?e1 = "sample_election [''a'' \<mapsto> kGranted, ''b'' \<mapsto> kGranted] 2 False"
  let ?e2 = "sample_election [''a'' \<mapsto> kGranted, ''b'' \<mapsto> kGranted] 2 True"
  have count: "CountVoters sample_config = 3" using CountVoters_eq [OF sample_config_ok(2)] sample_config_ok(3) by simp
  have peers: "peers sample_config = [sample_peer ''a'', sample_peer ''b'', sample_peer ''c'']"
    "permanent_uuid (sample_peer u) = u" "member_type (sample_peer u) = VOTER" for u
    by (simp_all add: sample_config_def sample_peer_def permanent_uuid_def member_type_def)
  have "start_election sample_config sample_request False = Inr ?e0"
    by (simp add: start_election_def count MajoritySize_def VoteCounter_new_def RegisterVote_def sample_election_def
        LeaderElection_new_def GetTotalVotesCounted_def ElectionResult_new_def sample_request_def peers)
  then have run0: "?run ?e0 (Suc 0) {} []" using election_run.start by fastforce
  have "CheckForDecision ?e0 = (?e0, None)"
    by (simp add: CheckForDecision_def GetDecision_def sample_election_def decided_def ElectionResult_new_def Let_def)
  from election_run.check [OF run0 this] have run1: "?run ?e0 0 {} []" by simp
  have "VoteResponse 0 ?e0 ''b'' True (sample_grant ''b'') = Inr (?e1, True)"
    by (simp add: VoteResponse_def sample_election_def sample_grant_def HandleVoteGrantedUnlocked_def
        RecordVoteUnlocked_def RegisterVote_def update_leases_def ElectionResult_new_def)
  from election_run.answer [OF run1 _ _ this] have run2: "?run ?e1 (Suc 0) {''b''} []"
    by (simp add: sample_election_def)
  have "CheckForDecision ?e1 = (?e2, Some ((ElectionResult_new False 5)\<lparr>decision := kGranted\<rparr>))"
    by (simp add: CheckForDecision_def GetDecision_def sample_election_def decided_def ElectionResult_new_def Let_def)
  from election_run.check [OF run2 this]
  have run3: "?run ?e2 0 {''b''} [(ElectionResult_new False 5)\<lparr>decision := kGranted\<rparr>]" by simp
  have "VoteResponse 0 ?e2 ''c'' False (sample_grant ''c'') = Inr (?e2, False)"
    by (simp add: VoteResponse_def sample_election_def)
  from election_run.answer [OF run3 _ _ this] show ?thesis
    by (simp add: sample_election_def insert_commute)
qed

theorem election_decides_once_witness:
  "\<exists>e calls. election_run sample_config sample_request False e 0 {''b'', ''c''} calls \<and> length calls = 1"
proof -
  have cand: "candidate_uuid sample_request \<in> set (voters sample_config)"
    by (simp add: sample_request_def sample_config_ok)
  let ?e = "sample_election [''a'' \<mapsto> kGranted, ''b'' \<mapsto> kGranted] 2 True"
  let ?calls = "[(ElectionResult_new False 5)\<lparr>decision := kGranted\<rparr>]"
  have all: "{''b'', ''c''} = set (voting_follower_uuids ?e)" by (simp add: sample_election_def)
  have "length ?calls = 1"
    by (rule election_decides_once [OF sample_config_ok(1) cand, THEN conjunct2, THEN mp, OF sample_run,
          THEN conjunct2, THEN conjunct1, THEN mp, OF conjI [OF refl all]])
  then show ?thesis using sample_run by blast
qed

theorem election_won_by_majority_witness:
  "majority sample_config {v. votes (vote_counter (sample_election [''a'' \<mapsto> kGranted, ''b'' \<mapsto> kGranted] 2 True)) v = Some kGranted}"
  by (rule election_won_by_majority [OF sample_config_ok(2) _ sample_run, of "(ElectionResult_new False 5)\<lparr>decision := kGranted\<rparr>"])
    (simp_all add: sample_request_def sample_config_ok)

end
