(* ===== verification/Raft_Replica.thy ===== *)
theory Raft_Replica
  imports Leader_Election
begin

text \<open>
  A replica of a tablet as far as elections are concerned: the consensus metadata of
  \<^verbatim>\<open>src/src/yb/consensus/consensus_meta.cc\<close>, the term and vote handling of
  \<^verbatim>\<open>src/src/yb/consensus/replica_state.cc\<close>, and the vote, election and term logic of
  \<^verbatim>\<open>src/src/yb/consensus/raft_consensus.cc\<close>. Each function runs under the lock of the replica
  state, so it is a function of the state of the replica. The log, the failure detector and the
  peer queue are not modelled: what the code reads from them (the last operation, the committed
  index, the outcome of the log matching check, the readings of the clocks) are arguments, and
  writing the metadata to disk succeeds when its own sanity check does.
\<close>

section \<open>Consensus metadata\<close>

record ConsensusMetadata =
  cm_peer_uuid :: string
  cm_current_term :: int
  cm_voted_for :: "string option"
  cm_committed_config :: RaftConfigPB
  cm_pending_config :: "RaftConfigPB option"
  cm_leader_uuid :: string
  cm_active_role :: Role

datatype ConsensusConfigType = CONSENSUS_CONFIG_UNKNOWN | CONSENSUS_CONFIG_COMMITTED | CONSENSUS_CONFIG_ACTIVE

definition active_config :: "ConsensusMetadata \<Rightarrow> RaftConfigPB" where
  "active_config cm = (case cm_pending_config cm of Some c \<Rightarrow> c | None \<Rightarrow> cm_committed_config cm)"

definition ToConsensusStatePB :: "ConsensusMetadata \<Rightarrow> ConsensusConfigType \<Rightarrow> ConsensusStatePB result" where
  "ToConsensusStatePB cm type =
     (case type of
        CONSENSUS_CONFIG_UNKNOWN \<Rightarrow> Inl Fatal
      | CONSENSUS_CONFIG_ACTIVE \<Rightarrow>
          Inr \<lparr>current_term_field = Some (cm_current_term cm), leader_uuid_field = Some (cm_leader_uuid cm),
               config_field = Some (active_config cm)\<rparr>
      | CONSENSUS_CONFIG_COMMITTED \<Rightarrow>
          Inr \<lparr>current_term_field = Some (cm_current_term cm),
               leader_uuid_field =
                 (if IsRaftConfigVoter (cm_leader_uuid cm) (cm_committed_config cm) then Some (cm_leader_uuid cm) else None),
               config_field = Some (cm_committed_config cm)\<rparr>)"

definition UpdateActiveRole :: "ConsensusMetadata \<Rightarrow> ConsensusMetadata" where
  "UpdateActiveRole cm =
     (case ToConsensusStatePB cm CONSENSUS_CONFIG_ACTIVE of
        Inr cstate \<Rightarrow> cm\<lparr>cm_active_role := GetConsensusRole (cm_peer_uuid cm) cstate\<rparr>
      | Inl _ \<Rightarrow> cm)"

definition set_leader_uuid :: "ConsensusMetadata \<Rightarrow> string \<Rightarrow> ConsensusMetadata" where
  "set_leader_uuid cm uuid = UpdateActiveRole (cm\<lparr>cm_leader_uuid := uuid\<rparr>)"

definition set_committed_config :: "ConsensusMetadata \<Rightarrow> RaftConfigPB \<Rightarrow> ConsensusMetadata" where
  "set_committed_config cm config =
     (let cm1 = cm\<lparr>cm_committed_config := config\<rparr>
      in if cm_pending_config cm1 = None then UpdateActiveRole cm1 else cm1)"

definition clear_pending_config :: "ConsensusMetadata \<Rightarrow> ConsensusMetadata" where
  "clear_pending_config cm = UpdateActiveRole (cm\<lparr>cm_pending_config := None\<rparr>)"

definition set_pending_config :: "ConsensusMetadata \<Rightarrow> RaftConfigPB \<Rightarrow> ConsensusMetadata" where
  "set_pending_config cm config = UpdateActiveRole (cm\<lparr>cm_pending_config := Some config\<rparr>)"

definition MergeCommittedConsensusStatePB :: "ConsensusMetadata \<Rightarrow> ConsensusStatePB \<Rightarrow> ConsensusMetadata" where
  "MergeCommittedConsensusStatePB cm cstate =
     (let t = case_option 0 id (current_term_field cstate);
          cm1 = (if t > cm_current_term cm then cm\<lparr>cm_current_term := t, cm_voted_for := None\<rparr> else cm);
          cm2 = set_leader_uuid cm1 '''';
          cm3 = set_committed_config cm2 (cstate_config cstate)
      in clear_pending_config cm3)"

text \<open>The sanity check of \<^verbatim>\<open>Flush\<close>; what follows it is file output.\<close>

definition Flush :: "ConsensusMetadata \<Rightarrow> unit result" where
  "Flush cm = VerifyRaftConfig (cm_committed_config cm) COMMITTED_QUORUM"

text \<open>What \<^verbatim>\<open>Load\<close> reads back after a restart: the term, the vote and the committed configuration.\<close>

definition Load :: "ConsensusMetadata \<Rightarrow> ConsensusMetadata" where
  "Load cm = UpdateActiveRole
     \<lparr>cm_peer_uuid = cm_peer_uuid cm, cm_current_term = cm_current_term cm, cm_voted_for = cm_voted_for cm,
      cm_committed_config = cm_committed_config cm, cm_pending_config = None, cm_leader_uuid = '''',
      cm_active_role = UNKNOWN_ROLE\<rparr>"

section \<open>The replica\<close>

text \<open>\<^verbatim>\<open>MonoTime\<close> is a count of nanoseconds.\<close>

definition MonoTime_Min :: int where
  "MonoTime_Min = 1"

definition MonoTime_Max :: int where
  "MonoTime_Max = 2 ^ 63 - 1"

record RaftConsensus =
  running :: bool
  cmeta :: ConsensusMetadata
  withhold_votes_until :: int
  last_logged_opid :: OpId
  last_received_opid :: OpId
  pending_election_opid :: OpIdPB
  replica_old_leader_lease :: CoarseTimeLease
  replica_old_leader_ht_lease :: PhysicalComponentLease

abbreviation current_term :: "RaftConsensus \<Rightarrow> int" where
  "current_term r \<equiv> cm_current_term (cmeta r)"

abbreviation active_role :: "RaftConsensus \<Rightarrow> Role" where
  "active_role r \<equiv> cm_active_role (cmeta r)"

abbreviation leader_uuid :: "RaftConsensus \<Rightarrow> string" where
  "leader_uuid r \<equiv> cm_leader_uuid (cmeta r)"

definition LockForConfigChange :: "RaftConsensus \<Rightarrow> unit result" where
  "LockForConfigChange r = (if running r then Inr () else Inl (Status IllegalState))"

definition SetLeaderUuidUnlocked :: "RaftConsensus \<Rightarrow> string \<Rightarrow> RaftConsensus" where
  "SetLeaderUuidUnlocked r uuid = r\<lparr>cmeta := set_leader_uuid (cmeta r) uuid\<rparr>"

definition SetCurrentTermUnlocked :: "RaftConsensus \<Rightarrow> int \<Rightarrow> RaftConsensus result" where
  "SetCurrentTermUnlocked r new_term =
     (if new_term \<le> current_term r then Inl (Status IllegalState)
      else
        let cm = (cmeta r)\<lparr>cm_current_term := new_term, cm_voted_for := None\<rparr>
        in case Flush cm of
             Inl _ \<Rightarrow> Inl Fatal
           | Inr _ \<Rightarrow> Inr (SetLeaderUuidUnlocked (r\<lparr>cmeta := cm\<rparr>) ''''))"

definition SetVotedForCurrentTermUnlocked :: "RaftConsensus \<Rightarrow> string \<Rightarrow> RaftConsensus result" where
  "SetVotedForCurrentTermUnlocked r uuid =
     (let cm = (cmeta r)\<lparr>cm_voted_for := Some uuid\<rparr>
      in case Flush cm of
           Inl _ \<Rightarrow> Inl Fatal
         | Inr _ \<Rightarrow> Inr (r\<lparr>cmeta := cm\<rparr>))"

definition BecomeReplicaUnlocked :: "RaftConsensus \<Rightarrow> RaftConsensus" where
  "BecomeReplicaUnlocked r = (SetLeaderUuidUnlocked r '''')\<lparr>withhold_votes_until := MonoTime_Min\<rparr>"

definition BecomeLeaderUnlocked :: "RaftConsensus \<Rightarrow> RaftConsensus" where
  "BecomeLeaderUnlocked r = r\<lparr>withhold_votes_until := MonoTime_Max\<rparr>"

definition HandleTermAdvanceUnlocked :: "RaftConsensus \<Rightarrow> int \<Rightarrow> RaftConsensus result" where
  "HandleTermAdvanceUnlocked r new_term =
     (if new_term \<le> current_term r then Inl (Status IllegalState)
      else
        let r1 = (if active_role r = LEADER then BecomeReplicaUnlocked r else r)
        in SetCurrentTermUnlocked r1 new_term)"

text \<open>The addition overflows at the largest \<^verbatim>\<open>int64_t\<close>.\<close>

definition next_term :: "RaftConsensus \<Rightarrow> int result" where
  "next_term r = (if current_term r + 1 < 2 ^ 63 then Inr (current_term r + 1) else Inl Undefined)"

definition IncrementTermUnlocked :: "RaftConsensus \<Rightarrow> RaftConsensus result" where
  "IncrementTermUnlocked r = verify_result (next_term r) (HandleTermAdvanceUnlocked r)"

section \<open>Voting\<close>

text \<open>The remaining lease of the old leader, in nanoseconds; an expired lease is reset.\<close>

definition RemainingOldLeaderLeaseDuration :: "int \<Rightarrow> RaftConsensus \<Rightarrow> RaftConsensus \<times> int option" where
  "RemainingOldLeaderLeaseDuration now r =
     (let lease = replica_old_leader_lease r in
      if expiration lease = coarse_none then (r, None)
      else if now > expiration lease then (r\<lparr>replica_old_leader_lease := CoarseTimeLease_default\<rparr>, None)
      else (r, Some (expiration lease - now)))"

definition UpdateOldLeaderLeaseExpirationOnNonLeaderUnlocked ::
    "RaftConsensus \<Rightarrow> CoarseTimeLease \<Rightarrow> PhysicalComponentLease \<Rightarrow> RaftConsensus" where
  "UpdateOldLeaderLeaseExpirationOnNonLeaderUnlocked r lease ht_lease =
     r\<lparr>replica_old_leader_lease := TryUpdate (replica_old_leader_lease r) lease,
       replica_old_leader_ht_lease := TryUpdate (replica_old_leader_ht_lease r) ht_lease\<rparr>"

definition new_response :: "RaftConsensus \<Rightarrow> VoteRequestPB \<Rightarrow> VoteResponsePB" where
  "new_response r req =
     \<lparr>responder_uuid = cm_peer_uuid (cmeta r), responder_term = 0, vote_granted = False,
      remaining_leader_lease_duration_ms = None, leader_lease_uuid = '''', leader_ht_lease_expiration = None,
      leader_ht_lease_uuid = '''', response_preelection = request_preelection req, consensus_error = None,
      has_error = False\<rparr>"

definition FillVoteResponseVoteGranted :: "VoteRequestPB \<Rightarrow> VoteResponsePB \<Rightarrow> VoteResponsePB" where
  "FillVoteResponseVoteGranted req resp =
     resp\<lparr>responder_term := candidate_term req, vote_granted := True\<rparr>"

definition FillVoteResponseVoteDenied :: "RaftConsensus \<Rightarrow> ConsensusError \<Rightarrow> VoteResponsePB \<Rightarrow> VoteResponsePB" where
  "FillVoteResponseVoteDenied r code resp =
     resp\<lparr>responder_term := current_term r, vote_granted := False, consensus_error := Some code\<rparr>"

definition fill_leases :: "int \<Rightarrow> RaftConsensus \<Rightarrow> VoteResponsePB \<Rightarrow> RaftConsensus \<times> VoteResponsePB" where
  "fill_leases now r resp =
     (let (r1, remaining) = RemainingOldLeaderLeaseDuration now r;
          resp1 = (case remaining of
                     Some ns \<Rightarrow> resp\<lparr>remaining_leader_lease_duration_ms := Some (ns div 1000000),
                                     leader_lease_uuid := holder_uuid (replica_old_leader_lease r1)\<rparr>
                   | None \<Rightarrow> resp);
          ht = replica_old_leader_ht_lease r1
      in (r1, if expiration ht \<noteq> micros_none
              then resp1\<lparr>leader_ht_lease_expiration := Some (expiration ht), leader_ht_lease_uuid := holder_uuid ht\<rparr>
              else resp1))"

definition RequestVoteRespondVoteGranted ::
    "RaftConsensus \<Rightarrow> VoteRequestPB \<Rightarrow> VoteResponsePB \<Rightarrow> (RaftConsensus \<times> VoteResponsePB) result" where
  "RequestVoteRespondVoteGranted r req resp =
     verify_result (SetVotedForCurrentTermUnlocked r (candidate_uuid req)) (\<lambda>r1.
       Inr (r1, FillVoteResponseVoteGranted req resp))"

text \<open>The end of \<^verbatim>\<open>RequestVote\<close>, after the checks of the term: the log of the candidate, leases, the vote.\<close>

definition consider_vote ::
    "int \<Rightarrow> RaftConsensus \<Rightarrow> VoteRequestPB \<Rightarrow> VoteResponsePB \<Rightarrow> (RaftConsensus \<times> VoteResponsePB) result" where
  "consider_vote now r req resp =
     (if OpIdLessThan (last_received req) (OpId_ToPB (last_logged_opid r))
      then Inr (r, FillVoteResponseVoteDenied r LAST_OPID_TOO_OLD resp)
      else
        let r1 = (if request_preelection req then r
                  else r\<lparr>pending_election_opid := \<lparr>pb_term = None, pb_index = None\<rparr>\<rparr>);
            (r2, resp1) = fill_leases now r1 resp
        in if request_preelection req then Inr (r2, FillVoteResponseVoteGranted req resp1)
           else RequestVoteRespondVoteGranted r2 req resp1)"

text \<open>
  \<^verbatim>\<open>RequestVote\<close>. The argument \<open>busy\<close> says that the update lock is taken and failure detection
  is enabled; \<open>now\<close> is the reading of the monotonic clock and \<open>coarse_now\<close> that of the coarse one.
\<close>

definition RequestVote ::
    "bool \<Rightarrow> int \<Rightarrow> int \<Rightarrow> RaftConsensus \<Rightarrow> VoteRequestPB \<Rightarrow> (RaftConsensus \<times> VoteResponsePB) result" where
  "RequestVote busy now coarse_now r req =
     (let resp = new_response r req in
      verify_result (LockForConfigChange r) (\<lambda>_.
        if busy then Inr (r, FillVoteResponseVoteDenied r CONSENSUS_BUSY resp)
        else if candidate_uuid req \<noteq> leader_uuid r \<and> \<not> ignore_live_leader req \<and> now < withhold_votes_until r
        then Inr (r, FillVoteResponseVoteDenied r LEADER_IS_ALIVE resp)
        else if candidate_term req < current_term r
        then Inr (r, FillVoteResponseVoteDenied r INVALID_TERM resp)
        else if candidate_term req = current_term r \<and> cm_voted_for (cmeta r) \<noteq> None then
          (if cm_voted_for (cmeta r) = Some (candidate_uuid req)
           then Inr (r, FillVoteResponseVoteGranted req resp)
           else Inr (r, FillVoteResponseVoteDenied r ALREADY_VOTED resp))
        else if candidate_term req > current_term r \<and> \<not> request_preelection req then
          verify_result (HandleTermAdvanceUnlocked r (candidate_term req)) (\<lambda>r1. consider_vote coarse_now r1 req resp)
        else consider_vote coarse_now r req resp))"

section \<open>Starting an election\<close>

record LeaderElectionData =
  even_if_leader_is_alive :: bool
  pending_commit :: bool
  must_be_committed_opid :: OpIdPB

definition CreateElectionUnlocked ::
    "RaftConsensus \<Rightarrow> LeaderElectionData \<Rightarrow> bool \<Rightarrow> (RaftConsensus \<times> LeaderElection) result" where
  "CreateElectionUnlocked r data p =
     verify_result
       (if p then verify_result (next_term r) (\<lambda>t. Inr (r, t))
        else
          verify_result (IncrementTermUnlocked r) (\<lambda>r1.
            verify_result (SetVotedForCurrentTermUnlocked r1 (cm_peer_uuid (cmeta r1))) (\<lambda>r2.
              Inr (r2, current_term r2))))
       (\<lambda>(r1, new_term).
          let req = \<lparr>candidate_uuid = cm_peer_uuid (cmeta r1), candidate_term = new_term,
                     ignore_live_leader = even_if_leader_is_alive data, request_preelection = p,
                     last_received = OpId_ToPB (last_received_opid r1)\<rparr>
          in verify_result (start_election (active_config (cmeta r1)) req p) (\<lambda>e.
               Inr (if p then r1 else r1\<lparr>pending_election_opid := \<lparr>pb_term = None, pb_index = None\<rparr>\<rparr>, e)))"

text \<open>
  \<^verbatim>\<open>DoStartElection\<close> up to \<^verbatim>\<open>election->Run()\<close>. The argument \<open>use_preelection\<close> says that
  pre-elections are enabled now, \<open>committed_index\<close> is the index of the committed operation after the
  attempt to advance it.
\<close>

definition DoStartElection ::
    "bool \<Rightarrow> int \<Rightarrow> RaftConsensus \<Rightarrow> LeaderElectionData \<Rightarrow> bool \<Rightarrow> (RaftConsensus \<times> LeaderElection option) result" where
  "DoStartElection use_preelection committed_index r data preelected =
     verify_result (LockForConfigChange r) (\<lambda>_.
       if active_role r = LEADER then Inr (r, None)
       else if active_role r = LEARNER \<or> active_role r = READ_REPLICA then Inr (r, None)
       else if active_role r = NON_PARTICIPANT then Inl (Status IllegalState)
       else
         let required_id = (if IsInitialized (must_be_committed_opid data) then must_be_committed_opid data
                            else pending_election_opid r);
             start_now = (if pending_commit data then get_index required_id \<le> committed_index else True)
         in if start_now then
              verify_result (CreateElectionUnlocked r data (use_preelection \<and> \<not> preelected)) (\<lambda>(r1, e). Inr (r1, Some e))
            else if pending_commit data \<and> IsInitialized (must_be_committed_opid data)
            then Inr (r\<lparr>pending_election_opid := must_be_committed_opid data\<rparr>, None)
            else Inr (r, None))"

text \<open>
  \<^verbatim>\<open>DoElectionCallback\<close>: the replica after it, and the election it starts when a pre-election was
  won. Errors of the term advance and of the new election are logged and dropped.
\<close>

definition DoElectionCallback ::
    "bool \<Rightarrow> int \<Rightarrow> RaftConsensus \<Rightarrow> LeaderElectionData \<Rightarrow> ElectionResult \<Rightarrow> (RaftConsensus \<times> LeaderElection option) result" where
  "DoElectionCallback use_preelection committed_index r data res =
     (if decision res = kDenied then
        (case higher_term res of
           None \<Rightarrow> Inr (r, None)
         | Some t \<Rightarrow>
             (case verify_result (LockForConfigChange r) (\<lambda>_. HandleTermAdvanceUnlocked r t) of
                Inl (Status _) \<Rightarrow> Inr (r, None)
              | Inl e \<Rightarrow> Inl e
              | Inr r1 \<Rightarrow> Inr (r1, None)))
      else if LockForConfigChange r \<noteq> Inr () then Inr (r, None)
      else if election_term res \<noteq> current_term r + (if preelection res then 1 else 0) then Inr (r, None)
      else if \<not> IsRaftConfigVoter (cm_peer_uuid (cmeta r)) (active_config (cmeta r)) then Inr (r, None)
      else if preelection res then
        (case DoStartElection use_preelection committed_index r data True of
           Inl (Status _) \<Rightarrow> Inr (r, None)
         | Inl e \<Rightarrow> Inl e
         | Inr x \<Rightarrow> Inr x)
      else if active_role r = LEADER then Inr (r, None)
      else
        let r1 = UpdateOldLeaderLeaseExpirationOnNonLeaderUnlocked r (old_leader_lease res) (old_leader_ht_lease res);
            r2 = SetLeaderUuidUnlocked r1 (cm_peer_uuid (cmeta r1))
        in Inr (BecomeLeaderUnlocked r2, None))"

section \<open>Requests of a leader\<close>

text \<open>The term check: the replica, and whether the request was rejected.\<close>

definition HandleLeaderRequestTermUnlocked :: "RaftConsensus \<Rightarrow> int \<Rightarrow> (RaftConsensus \<times> bool) result" where
  "HandleLeaderRequestTermUnlocked r caller_term =
     (if caller_term = current_term r then Inr (r, False)
      else if caller_term < current_term r then Inr (r, True)
      else verify_result (HandleTermAdvanceUnlocked r caller_term) (\<lambda>r1. Inr (r1, False)))"

text \<open>
  \<^verbatim>\<open>CheckLeaderRequestUnlocked\<close> on a request whose operations are in sequence: the term check, the
  checks of the operations against the log (\<open>log_matches\<close> says that they pass), and the acceptance
  of the caller as leader, with the check that the process dies of. When the operations do not pass,
  the caller is told, in the response or by a status, and the replica keeps its leader.
\<close>

definition CheckLeaderRequestUnlocked :: "bool \<Rightarrow> RaftConsensus \<Rightarrow> string \<Rightarrow> int \<Rightarrow> RaftConsensus result" where
  "CheckLeaderRequestUnlocked log_matches r caller_uuid caller_term =
     verify_result (HandleLeaderRequestTermUnlocked r caller_term) (\<lambda>(r1, rejected).
       if rejected \<or> \<not> log_matches then Inr r1
       else if leader_uuid r1 \<noteq> '''' \<and> leader_uuid r1 \<noteq> caller_uuid then Inl Fatal
       else if leader_uuid r1 = '''' then Inr (SetLeaderUuidUnlocked r1 caller_uuid)
       else Inr r1)"

end
