(* ===== verification/Raft_Handlers.thy ===== *)
theory Raft_Handlers
  imports Raft_Replica
begin

text \<open>
  What each handler of \<open>Raft_Replica\<close> does to the part of a replica that elections depend on (the
  term, the vote given in it and the leader known), for a replica with a fixed verified
  configuration: it votes at most once in a term, a term never goes back, and a term that advances
  forgets the vote and the leader. No handler fails in a check.
\<close>

section \<open>Operations of a replica\<close>

definition replica_ok :: "RaftConfigPB \<Rightarrow> string \<Rightarrow> RaftConsensus \<Rightarrow> bool" where
  "replica_ok config u r \<longleftrightarrow>
     cm_peer_uuid (cmeta r) = u \<and> cm_committed_config (cmeta r) = config \<and> cm_pending_config (cmeta r) = None \<and>
     UpdateActiveRole (cmeta r) = cmeta r"

text \<open>What an election depends on: the term, the vote in it, the leader known.\<close>

definition vote_state :: "RaftConsensus \<Rightarrow> int \<times> string option \<times> string" where
  "vote_state r = (current_term r, cm_voted_for (cmeta r), leader_uuid r)"

lemma UpdateActiveRole_eq:
  "UpdateActiveRole cm = cm\<lparr>cm_active_role := GetConsensusRole (cm_peer_uuid cm)
     \<lparr>current_term_field = Some (cm_current_term cm), leader_uuid_field = Some (cm_leader_uuid cm),
      config_field = Some (active_config cm)\<rparr>\<rparr>"
  by (simp add: UpdateActiveRole_def ToConsensusStatePB_def)

lemma active_config_simps [simp]:
  "active_config (cm\<lparr>cm_active_role := x\<rparr>) = active_config cm"
  "active_config (cm\<lparr>cm_leader_uuid := l\<rparr>) = active_config cm"
  "active_config (cm\<lparr>cm_voted_for := w\<rparr>) = active_config cm"
  "active_config (cm\<lparr>cm_current_term := t\<rparr>) = active_config cm"
  "cm_pending_config cm = None \<Longrightarrow> active_config cm = cm_committed_config cm"
  by (cases "cm_pending_config cm"; simp add: active_config_def)+

lemma UpdateActiveRole_simps [simp]:
  "cm_peer_uuid (UpdateActiveRole cm) = cm_peer_uuid cm" "cm_current_term (UpdateActiveRole cm) = cm_current_term cm"
  "cm_voted_for (UpdateActiveRole cm) = cm_voted_for cm" "cm_committed_config (UpdateActiveRole cm) = cm_committed_config cm"
  "cm_pending_config (UpdateActiveRole cm) = cm_pending_config cm" "cm_leader_uuid (UpdateActiveRole cm) = cm_leader_uuid cm"
  "UpdateActiveRole (UpdateActiveRole cm) = UpdateActiveRole cm"
  by (simp_all add: UpdateActiveRole_eq)

lemma GetConsensusRole_term:
  "GetConsensusRole u \<lparr>current_term_field = t, leader_uuid_field = l, config_field = c\<rparr> =
   GetConsensusRole u \<lparr>current_term_field = t', leader_uuid_field = l, config_field = c\<rparr>"
  by (simp add: GetConsensusRole_def cstate_leader_uuid_def cstate_config_def)

lemma role_fixed:
  "UpdateActiveRole cm = cm \<longleftrightarrow> cm_active_role cm = GetConsensusRole (cm_peer_uuid cm)
     \<lparr>current_term_field = None, leader_uuid_field = Some (cm_leader_uuid cm),
      config_field = Some (active_config cm)\<rparr>"
proof -
  have "UpdateActiveRole cm = cm\<lparr>cm_active_role := x\<rparr> \<Longrightarrow> UpdateActiveRole cm = cm \<longleftrightarrow> cm_active_role cm = x" for x
    by (cases cm) auto
  from this [OF UpdateActiveRole_eq] show ?thesis
    unfolding GetConsensusRole_term [of _ "Some (cm_current_term cm)" _ _ None] .
qed

lemma leader_is_self:
  assumes "replica_ok config u r" and "active_role r = LEADER"
  shows "leader_uuid r = u" and "IsRaftConfigVoter u config"
proof -
  have "GetConsensusRole u \<lparr>current_term_field = None, leader_uuid_field = Some (leader_uuid r), config_field = Some config\<rparr> = LEADER"
    using assms by (auto simp: replica_ok_def role_fixed)
  moreover have "role_of_member m \<noteq> LEADER" for m by (cases m) simp_all
  ultimately show "leader_uuid r = u" "IsRaftConfigVoter u config"
    by (auto simp: GetConsensusRole_def cstate_leader_uuid_def cstate_config_def split: if_splits option.splits)
qed

lemma Flush_ok: "VerifyRaftConfig (cm_committed_config cm) COMMITTED_QUORUM = Inr () \<Longrightarrow> Flush cm = Inr ()"
  by (simp add: Flush_def)

lemma SetLeaderUuid_ok:
  assumes "replica_ok config u r"
  shows "replica_ok config u (SetLeaderUuidUnlocked r l)"
    and "vote_state (SetLeaderUuidUnlocked r l) = (current_term r, cm_voted_for (cmeta r), l)"
  using assms by (simp_all add: replica_ok_def SetLeaderUuidUnlocked_def set_leader_uuid_def vote_state_def)

lemma BecomeReplica_ok:
  assumes "replica_ok config u r"
  shows "replica_ok config u (BecomeReplicaUnlocked r)"
    and "vote_state (BecomeReplicaUnlocked r) = (current_term r, cm_voted_for (cmeta r), '''')"
  using SetLeaderUuid_ok [OF assms, of "''''"]
  by (simp_all add: BecomeReplicaUnlocked_def replica_ok_def vote_state_def)

lemma HandleTermAdvance_ok:
  assumes ok: "replica_ok config u r" and v: "VerifyRaftConfig config COMMITTED_QUORUM = Inr ()"
  shows "t > current_term r \<Longrightarrow> \<exists>r'. HandleTermAdvanceUnlocked r t = Inr r' \<and> replica_ok config u r' \<and>
      vote_state r' = (t, None, '''')"
    and "\<not> t > current_term r \<Longrightarrow> HandleTermAdvanceUnlocked r t = Inl (Status IllegalState)"
proof -
  define r1 where "r1 = (if active_role r = LEADER then BecomeReplicaUnlocked r else r)"
  have ok1: "replica_ok config u r1" using BecomeReplica_ok(1) [OF ok] ok by (simp add: r1_def)
  have t1: "current_term r1 = current_term r"
    using BecomeReplica_ok(2) [OF ok] by (simp add: r1_def vote_state_def)
  let ?cm = "(cmeta r1)\<lparr>cm_current_term := t, cm_voted_for := None\<rparr>"
  have "replica_ok config u (r1\<lparr>cmeta := ?cm\<rparr>)"
    using ok1 unfolding replica_ok_def role_fixed by auto
  note S = SetLeaderUuid_ok [OF this, of "''''"]
  have "Flush ?cm = Inr ()" using ok1 v by (intro Flush_ok) (simp add: replica_ok_def)
  then show "t > current_term r \<Longrightarrow> \<exists>r'. HandleTermAdvanceUnlocked r t = Inr r' \<and> replica_ok config u r' \<and>
      vote_state r' = (t, None, '''')"
    using S t1 by (simp add: HandleTermAdvanceUnlocked_def SetCurrentTermUnlocked_def r1_def [symmetric] Let_def)
  show "\<not> t > current_term r \<Longrightarrow> HandleTermAdvanceUnlocked r t = Inl (Status IllegalState)"
    by (simp add: HandleTermAdvanceUnlocked_def)
qed

lemma SetVotedFor_ok:
  assumes ok: "replica_ok config u r" and v: "VerifyRaftConfig config COMMITTED_QUORUM = Inr ()"
  obtains r' where "SetVotedForCurrentTermUnlocked r c = Inr r'" and "replica_ok config u r'"
    and "vote_state r' = (current_term r, Some c, leader_uuid r)"
proof -
  let ?cm = "(cmeta r)\<lparr>cm_voted_for := Some c\<rparr>"
  have "Flush ?cm = Inr ()" using ok v by (intro Flush_ok) (simp add: replica_ok_def)
  moreover have "replica_ok config u (r\<lparr>cmeta := ?cm\<rparr>)"
    using ok unfolding replica_ok_def role_fixed by auto
  ultimately show ?thesis
    by (intro that [of "r\<lparr>cmeta := ?cm\<rparr>"]) (simp_all add: SetVotedForCurrentTermUnlocked_def vote_state_def)
qed

lemma same_cmeta: "cmeta r' = cmeta r \<Longrightarrow> replica_ok config u r' = replica_ok config u r \<and> vote_state r' = vote_state r"
  by (simp add: replica_ok_def vote_state_def)

text \<open>A response that is the answer of \<open>u\<close> to a request.\<close>

definition answer_of :: "string \<Rightarrow> VoteRequestPB \<Rightarrow> VoteResponsePB \<Rightarrow> bool" where
  "answer_of u req resp \<longleftrightarrow>
     responder_uuid resp = u \<and> \<not> has_error resp \<and> response_preelection resp = request_preelection req"

lemma answer_of_simps [simp]:
  "answer_of u req (resp\<lparr>responder_term := t\<rparr>) = answer_of u req resp"
  "answer_of u req (resp\<lparr>vote_granted := g\<rparr>) = answer_of u req resp"
  "answer_of u req (resp\<lparr>consensus_error := e\<rparr>) = answer_of u req resp"
  "answer_of u req (FillVoteResponseVoteGranted req' resp) = answer_of u req resp"
  "answer_of u req (FillVoteResponseVoteDenied r code resp) = answer_of u req resp"
  "vote_granted (FillVoteResponseVoteGranted req' resp)"
  "\<not> vote_granted (FillVoteResponseVoteDenied r code resp)"
  by (simp_all add: answer_of_def FillVoteResponseVoteGranted_def FillVoteResponseVoteDenied_def)

lemma fill_leases_ok:
  assumes "fill_leases now r resp = (r', resp')"
  shows "cmeta r' = cmeta r" and "answer_of u req resp' = answer_of u req resp"
  using assms
  by (auto simp: fill_leases_def RemainingOldLeaderLeaseDuration_def Let_def answer_of_def split: if_splits option.splits)

lemma consider_vote_ok:
  assumes ok: "replica_ok config u r" and v: "VerifyRaftConfig config COMMITTED_QUORUM = Inr ()"
    and a: "answer_of u req resp"
  shows "\<exists>r' resp'. consider_vote now r req resp = Inr (r', resp') \<and> replica_ok config u r' \<and> answer_of u req resp' \<and>
    (if vote_granted resp' \<and> \<not> request_preelection req
     then vote_state r' = (current_term r, Some (candidate_uuid req), leader_uuid r)
     else vote_state r' = vote_state r)"
proof (cases "OpIdLessThan (last_received req) (OpId_ToPB (last_logged_opid r))")
  case True
  then show ?thesis using ok a by (simp add: consider_vote_def)
next
  case False
  define r1 where "r1 = (if request_preelection req then r
    else r\<lparr>pending_election_opid := \<lparr>pb_term = None, pb_index = None\<rparr>\<rparr>)"
  obtain r2 resp1 where f: "fill_leases now r1 resp = (r2, resp1)" by fastforce
  have "cmeta r2 = cmeta r" using fill_leases_ok(1) [OF f] by (simp add: r1_def)
  note same = same_cmeta [OF this, of config u]
  have a1: "answer_of u req resp1" using fill_leases_ok(2) [OF f] a by simp
  note C = consider_vote_def [of now r req resp, unfolded if_not_P [OF False] Let_def r1_def [symmetric] f prod.case]
  show ?thesis
  proof (cases "request_preelection req")
    case True
    then show ?thesis using C same ok a1 by simp
  next
    case F: False
    have ok2: "replica_ok config u r2" using same ok by blast
    obtain r3 where r3: "SetVotedForCurrentTermUnlocked r2 (candidate_uuid req) = Inr r3" "replica_ok config u r3"
      "vote_state r3 = (current_term r2, Some (candidate_uuid req), leader_uuid r2)"
      by (rule SetVotedFor_ok [OF ok2 v])
    have "consider_vote now r req resp = Inr (r3, FillVoteResponseVoteGranted req resp1)"
      using C F r3(1) by (simp add: RequestVoteRespondVoteGranted_def)
    then show ?thesis using r3(2,3) a1 F same by (simp add: vote_state_def)
  qed
qed

text \<open>
  How the term, the vote and the leader known change when a replica handles a request of \<open>c\<close> for
  the term \<open>ct\<close> and gives its vote or not (\<open>g\<close>).
\<close>

fun voting_step :: "int \<times> string option \<times> string \<Rightarrow> bool \<Rightarrow> int \<Rightarrow> string \<Rightarrow> int \<times> string option \<times> string \<Rightarrow> bool" where
  "voting_step (t, w, l) g ct c (t', w', l') \<longleftrightarrow>
     (if g then t' = ct \<and> w' = Some c \<and>
        (t = ct \<and> l' = l \<and> (w = None \<or> w = Some c) \<or> t < ct \<and> l' = '''')
      else t' = t \<and> w' = w \<and> l' = l \<or> t < t' \<and> w' = None \<and> l' = '''')"

lemma RequestVote_ok:
  assumes ok: "replica_ok config u r" and v: "VerifyRaftConfig config COMMITTED_QUORUM = Inr ()"
  shows "\<not> running r \<and> RequestVote busy now coarse_now r req = Inl (Status IllegalState) \<or>
    (\<exists>r' resp. RequestVote busy now coarse_now r req = Inr (r', resp) \<and> replica_ok config u r' \<and> answer_of u req resp \<and>
      voting_step (vote_state r) (vote_granted resp \<and> \<not> request_preelection req) (candidate_term req)
        (candidate_uuid req) (vote_state r'))"
proof (cases "running r")
  case False
  then show ?thesis by (simp add: RequestVote_def LockForConfigChange_def)
next
  case True
  define resp where "resp = new_response r req"
  have a: "answer_of u req resp" using ok by (simp add: resp_def new_response_def answer_of_def replica_ok_def)
  note R = RequestVote_def [of busy now coarse_now r req, unfolded Let_def resp_def [symmetric] LockForConfigChange_def
      if_P [OF True] verify_result_Inr]
  let ?alive = "candidate_uuid req \<noteq> leader_uuid r \<and> \<not> ignore_live_leader req \<and> now < withhold_votes_until r"
  consider (deny) "busy \<or> ?alive \<or> candidate_term req < current_term r"
    | (again) "\<not> (busy \<or> ?alive \<or> candidate_term req < current_term r)"
      "candidate_term req = current_term r" "cm_voted_for (cmeta r) \<noteq> None"
    | (advance) "\<not> (busy \<or> ?alive \<or> candidate_term req < current_term r)"
      "candidate_term req > current_term r" "\<not> request_preelection req"
    | (stay) "\<not> (busy \<or> ?alive \<or> candidate_term req < current_term r)"
      "\<not> (candidate_term req = current_term r \<and> cm_voted_for (cmeta r) \<noteq> None)"
      "\<not> (candidate_term req > current_term r \<and> \<not> request_preelection req)"
    by argo
  then show ?thesis
  proof cases
    case deny
    then have "\<exists>code. RequestVote busy now coarse_now r req = Inr (r, FillVoteResponseVoteDenied r code resp)"
      unfolding R by auto
    then obtain code where "RequestVote busy now coarse_now r req = Inr (r, FillVoteResponseVoteDenied r code resp)"
      by blast
    then show ?thesis using ok a
      by (intro disjI2 exI [of _ r] exI [of _ "FillVoteResponseVoteDenied r code resp"] conjI) (simp_all add: vote_state_def)
  next
    case again
    let ?resp = "if cm_voted_for (cmeta r) = Some (candidate_uuid req) then FillVoteResponseVoteGranted req resp
      else FillVoteResponseVoteDenied r ALREADY_VOTED resp"
    have "RequestVote busy now coarse_now r req = Inr (r, ?resp)" unfolding R using again by auto
    then show ?thesis using ok a again(2)
      by (intro disjI2 exI [of _ r] exI [of _ ?resp] conjI) (simp_all add: vote_state_def)
  next
    case advance
    obtain r1 where r1: "HandleTermAdvanceUnlocked r (candidate_term req) = Inr r1" "replica_ok config u r1"
      "vote_state r1 = (candidate_term req, None, '''')"
      using HandleTermAdvance_ok(1) [OF ok v advance(2)] by blast
    have "RequestVote busy now coarse_now r req = consider_vote coarse_now r1 req resp"
      unfolding R using advance r1(1) by auto
    moreover obtain r2 resp2 where "consider_vote coarse_now r1 req resp = Inr (r2, resp2)" "replica_ok config u r2"
      "answer_of u req resp2" "if vote_granted resp2 \<and> \<not> request_preelection req
       then vote_state r2 = (current_term r1, Some (candidate_uuid req), leader_uuid r1) else vote_state r2 = vote_state r1"
      using consider_vote_ok [OF r1(2) v a, of coarse_now] by blast
    ultimately show ?thesis using r1(3) advance(2,3)
      by (intro disjI2 exI [of _ r2] exI [of _ resp2] conjI) (auto simp: vote_state_def split: if_splits)
  next
    case stay
    then have "RequestVote busy now coarse_now r req = consider_vote coarse_now r req resp" unfolding R by auto
    moreover obtain r2 resp2 where "consider_vote coarse_now r req resp = Inr (r2, resp2)" "replica_ok config u r2"
      "answer_of u req resp2" "if vote_granted resp2 \<and> \<not> request_preelection req
       then vote_state r2 = (current_term r, Some (candidate_uuid req), leader_uuid r) else vote_state r2 = vote_state r"
      using consider_vote_ok [OF ok v a, of coarse_now] by blast
    ultimately show ?thesis using stay
      by (intro disjI2 exI [of _ r2] exI [of _ resp2] conjI) (auto simp: vote_state_def split: if_splits)
  qed
qed

lemma start_election_voter:
  assumes ok: "raft_config_ok config" and s: "start_election config req p = Inr e"
  shows "candidate_uuid req \<in> set (voters config)"
proof (rule ccontr)
  assume no: "candidate_uuid req \<notin> set (voters config)"
  let ?n = "CountVoters config"
  have followers: "election_followers (candidate_uuid req) [] (peers config) = Inr (voters config)"
  proof -
    have "filter (\<lambda>u. u \<noteq> candidate_uuid req) (voters config) = voters config" using no by (auto simp: filter_id_conv)
    then show ?thesis
      using election_followers_eq [of "peers config" "[]" "candidate_uuid req"] ok by (simp add: raft_config_ok_def voters_def)
  qed
  show False
  proof (cases "?n > 0")
    case True
    then have "VoteCounter_new ?n (MajoritySize ?n) =
      Inr \<lparr>num_voters = ?n, majority_size = MajoritySize ?n, votes = (\<lambda>_. None), yes_votes = 0, no_votes = 0\<rparr>"
      by (simp add: VoteCounter_new_def MajoritySize_def)
    then show False using s followers True CountVoters_eq [OF ok]
      by (simp add: start_election_def RegisterVote_def LeaderElection_new_def GetTotalVotesCounted_def)
  next
    case False
    then show False using s by (simp add: start_election_def VoteCounter_new_def verify_result_Inl)
  qed
qed

text \<open>What holds of an election that the replica \<open>u\<close> has just started.\<close>

definition election_started :: "RaftConfigPB \<Rightarrow> string \<Rightarrow> RaftConsensus \<Rightarrow> RaftConsensus \<Rightarrow> LeaderElection \<Rightarrow> bool" where
  "election_started config u r r' e \<longleftrightarrow>
     election_ok config e \<and> candidate_uuid (request e) = u \<and>
     preelection (result e) = request_preelection (request e) \<and>
     election_term (result e) = candidate_term (request e) \<and>
     votes (vote_counter e) = (\<lambda>_. None)(u \<mapsto> kGranted) \<and>
     voting_step (vote_state r) (\<not> request_preelection (request e)) (candidate_term (request e)) u (vote_state r')"

lemma start_election_started:
  assumes v: "VerifyRaftConfig config COMMITTED_QUORUM = Inr ()" and s: "start_election config req p = Inr e"
    and req: "candidate_uuid req = u" "request_preelection req = p"
    and step: "voting_step (vote_state r) (\<not> p) (candidate_term req) u (vote_state r')"
  shows "election_started config u r r' e"
proof -
  have ok: "raft_config_ok config" using v by (simp add: VerifyRaftConfig_iff)
  note c = start_election_voter [OF ok s]
  from start_election_ok [OF ok c, of p] s
  have "counter_ok config (vote_counter e)" "request e = req" "result e = ElectionResult_new p (candidate_term req)"
    "votes (vote_counter e) = (\<lambda>_. None)(candidate_uuid req \<mapsto> kGranted)"
    "voting_follower_uuids e = filter (\<lambda>u. u \<noteq> candidate_uuid req) (voters config)" "\<not> has_responded e"
    by auto
  then show ?thesis using req step c
    by (auto simp: election_started_def election_ok_def ElectionResult_new_def)
qed

lemma CreateElection_ok:
  assumes ok: "replica_ok config u r" and v: "VerifyRaftConfig config COMMITTED_QUORUM = Inr ()"
    and c: "CreateElectionUnlocked r data p = Inr (r', e)"
  shows "replica_ok config u r'" and "election_started config u r r' e"
proof -
  let ?clear = "\<lambda>r. r\<lparr>pending_election_opid := \<lparr>pb_term = None, pb_index = None\<rparr>\<rparr>"
  let ?req = "\<lambda>r t. \<lparr>candidate_uuid = cm_peer_uuid (cmeta r), candidate_term = t,
    ignore_live_leader = even_if_leader_is_alive data, request_preelection = p, last_received = OpId_ToPB (last_received_opid r)\<rparr>"
  have cfg: "active_config (cmeta x) = config" "cm_peer_uuid (cmeta x) = u" if "replica_ok config u x" for x
    using that by (simp_all add: replica_ok_def)
  have "replica_ok config u r' \<and> election_started config u r r' e"
  proof (cases p)
    case True
    then have r': "r' = r" and s: "start_election config (?req r (current_term r + 1)) True = Inr e"
      using c cfg [OF ok] by (auto simp: CreateElectionUnlocked_def next_term_def verify_result_eq_Inr Let_def split: if_splits)
    show ?thesis
      using start_election_started [OF v s, of u r r'] ok r' True cfg(2) [OF ok] by (simp add: vote_state_def)
  next
    case False
    obtain r1 where r1: "HandleTermAdvanceUnlocked r (current_term r + 1) = Inr r1" "replica_ok config u r1"
      "vote_state r1 = (current_term r + 1, None, '''')"
      using HandleTermAdvance_ok(1) [OF ok v, of "current_term r + 1"] by auto
    obtain r2 where r2: "SetVotedForCurrentTermUnlocked r1 u = Inr r2" "replica_ok config u r2"
      "vote_state r2 = (current_term r1, Some u, leader_uuid r1)"
      by (rule SetVotedFor_ok [OF r1(2) v])
    have r': "r' = ?clear r2" and s: "start_election config (?req r2 (current_term r2)) False = Inr e"
      using c False r1(1) r2(1) cfg [OF r1(2)] cfg [OF r2(2)]
      by (auto simp: CreateElectionUnlocked_def IncrementTermUnlocked_def next_term_def verify_result_eq_Inr Let_def split: if_splits)
    have "vote_state r' = vote_state r2" "replica_ok config u r'" using same_cmeta [of r' r2 config u] r' r2(2) by simp_all
    moreover have "voting_step (vote_state r) True (current_term r2) u (vote_state r2)"
      using r1(3) r2(3) by (simp add: vote_state_def)
    ultimately show ?thesis
      using start_election_started [OF v s, of u r r'] False cfg(2) [OF r2(2)] by simp
  qed
  then show "replica_ok config u r'" "election_started config u r r' e" by blast+
qed

lemma DoStartElection_ok:
  assumes ok: "replica_ok config u r" and v: "VerifyRaftConfig config COMMITTED_QUORUM = Inr ()"
    and c: "DoStartElection use_pre ci r data pre = Inr (r', eo)"
  shows "replica_ok config u r'"
    and "case eo of None \<Rightarrow> vote_state r' = vote_state r | Some e \<Rightarrow> election_started config u r r' e"
proof -
  consider "eo = None" "cmeta r' = cmeta r" | e p where "eo = Some e" "CreateElectionUnlocked r data p = Inr (r', e)"
    using c by (auto simp: DoStartElection_def verify_result_eq_Inr Let_def split: if_splits)
  then have "replica_ok config u r' \<and>
    (case eo of None \<Rightarrow> vote_state r' = vote_state r | Some e \<Rightarrow> election_started config u r r' e)"
  proof cases
    case 1
    then show ?thesis using same_cmeta [of r' r config u] ok by simp
  next
    case 2
    then show ?thesis using CreateElection_ok [OF ok v] by simp
  qed
  then show "replica_ok config u r'"
    "case eo of None \<Rightarrow> vote_state r' = vote_state r | Some e \<Rightarrow> election_started config u r r' e" by blast+
qed

lemma DoElectionCallback_ok:
  assumes ok: "replica_ok config u r" and v: "VerifyRaftConfig config COMMITTED_QUORUM = Inr ()"
    and c: "DoElectionCallback use_pre ci r data res = Inr (r', eo)"
  shows "replica_ok config u r'"
    and "case eo of Some e \<Rightarrow> election_started config u r r' e
      | None \<Rightarrow> voting_step (vote_state r) False t c (vote_state r') \<or>
          decision res \<noteq> kDenied \<and> \<not> preelection res \<and> election_term res = current_term r \<and>
          vote_state r' = (current_term r, cm_voted_for (cmeta r), u)"
proof -
  let ?win = "BecomeLeaderUnlocked (SetLeaderUuidUnlocked
    (UpdateOldLeaderLeaseExpirationOnNonLeaderUnlocked r (old_leader_lease res) (old_leader_ht_lease res)) u)"
  have lease: "cmeta (UpdateOldLeaderLeaseExpirationOnNonLeaderUnlocked r (old_leader_lease res) (old_leader_ht_lease res)) = cmeta r"
    by (simp add: UpdateOldLeaderLeaseExpirationOnNonLeaderUnlocked_def)
  have self: "cm_peer_uuid (cmeta r) = u" using ok by (simp add: replica_ok_def)
  consider (same) "eo = None" "r' = r"
    | (advance) t where "eo = None" "HandleTermAdvanceUnlocked r t = Inr r'"
    | (start) "DoStartElection use_pre ci r data True = Inr (r', eo)"
    | (win) "eo = None" "decision res \<noteq> kDenied" "\<not> preelection res" "election_term res = current_term r" "r' = ?win"
  proof (cases "decision res = kDenied")
    case True
    note C = c [unfolded DoElectionCallback_def if_P [OF True]]
    show ?thesis
    proof (cases "higher_term res")
      case None
      then show ?thesis using C that(1) by simp
    next
      case (Some t)
      show ?thesis
      proof (cases "running r")
        case True
        then show ?thesis using C Some that(1) that(2) [of t]
          by (cases "HandleTermAdvanceUnlocked r t") (auto simp: LockForConfigChange_def split: failure.splits)
      next
        case False
        then show ?thesis using C Some that(1) by (simp add: LockForConfigChange_def verify_result_Inl)
      qed
    qed
  next
    case False
    note C = c [unfolded DoElectionCallback_def if_not_P [OF False]]
    let ?old = "LockForConfigChange r \<noteq> Inr () \<or> election_term res \<noteq> current_term r + (if preelection res then 1 else 0) \<or>
      \<not> IsRaftConfigVoter (cm_peer_uuid (cmeta r)) (active_config (cmeta r))"
    consider "?old" | "\<not> ?old" "preelection res" | "\<not> ?old" "\<not> preelection res" "active_role r = LEADER"
      | "\<not> ?old" "\<not> preelection res" "active_role r \<noteq> LEADER" by blast
    then show ?thesis
    proof cases
      case 1
      then have "Inr (r, None) = (Inr (r', eo) :: (RaftConsensus \<times> LeaderElection option) result)"
        using C by presburger
      then show ?thesis using that(1) by simp
    next
      case 2
      then show ?thesis using C that(1,3)
        by (cases "DoStartElection use_pre ci r data True") (auto split: failure.splits)
    next
      case 3
      then show ?thesis using C that(1) by auto
    next
      case 4
      then have "Inr (?win, None) = (Inr (r', eo) :: (RaftConsensus \<times> LeaderElection option) result)"
        using C self lease by (simp add: Let_def)
      then show ?thesis using that(4) False 4 by simp
    qed
  qed
  then have "replica_ok config u r' \<and> (case eo of Some e \<Rightarrow> election_started config u r r' e
      | None \<Rightarrow> voting_step (vote_state r) False t c (vote_state r') \<or>
          decision res \<noteq> kDenied \<and> \<not> preelection res \<and> election_term res = current_term r \<and>
          vote_state r' = (current_term r, cm_voted_for (cmeta r), u))"
  proof cases
    case same
    then show ?thesis using ok by (simp add: vote_state_def)
  next
    case (advance t')
    then have "t' > current_term r" using HandleTermAdvance_ok(2) [OF ok v, of t'] by fastforce
    then show ?thesis using HandleTermAdvance_ok(1) [OF ok v, of t'] advance by (auto simp: vote_state_def)
  next
    case start
    then show ?thesis using DoStartElection_ok [OF ok v start] by (auto simp: vote_state_def split: option.splits)
  next
    case win
    have "replica_ok config u r' \<and> vote_state r' = (current_term r, cm_voted_for (cmeta r), u)"
      using ok lease unfolding win(5) BecomeLeaderUnlocked_def SetLeaderUuidUnlocked_def set_leader_uuid_def
      by (simp add: replica_ok_def vote_state_def)
    then show ?thesis using win(1-4) by simp
  qed
  then show "replica_ok config u r'" "case eo of Some e \<Rightarrow> election_started config u r r' e
      | None \<Rightarrow> voting_step (vote_state r) False t c (vote_state r') \<or>
          decision res \<noteq> kDenied \<and> \<not> preelection res \<and> election_term res = current_term r \<and>
          vote_state r' = (current_term r, cm_voted_for (cmeta r), u)" by blast+
qed

lemma HandleLeaderRequestTerm_ok:
  assumes ok: "replica_ok config u r" and v: "VerifyRaftConfig config COMMITTED_QUORUM = Inr ()"
  obtains r1 rejected where "HandleLeaderRequestTermUnlocked r t = Inr (r1, rejected)" and "replica_ok config u r1"
    and "vote_state r1 = vote_state r \<or> current_term r < t \<and> vote_state r1 = (t, None, '''')"
    and "\<not> rejected \<longrightarrow> current_term r1 = t"
proof (cases "t > current_term r")
  case True
  obtain r1 where "HandleTermAdvanceUnlocked r t = Inr r1" "replica_ok config u r1" "vote_state r1 = (t, None, '''')"
    using HandleTermAdvance_ok(1) [OF ok v True] by blast
  then show ?thesis using True
    by (intro that [of r1 False]) (simp_all add: HandleLeaderRequestTermUnlocked_def vote_state_def)
next
  case False
  then show ?thesis using ok
    by (intro that [of r "t \<noteq> current_term r"]) (simp_all add: HandleLeaderRequestTermUnlocked_def)
qed

lemma CheckLeaderRequest_ok:
  assumes ok: "replica_ok config u r" and v: "VerifyRaftConfig config COMMITTED_QUORUM = Inr ()"
    and agree: "\<And>r1. vote_state r1 = vote_state r \<or> current_term r < t \<and> vote_state r1 = (t, None, '''') \<Longrightarrow>
      current_term r1 = t \<Longrightarrow> leader_uuid r1 = '''' \<or> leader_uuid r1 = c"
  obtains r' where "CheckLeaderRequestUnlocked log_matches r c t = Inr r'" and "replica_ok config u r'"
    and "voting_step (vote_state r) False t c (vote_state r') \<or>
      current_term r' = t \<and> leader_uuid r' = c \<and>
      (cm_voted_for (cmeta r') = cm_voted_for (cmeta r) \<and> current_term r = t \<or> cm_voted_for (cmeta r') = None \<and> current_term r < t)"
proof -
  obtain r1 rejected where r1: "HandleLeaderRequestTermUnlocked r t = Inr (r1, rejected)" "replica_ok config u r1"
    "vote_state r1 = vote_state r \<or> current_term r < t \<and> vote_state r1 = (t, None, '''')"
    "\<not> rejected \<longrightarrow> current_term r1 = t"
    by (rule HandleLeaderRequestTerm_ok [OF ok v, of t])
  note C = CheckLeaderRequestUnlocked_def [of log_matches r c t, unfolded r1(1) verify_result_Inr prod.case]
  show ?thesis
  proof (cases "rejected \<or> \<not> log_matches")
    case True
    then show ?thesis using C r1(2,3) by (intro that [of r1]) (auto simp: vote_state_def)
  next
    case False
    then have t1: "current_term r1 = t" using r1(4) by blast
    then have l: "leader_uuid r1 = '''' \<or> leader_uuid r1 = c" using agree r1(3) by blast
    show ?thesis
    proof (cases "leader_uuid r1 = ''''")
      case True
      note S = SetLeaderUuid_ok [OF r1(2), of c]
      show ?thesis using C False True S r1(3) t1
        by (intro that [of "SetLeaderUuidUnlocked r1 c"]) (auto simp: vote_state_def)
    next
      case F: False
      then show ?thesis using C False l r1(2,3) t1 by (intro that [of r1]) (auto simp: vote_state_def)
    qed
  qed
qed

end
