(* ===== verification/Raft_Election.thy ===== *)
theory Raft_Election
  imports Raft_Handlers
begin

text \<open>
  The replicas of a tablet with a fixed configuration, their elections and the messages between
  them, composed of the functions of \<open>Raft_Replica\<close> and \<open>Leader_Election\<close>. A step runs one of
  these functions at one replica. Messages may be lost, delayed and delivered several times;
  replicas restart with what is on disk; the log and the timers change freely. The history of votes
  is kept beside the state. The theorems: there is at most one leader in a term, and the process
  never dies of the check for a second leader.
\<close>

section \<open>The system\<close>

type_synonym vote_history = "(string \<times> int \<times> string) set"

record raft_system =
  replicas :: "string \<Rightarrow> RaftConsensus"
  elections :: "(LeaderElectionData \<times> LeaderElection) list"
  responses :: "(nat \<times> string \<times> VoteResponsePB) set"
  callbacks :: "(string \<times> LeaderElectionData \<times> ElectionResult) set"
  leader_requests :: "(string \<times> int) set"
  history :: vote_history

definition initial_replica :: "RaftConfigPB \<Rightarrow> string \<Rightarrow> RaftConsensus" where
  "initial_replica config u =
     \<lparr>running = True,
      cmeta = UpdateActiveRole \<lparr>cm_peer_uuid = u, cm_current_term = 0, cm_voted_for = None, cm_committed_config = config,
        cm_pending_config = None, cm_leader_uuid = '''', cm_active_role = UNKNOWN_ROLE\<rparr>,
      withhold_votes_until = MonoTime_Min, last_logged_opid = OpId_default, last_received_opid = OpId_default,
      pending_election_opid = \<lparr>pb_term = None, pb_index = None\<rparr>,
      replica_old_leader_lease = CoarseTimeLease_default, replica_old_leader_ht_lease = PhysicalComponentLease_default\<rparr>"

definition initial_system :: "RaftConfigPB \<Rightarrow> raft_system" where
  "initial_system config =
     \<lparr>replicas = initial_replica config, elections = [], responses = {}, callbacks = {}, leader_requests = {}, history = {}\<rparr>"

definition put :: "raft_system \<Rightarrow> string \<Rightarrow> RaftConsensus \<Rightarrow> raft_system" where
  "put s u r = s\<lparr>replicas := (replicas s)(u := r)\<rparr>"

text \<open>A new election is recorded with the vote of the candidate for itself, unless it is a pre-election.\<close>

definition put_election ::
    "raft_system \<Rightarrow> string \<Rightarrow> RaftConsensus \<Rightarrow> LeaderElectionData \<Rightarrow> LeaderElection option \<Rightarrow> raft_system" where
  "put_election s u r data eo =
     (case eo of
        None \<Rightarrow> put s u r
      | Some e \<Rightarrow>
          (put s u r)\<lparr>elections := elections s @ [(data, e)],
             history := (if request_preelection (request e) then history s
                         else insert (u, candidate_term (request e), u) (history s))\<rparr>)"

inductive raft_step :: "raft_system \<Rightarrow> raft_system \<Rightarrow> bool" where
  start: "DoStartElection use_pre ci (replicas s u) data pre = Inr (r, eo) \<Longrightarrow>
    raft_step s (put_election s u r data eo)"
| vote: "i < length (elections s) \<Longrightarrow> elections s ! i = (data, e) \<Longrightarrow> v \<in> set (voting_follower_uuids e) \<Longrightarrow>
    RequestVote busy now coarse_now (replicas s v) (request e) = Inr (r, resp) \<Longrightarrow>
    raft_step s ((put s v r)\<lparr>responses := insert (i, v, resp) (responses s),
      history := (if vote_granted resp \<and> \<not> request_preelection (request e)
                  then insert (v, candidate_term (request e), candidate_uuid (request e)) (history s) else history s)\<rparr>)"
| answer: "i < length (elections s) \<Longrightarrow> elections s ! i = (data, e) \<Longrightarrow> v \<in> set (voting_follower_uuids e) \<Longrightarrow>
    (rpc_ok \<longrightarrow> (i, v, resp) \<in> responses s) \<Longrightarrow> VoteResponse now e v rpc_ok resp = Inr (e', check) \<Longrightarrow>
    raft_step s (s\<lparr>elections := (elections s)[i := (data, e')]\<rparr>)"
| check: "i < length (elections s) \<Longrightarrow> elections s ! i = (data, e) \<Longrightarrow> CheckForDecision e = (e', call) \<Longrightarrow>
    raft_step s (s\<lparr>elections := (elections s)[i := (data, e')],
      callbacks := (case call of None \<Rightarrow> callbacks s
                    | Some res \<Rightarrow> insert (candidate_uuid (request e), data, res) (callbacks s))\<rparr>)"
| callback: "(u, data, res) \<in> callbacks s \<Longrightarrow>
    DoElectionCallback use_pre ci (replicas s u) data res = Inr (r, eo) \<Longrightarrow>
    raft_step s (put_election s u r data eo)"
| advance: "HandleTermAdvanceUnlocked (replicas s u) t = Inr r \<Longrightarrow> raft_step s (put s u r)"
| step_down: "raft_step s (put s u (BecomeReplicaUnlocked (replicas s u)))"
| leader_send: "active_role (replicas s u) = LEADER \<Longrightarrow>
    raft_step s (s\<lparr>leader_requests := insert (u, current_term (replicas s u)) (leader_requests s)\<rparr>)"
| leader_receive: "(c, t) \<in> leader_requests s \<Longrightarrow>
    CheckLeaderRequestUnlocked log_matches (replicas s u) c t = Inr r \<Longrightarrow> raft_step s (put s u r)"
| restart: "raft_step s (put s u ((initial_replica config u)\<lparr>cmeta := Load (cmeta (replicas s u))\<rparr>))"
| environment: "cmeta r = cmeta (replicas s u) \<Longrightarrow> raft_step s (put s u r)"

inductive raft_reachable :: "RaftConfigPB \<Rightarrow> raft_system \<Rightarrow> bool" for config where
  init: "raft_reachable config (initial_system config)"
| step: "raft_reachable config s \<Longrightarrow> raft_step s s' \<Longrightarrow> raft_reachable config s'"

section \<open>The invariant\<close>

definition elected :: "RaftConfigPB \<Rightarrow> vote_history \<Rightarrow> int \<Rightarrow> string \<Rightarrow> bool" where
  "elected config H t c \<longleftrightarrow> (\<exists>Q. majority config Q \<and> (\<forall>v\<in>Q. (v, t, c) \<in> H))"

definition history_ok :: "vote_history \<Rightarrow> (string \<Rightarrow> RaftConsensus) \<Rightarrow> bool" where
  "history_ok H reps \<longleftrightarrow>
     (\<forall>u t c. (u, t, c) \<in> H \<longrightarrow>
        t < current_term (reps u) \<or> t = current_term (reps u) \<and> cm_voted_for (cmeta (reps u)) = Some c) \<and>
     (\<forall>u c. cm_voted_for (cmeta (reps u)) = Some c \<longrightarrow> (u, current_term (reps u), c) \<in> H) \<and>
     (\<forall>u t c d. (u, t, c) \<in> H \<longrightarrow> (u, t, d) \<in> H \<longrightarrow> c = d)"

definition run_election_ok :: "RaftConfigPB \<Rightarrow> vote_history \<Rightarrow> LeaderElection \<Rightarrow> bool" where
  "run_election_ok config H e \<longleftrightarrow>
     election_ok config e \<and> preelection (result e) = request_preelection (request e) \<and>
     election_term (result e) = candidate_term (request e) \<and>
     (\<not> request_preelection (request e) \<longrightarrow>
        (\<forall>v. votes (vote_counter e) v = Some kGranted \<longrightarrow> (v, candidate_term (request e), candidate_uuid (request e)) \<in> H))"

definition response_ok :: "vote_history \<Rightarrow> VoteRequestPB \<Rightarrow> VoteResponsePB \<Rightarrow> bool" where
  "response_ok H req resp \<longleftrightarrow> (\<not> request_preelection req \<longrightarrow> vote_granted resp \<longrightarrow>
     (responder_uuid resp, candidate_term req, candidate_uuid req) \<in> H)"

definition raft_ok :: "RaftConfigPB \<Rightarrow> raft_system \<Rightarrow> bool" where
  "raft_ok config s \<longleftrightarrow>
     (\<forall>u. replica_ok config u (replicas s u)) \<and>
     history_ok (history s) (replicas s) \<and>
     (\<forall>u. leader_uuid (replicas s u) \<noteq> '''' \<longrightarrow>
        elected config (history s) (current_term (replicas s u)) (leader_uuid (replicas s u))) \<and>
     (\<forall>data e. (data, e) \<in> set (elections s) \<longrightarrow> run_election_ok config (history s) e) \<and>
     (\<forall>i v resp. (i, v, resp) \<in> responses s \<longrightarrow> i < length (elections s) \<and>
        response_ok (history s) (request (snd (elections s ! i))) resp) \<and>
     (\<forall>u data res. (u, data, res) \<in> callbacks s \<longrightarrow> decision res \<noteq> kDenied \<longrightarrow> \<not> preelection res \<longrightarrow>
        elected config (history s) (election_term res) u) \<and>
     (\<forall>c t. (c, t) \<in> leader_requests s \<longrightarrow> elected config (history s) t c)"

lemma elected_mono: "elected config H t c \<Longrightarrow> H \<subseteq> H' \<Longrightarrow> elected config H' t c"
  unfolding elected_def by blast

lemma elected_unique:
  assumes "history_ok H reps" and "elected config H t c" and "elected config H t d"
  shows "c = d"
proof -
  obtain Q R where "majority config Q" "majority config R" "\<forall>v\<in>Q. (v, t, c) \<in> H" "\<forall>v\<in>R. (v, t, d) \<in> H"
    using assms(2,3) unfolding elected_def by blast
  moreover have "(v, t, a) \<in> H \<Longrightarrow> (v, t, b) \<in> H \<Longrightarrow> a = b" for v a b
    using assms(1) unfolding history_ok_def by blast
  ultimately show ?thesis
    using raft.unique_winner [of config Q R "\<lambda>v c. (v, t, c) \<in> H" c d] by blast
qed

lemma raft_okD:
  assumes "raft_ok config s"
  shows "replica_ok config u (replicas s u)" and "history_ok (history s) (replicas s)"
    and "leader_uuid (replicas s u) = '''' \<or>
      elected config (history s) (current_term (replicas s u)) (leader_uuid (replicas s u))"
    and "(data, e) \<in> set (elections s) \<Longrightarrow> run_election_ok config (history s) e"
    and "(i, v, resp) \<in> responses s \<Longrightarrow> i < length (elections s)"
    and "(i, v, resp) \<in> responses s \<Longrightarrow> response_ok (history s) (request (snd (elections s ! i))) resp"
    and "(u, data, res) \<in> callbacks s \<Longrightarrow> decision res \<noteq> kDenied \<Longrightarrow> \<not> preelection res \<Longrightarrow>
      elected config (history s) (election_term res) u"
    and "(c, t) \<in> leader_requests s \<Longrightarrow> elected config (history s) t c"
  using assms unfolding raft_ok_def by blast+

lemma raft_okI:
  assumes "\<And>u. replica_ok config u (replicas s u)" and "history_ok (history s) (replicas s)"
    and "\<And>u. leader_uuid (replicas s u) = '''' \<or>
      elected config (history s) (current_term (replicas s u)) (leader_uuid (replicas s u))"
    and "\<And>data e. (data, e) \<in> set (elections s) \<Longrightarrow> run_election_ok config (history s) e"
    and "\<And>i v resp. (i, v, resp) \<in> responses s \<Longrightarrow>
      i < length (elections s) \<and> response_ok (history s) (request (snd (elections s ! i))) resp"
    and "\<And>u data res. (u, data, res) \<in> callbacks s \<Longrightarrow> decision res \<noteq> kDenied \<Longrightarrow> \<not> preelection res \<Longrightarrow>
      elected config (history s) (election_term res) u"
    and "\<And>c t. (c, t) \<in> leader_requests s \<Longrightarrow> elected config (history s) t c"
  shows "raft_ok config s"
  using assms unfolding raft_ok_def by blast

lemma run_election_ok_mono: "run_election_ok config H e \<Longrightarrow> H \<subseteq> H' \<Longrightarrow> run_election_ok config H' e"
  unfolding run_election_ok_def by blast

text \<open>The invariant is kept when one replica changes and the history grows accordingly.\<close>

lemma raft_ok_replica:
  assumes ok: "raft_ok config s" and r: "replica_ok config u r" and H: "history s \<subseteq> H"
    and h: "history_ok H ((replicas s)(u := r))"
    and l: "leader_uuid r \<noteq> '''' \<Longrightarrow> elected config H (current_term r) (leader_uuid r)"
  shows "raft_ok config ((put s u r)\<lparr>history := H\<rparr>)"
proof -
  note d = raft_okD [OF ok]
  have "replica_ok config v (((replicas s)(u := r)) v)" for v using d(1) r by simp
  moreover have "elected config H (current_term (((replicas s)(u := r)) v)) (leader_uuid (((replicas s)(u := r)) v))"
    if "leader_uuid (((replicas s)(u := r)) v) \<noteq> ''''" for v
    using that l d(3) [of v] elected_mono [OF _ H] by (cases "v = u") auto
  moreover have "run_election_ok config H e" if "(data, e) \<in> set (elections s)" for data e
    using run_election_ok_mono [OF d(4) [OF that] H] .
  moreover have "i < length (elections s)" if "(i, v, resp) \<in> responses s" for i v resp using d(5) [OF that] .
  moreover have "response_ok H (request (snd (elections s ! i))) resp" if "(i, v, resp) \<in> responses s" for i v resp
    using d(6) [OF that] H unfolding response_ok_def by blast
  moreover have "elected config H (election_term res) v" if "(v, data, res) \<in> callbacks s" "decision res \<noteq> kDenied" "\<not> preelection res" for v data res
    using elected_mono [OF d(7) [OF that] H] .
  moreover have "elected config H t c" if "(c, t) \<in> leader_requests s" for c t
    using elected_mono [OF d(8) [OF that] H] .
  moreover have "replicas ((put s u r)\<lparr>history := H\<rparr>) = (replicas s)(u := r)"
    "elections ((put s u r)\<lparr>history := H\<rparr>) = elections s" "responses ((put s u r)\<lparr>history := H\<rparr>) = responses s"
    "callbacks ((put s u r)\<lparr>history := H\<rparr>) = callbacks s" "leader_requests ((put s u r)\<lparr>history := H\<rparr>) = leader_requests s"
    "history ((put s u r)\<lparr>history := H\<rparr>) = H" by (simp_all add: put_def)
  ultimately show ?thesis using h unfolding raft_ok_def by (simp only: simp_thms) blast
qed

lemma history_ok_quiet:
  assumes H: "history_ok H reps"
    and t: "current_term r = current_term (reps u) \<and> cm_voted_for (cmeta r) = cm_voted_for (cmeta (reps u)) \<or>
      current_term (reps u) < current_term r \<and> cm_voted_for (cmeta r) = None"
  shows "history_ok H (reps(u := r))"
proof -
  have "t' < current_term r \<or> t' = current_term r \<and> cm_voted_for (cmeta r) = Some c" if "(u, t', c) \<in> H" for t' c
    using H t that unfolding history_ok_def by (metis order.strict_trans)
  moreover have "(u, current_term r, c) \<in> H" if "cm_voted_for (cmeta r) = Some c" for c
    using H t that unfolding history_ok_def by auto
  ultimately show ?thesis using H unfolding history_ok_def fun_upd_apply by presburger
qed

lemma history_ok_grant:
  assumes H: "history_ok H reps" and "current_term (reps u) < current_term r \<or>
      current_term (reps u) = current_term r \<and> cm_voted_for (cmeta (reps u)) \<in> {None, Some c}"
    and "current_term r = t" "cm_voted_for (cmeta r) = Some c"
  shows "history_ok (insert (u, t, c) H) (reps(u := r))"
proof -
  have old: "t' < t \<or> t' = t \<and> c' = c" if "(u, t', c') \<in> H" for t' c'
    using assms that unfolding history_ok_def by fastforce
  show ?thesis
    unfolding history_ok_def
  proof (intro conjI allI impI)
    fix w t' c'
    assume "(w, t', c') \<in> insert (u, t, c) H"
    then show "t' < current_term ((reps(u := r)) w) \<or>
       t' = current_term ((reps(u := r)) w) \<and> cm_voted_for (cmeta ((reps(u := r)) w)) = Some c'"
      using H old [of t' c'] assms(3,4) unfolding history_ok_def by (cases "w = u") auto
  next
    fix w c'
    assume "cm_voted_for (cmeta ((reps(u := r)) w)) = Some c'"
    then show "(w, current_term ((reps(u := r)) w), c') \<in> insert (u, t, c) H"
      using H assms(3,4) unfolding history_ok_def by (cases "w = u") auto
  next
    fix w t' c' d
    assume "(w, t', c') \<in> insert (u, t, c) H" "(w, t', d) \<in> insert (u, t, c) H"
    then show "c' = d"
      using H old unfolding history_ok_def by (metis Pair_inject insertE less_irrefl)
  qed
qed

lemma raft_ok_quiet:
  assumes ok: "raft_ok config s" and r: "replica_ok config u r"
    and t: "current_term r = current_term (replicas s u) \<and> cm_voted_for (cmeta r) = cm_voted_for (cmeta (replicas s u)) \<or>
      current_term (replicas s u) < current_term r \<and> cm_voted_for (cmeta r) = None"
    and l: "leader_uuid r = '''' \<or> elected config (history s) (current_term r) (leader_uuid r)"
  shows "raft_ok config (put s u r)"
proof -
  have "history_ok (history s) ((replicas s)(u := r))" using history_ok_quiet [OF raft_okD(2) [OF ok] t] .
  then have "raft_ok config ((put s u r)\<lparr>history := history s\<rparr>)"
    using l by (intro raft_ok_replica [OF ok r]) auto
  then show ?thesis by (simp add: put_def)
qed

lemma voting_step_quiet:
  assumes ok: "raft_ok config s" and r: "replica_ok config u r"
    and v: "voting_step (vote_state (replicas s u)) False t c (vote_state r)"
  shows "raft_ok config (put s u r)"
proof (rule raft_ok_quiet [OF ok r])
  show "current_term r = current_term (replicas s u) \<and> cm_voted_for (cmeta r) = cm_voted_for (cmeta (replicas s u)) \<or>
      current_term (replicas s u) < current_term r \<and> cm_voted_for (cmeta r) = None"
    using v by (auto simp: vote_state_def)
  show "leader_uuid r = '''' \<or> elected config (history s) (current_term r) (leader_uuid r)"
    using v raft_okD(3) [OF ok, of u] by (auto simp: vote_state_def)
qed

lemma voting_step_grant:
  assumes ok: "raft_ok config s" and r: "replica_ok config u r"
    and v: "voting_step (vote_state (replicas s u)) True t c (vote_state r)"
  shows "raft_ok config ((put s u r)\<lparr>history := insert (u, t, c) (history s)\<rparr>)"
proof (rule raft_ok_replica [OF ok r])
  show "history s \<subseteq> insert (u, t, c) (history s)" by blast
  show "history_ok (insert (u, t, c) (history s)) ((replicas s)(u := r))"
    using history_ok_grant [OF raft_okD(2) [OF ok], of u r c t] v by (auto simp: vote_state_def)
  show "elected config (insert (u, t, c) (history s)) (current_term r) (leader_uuid r)" if "leader_uuid r \<noteq> ''''"
  proof -
    have "elected config (history s) (current_term r) (leader_uuid r)"
      using that v raft_okD(3) [OF ok, of u] by (auto simp: vote_state_def)
    then show ?thesis by (rule elected_mono) blast
  qed
qed

lemma voting_step_ok:
  assumes "raft_ok config s" and "replica_ok config u r"
    and "voting_step (vote_state (replicas s u)) g t c (vote_state r)"
  shows "raft_ok config ((put s u r)\<lparr>history := (if g then insert (u, t, c) (history s) else history s)\<rparr>)"
  using voting_step_quiet [OF assms(1,2)] voting_step_grant [OF assms(1,2)] assms(3)
  by (cases g) (simp_all add: put_def)

text \<open>It is kept when an election progresses without changing what it asks.\<close>

lemma raft_ok_progress:
  assumes ok: "raft_ok config s" and i: "i < length (elections s)" "elections s ! i = (data, e)"
    and e': "request e' = request e" "run_election_ok config (history s) e'"
    and C: "\<And>u data res. (u, data, res) \<in> C \<Longrightarrow> decision res \<noteq> kDenied \<Longrightarrow> \<not> preelection res \<Longrightarrow>
      elected config (history s) (election_term res) u"
  shows "raft_ok config (s\<lparr>elections := (elections s)[i := (data, e')], callbacks := C\<rparr>)"
proof -
  note d = raft_okD [OF ok]
  let ?es = "(elections s)[i := (data, e')]"
  have "run_election_ok config (history s) e1" if "(data1, e1) \<in> set ?es" for data1 e1
    using set_update_subset_insert [of "elections s" i "(data, e')"] that d(4) e'(2) by blast
  moreover have "j < length ?es" if "(j, v, resp) \<in> responses s" for j v resp using d(5) [OF that] by simp
  moreover have "response_ok (history s) (request (snd (?es ! j))) resp" if "(j, v, resp) \<in> responses s" for j v resp
    using d(6) [OF that] i e'(1) by (cases "j = i") simp_all
  moreover have sel: "replicas (s\<lparr>elections := ?es, callbacks := C\<rparr>) = replicas s" "elections (s\<lparr>elections := ?es, callbacks := C\<rparr>) = ?es"
    "responses (s\<lparr>elections := ?es, callbacks := C\<rparr>) = responses s" "callbacks (s\<lparr>elections := ?es, callbacks := C\<rparr>) = C"
    "leader_requests (s\<lparr>elections := ?es, callbacks := C\<rparr>) = leader_requests s" "history (s\<lparr>elections := ?es, callbacks := C\<rparr>) = history s"
    by simp_all
  ultimately show ?thesis using d(1,2,3,8) C unfolding raft_ok_def sel by blast
qed

text \<open>It is kept when a replica starts an election.\<close>

lemma raft_ok_started:
  assumes ok: "raft_ok config s" and r: "replica_ok config u r"
    and e: "election_started config u (replicas s u) r e"
  shows "raft_ok config (put_election s u r data (Some e))"
proof -
  define H where "H = (if request_preelection (request e) then history s else insert (u, candidate_term (request e), u) (history s))"
  define s1 where "s1 = (put s u r)\<lparr>history := H\<rparr>"
  have e': "election_ok config e" "candidate_uuid (request e) = u" "preelection (result e) = request_preelection (request e)"
      "election_term (result e) = candidate_term (request e)" "votes (vote_counter e) = (\<lambda>_. None)(u \<mapsto> kGranted)"
      "voting_step (vote_state (replicas s u)) (\<not> request_preelection (request e)) (candidate_term (request e)) u (vote_state r)"
    using e unfolding election_started_def by blast+
  have "raft_ok config s1"
    using voting_step_ok [OF ok r e'(6)] unfolding s1_def H_def by (cases "request_preelection (request e)") simp_all
  note d = raft_okD [OF this]
  have s1: "put_election s u r data (Some e) = s1\<lparr>elections := elections s1 @ [(data, e)]\<rparr>" "history s1 = H"
    by (simp_all add: put_election_def s1_def H_def put_def)
  have "(v, candidate_term (request e), candidate_uuid (request e)) \<in> H"
    if "\<not> request_preelection (request e)" "votes (vote_counter e) v = Some kGranted" for v
    using that e'(2,5) unfolding H_def by (simp split: if_splits)
  then have run: "run_election_ok config (history s1) e" using e'(1,3,4) s1(2) unfolding run_election_ok_def by blast
  have "run_election_ok config (history s1) e1" if "(data1, e1) \<in> set (elections s1 @ [(data, e)])" for data1 e1
    using that d(4) run by auto
  moreover have "j < length (elections s1 @ [(data, e)])" if "(j, v, resp) \<in> responses s1" for j v resp
    using d(5) [OF that] by simp
  moreover have "response_ok (history s1) (request (snd ((elections s1 @ [(data, e)]) ! j))) resp"
    if "(j, v, resp) \<in> responses s1" for j v resp
    using d(5,6) [OF that] by (simp add: nth_append)
  moreover have sel: "replicas (s1\<lparr>elections := es\<rparr>) = replicas s1" "elections (s1\<lparr>elections := es\<rparr>) = es"
    "responses (s1\<lparr>elections := es\<rparr>) = responses s1" "callbacks (s1\<lparr>elections := es\<rparr>) = callbacks s1"
    "leader_requests (s1\<lparr>elections := es\<rparr>) = leader_requests s1" "history (s1\<lparr>elections := es\<rparr>) = history s1" for es
    by simp_all
  ultimately show ?thesis using d(1,2,3,7,8) unfolding s1(1) raft_ok_def sel by blast
qed

lemma raft_ok_vote:
  assumes ok: "raft_ok config s" and v: "VerifyRaftConfig config COMMITTED_QUORUM = Inr ()"
    and i: "i < length (elections s)" "elections s ! i = (data, e)"
    and r: "RequestVote busy now coarse_now (replicas s v) (request e) = Inr (r, resp)"
  shows "raft_ok config ((put s v r)\<lparr>responses := insert (i, v, resp) (responses s),
      history := (if vote_granted resp \<and> \<not> request_preelection (request e)
                  then insert (v, candidate_term (request e), candidate_uuid (request e)) (history s) else history s)\<rparr>)"
proof -
  define H where "H = (if vote_granted resp \<and> \<not> request_preelection (request e)
    then insert (v, candidate_term (request e), candidate_uuid (request e)) (history s) else history s)"
  define s1 where "s1 = (put s v r)\<lparr>history := H\<rparr>"
  have R: "replica_ok config v r" "answer_of v (request e) resp" "voting_step (vote_state (replicas s v))
      (vote_granted resp \<and> \<not> request_preelection (request e)) (candidate_term (request e)) (candidate_uuid (request e)) (vote_state r)"
    using RequestVote_ok [OF raft_okD(1) [OF ok, of v] v, of busy now coarse_now "request e"] r by auto
  have "raft_ok config s1" using voting_step_ok [OF ok R(1,3)] unfolding s1_def H_def .
  note d = raft_okD [OF this]
  define A where "A = insert (i, v, resp) (responses s)"
  have es: "elections s1 = elections s" "responses s1 = responses s" "history s1 = H" by (simp_all add: s1_def put_def)
  have new: "response_ok H (request e) resp" using R(2) by (simp add: response_ok_def H_def answer_of_def)
  have resps: "j < length (elections s1) \<and> response_ok (history s1) (request (snd (elections s1 ! j))) resp'"
    if "(j, w, resp') \<in> A" for j w resp'
  proof (cases "(j, w, resp') \<in> responses s1")
    case True
    then show ?thesis using d(5,6) by blast
  next
    case False
    then have "j = i" "resp' = resp" using that es(2) unfolding A_def by blast+
    then show ?thesis using new i unfolding es by simp
  qed
  have sel: "replicas (s1\<lparr>responses := R\<rparr>) = replicas s1" "elections (s1\<lparr>responses := R\<rparr>) = elections s1"
    "responses (s1\<lparr>responses := R\<rparr>) = R" "callbacks (s1\<lparr>responses := R\<rparr>) = callbacks s1"
    "leader_requests (s1\<lparr>responses := R\<rparr>) = leader_requests s1" "history (s1\<lparr>responses := R\<rparr>) = history s1" for R
    by simp_all
  have "raft_ok config (s1\<lparr>responses := A\<rparr>)"
    by (rule raft_okI, unfold sel) (rule d(1,2,3) | erule d(4,7,8) resps; assumption?)+
  moreover have "s1\<lparr>responses := A\<rparr> = (put s v r)\<lparr>responses := A, history := H\<rparr>" by (simp add: s1_def)
  ultimately show ?thesis unfolding H_def A_def by (simp only:)
qed

lemma raft_ok_answer:
  assumes ok: "raft_ok config s" and i: "i < length (elections s)" "elections s ! i = (data, e)"
    and v: "v \<in> set (voting_follower_uuids e)" and rpc: "rpc_ok \<longrightarrow> (i, v, resp) \<in> responses s"
    and a: "VoteResponse now e v rpc_ok resp = Inr (e', check)"
  shows "raft_ok config (s\<lparr>elections := (elections s)[i := (data, e')]\<rparr>)"
proof -
  have run: "run_election_ok config (history s) e" using raft_okD(4) [OF ok] i nth_mem by metis
  then have e: "election_ok config e" unfolding run_election_ok_def by blast
  let ?grant = "rpc_ok \<and> \<not> has_error resp \<and> responder_uuid resp = v \<and> vote_granted resp \<and>
           (preelection (result e) \<longrightarrow> response_preelection resp)"
  have e': "election_ok config e'" "e' = e \<or> answered_by e v ?grant e'"
    using VoteResponse_ok [OF e v, of now rpc_ok resp] a by (metis Inr_inject prod.inject)+
  have new: "(v, candidate_term (request e), candidate_uuid (request e)) \<in> history s"
    if "?grant" "\<not> request_preelection (request e)"
    using that rpc raft_okD(6) [OF ok, of i v resp] i by (simp add: response_ok_def)
  have "request e' = request e \<and> run_election_ok config (history s) e'"
    using e'(2)
  proof
    assume "answered_by e v ?grant e'"
    then show ?thesis using run e'(1) new unfolding run_election_ok_def answered_by_def by metis
  qed (use run in simp)
  then have "raft_ok config (s\<lparr>elections := (elections s)[i := (data, e')], callbacks := callbacks s\<rparr>)"
    by (intro raft_ok_progress [OF ok i]) (use raft_okD(7) [OF ok] in blast)+
  then show ?thesis by simp
qed

lemma raft_ok_check:
  assumes ok: "raft_ok config s" and i: "i < length (elections s)" "elections s ! i = (data, e)"
    and c: "CheckForDecision e = (e', call)"
  shows "raft_ok config (s\<lparr>elections := (elections s)[i := (data, e')],
      callbacks := (case call of None \<Rightarrow> callbacks s | Some res \<Rightarrow> insert (candidate_uuid (request e), data, res) (callbacks s))\<rparr>)"
proof -
  have run: "run_election_ok config (history s) e" using raft_okD(4) [OF ok] i nth_mem by metis
  then have e: "election_ok config e" unfolding run_election_ok_def by blast
  note C = CheckForDecision_ok [OF e c]
  have run': "run_election_ok config (history s) e'" using run C(1-6) unfolding run_election_ok_def by metis
  have "elected config (history s) (election_term res) (candidate_uuid (request e))"
    if "call = Some res" "decision res \<noteq> kDenied" "\<not> preelection res" for res
  proof -
    have res: "res = result e'" "has_responded e'" using C(7,9) that(1) by auto
    then have "decision (result e') = kGranted"
      using C(1) that(2) unfolding election_ok_def decided_def by (metis ElectionVote.exhaust)
    then have "majority config (voted (vote_counter e') kGranted)"
      using C(1) granted_majority unfolding election_ok_def by blast
    then show ?thesis using run' that(3) C(3,6) res(1) unfolding elected_def run_election_ok_def voted_def
      by (intro exI [of _ "{v. votes (vote_counter e') v = Some kGranted}"]) auto
  qed
  then show ?thesis
    by (intro raft_ok_progress [OF ok i C(3) run']) (use raft_okD(7) [OF ok] in \<open>auto split: option.splits\<close>)
qed

lemma raft_ok_callback:
  assumes ok: "raft_ok config s" and v: "VerifyRaftConfig config COMMITTED_QUORUM = Inr ()"
    and cb: "(u, data, res) \<in> callbacks s" and c: "DoElectionCallback use_pre ci (replicas s u) data res = Inr (r, eo)"
  shows "raft_ok config (put_election s u r data eo)"
proof -
  note D = DoElectionCallback_ok(1) [OF raft_okD(1) [OF ok] v c] DoElectionCallback_ok(2) [OF raft_okD(1) [OF ok] v c, of 0 "''''"]
  show ?thesis
  proof (cases eo)
    case (Some e)
    then show ?thesis using raft_ok_started [OF ok D(1)] D(2) by simp
  next
    case None
    then have p: "put_election s u r data eo = put s u r" by (simp add: put_election_def)
    from None D(2) consider (quiet) "voting_step (vote_state (replicas s u)) False 0 '''' (vote_state r)"
      | (win) "decision res \<noteq> kDenied" "\<not> preelection res" "election_term res = current_term (replicas s u)"
        "vote_state r = (current_term (replicas s u), cm_voted_for (cmeta (replicas s u)), u)"
      by auto
    then show ?thesis
    proof cases
      case quiet
      then show ?thesis unfolding p by (rule voting_step_quiet [OF ok D(1)])
    next
      case win
      then show ?thesis unfolding p using raft_okD(7) [OF ok cb] by (intro raft_ok_quiet [OF ok D(1)]) (simp_all add: vote_state_def)
    qed
  qed
qed

lemma leader_request_ok:
  assumes ok: "raft_ok config s" and v: "VerifyRaftConfig config COMMITTED_QUORUM = Inr ()"
    and l: "(c, t) \<in> leader_requests s"
  obtains r where "CheckLeaderRequestUnlocked log_matches (replicas s u) c t = Inr r" and "raft_ok config (put s u r)"
proof -
  have el: "elected config (history s) t c" by (rule raft_okD(8) [OF ok l])
  have agree: "leader_uuid r1 = '''' \<or> leader_uuid r1 = c"
    if "vote_state r1 = vote_state (replicas s u) \<or> current_term (replicas s u) < t \<and> vote_state r1 = (t, None, '''')"
      "current_term r1 = t" for r1
    using that raft_okD(3) [OF ok, of u] elected_unique [OF raft_okD(2) [OF ok] el] by (auto simp: vote_state_def)
  obtain r where r: "CheckLeaderRequestUnlocked log_matches (replicas s u) c t = Inr r" "replica_ok config u r"
    "voting_step (vote_state (replicas s u)) False t c (vote_state r) \<or>
      current_term r = t \<and> leader_uuid r = c \<and>
      (cm_voted_for (cmeta r) = cm_voted_for (cmeta (replicas s u)) \<and> current_term (replicas s u) = t \<or>
       cm_voted_for (cmeta r) = None \<and> current_term (replicas s u) < t)"
    by (rule CheckLeaderRequest_ok [OF raft_okD(1) [OF ok, of u] v, of t c log_matches]) (use agree in blast)
  have "raft_ok config (put s u r)"
    using r(3)
  proof
    assume "voting_step (vote_state (replicas s u)) False t c (vote_state r)"
    then show ?thesis by (rule voting_step_quiet [OF ok r(2)])
  next
    assume "current_term r = t \<and> leader_uuid r = c \<and>
      (cm_voted_for (cmeta r) = cm_voted_for (cmeta (replicas s u)) \<and> current_term (replicas s u) = t \<or>
       cm_voted_for (cmeta r) = None \<and> current_term (replicas s u) < t)"
    then show ?thesis using el by (intro raft_ok_quiet [OF ok r(2)]) auto
  qed
  with r(1) show ?thesis by (rule that)
qed

lemma voter_uuid_nonempty:
  assumes "VerifyRaftConfig config COMMITTED_QUORUM = Inr ()" and "IsRaftConfigVoter u config"
  shows "u \<noteq> ''''"
  using assms
  by (auto simp: VerifyRaftConfig_iff raft_config_ok_def IsRaftConfigVoter_def peer_ok_def list_all_iff
      split: option.splits dest!: find_peer_Some)

lemma raft_ok_send:
  assumes "raft_ok config s" and "elected config (history s) t c"
  shows "raft_ok config (s\<lparr>leader_requests := insert (c, t) (leader_requests s)\<rparr>)"
proof -
  note d = raft_okD [OF assms(1)]
  have sel: "replicas (s\<lparr>leader_requests := R\<rparr>) = replicas s" "elections (s\<lparr>leader_requests := R\<rparr>) = elections s"
    "responses (s\<lparr>leader_requests := R\<rparr>) = responses s" "callbacks (s\<lparr>leader_requests := R\<rparr>) = callbacks s"
    "leader_requests (s\<lparr>leader_requests := R\<rparr>) = R" "history (s\<lparr>leader_requests := R\<rparr>) = history s" for R
    by simp_all
  have r: "i < length (elections s) \<and> response_ok (history s) (request (snd (elections s ! i))) resp"
    if "(i, v, resp) \<in> responses s" for i v resp using d(5,6) [OF that] by blast
  have l: "elected config (history s) t' c'" if "(c', t') \<in> insert (c, t) (leader_requests s)" for c' t'
    using that assms(2) d(8) by blast
  show ?thesis by (rule raft_okI, unfold sel) (rule d(1,2,3) | erule d(4,7) r l; assumption?)+
qed

lemma Load_ok:
  assumes "replica_ok config u r"
  shows "replica_ok config u (r'\<lparr>cmeta := Load (cmeta r)\<rparr>)"
    and "vote_state (r'\<lparr>cmeta := Load (cmeta r)\<rparr>) = (current_term r, cm_voted_for (cmeta r), '''')"
  using assms by (simp_all add: replica_ok_def vote_state_def Load_def)

lemma raft_step_ok:
  assumes "raft_step s s'" and ok: "raft_ok config s" and v: "VerifyRaftConfig config COMMITTED_QUORUM = Inr ()"
  shows "raft_ok config s'"
  using assms(1)
proof cases
  case (start use_pre ci u data pre r eo)
  note D = DoStartElection_ok [OF raft_okD(1) [OF ok] v start(2)]
  show ?thesis
  proof (cases eo)
    case None
    then show ?thesis using start D voting_step_quiet [OF ok D(1), of 0 "''''"] by (simp add: put_election_def vote_state_def)
  next
    case (Some e)
    then show ?thesis using start(1) D(2) raft_ok_started [OF ok D(1), of e data] by simp
  qed
next
  case (vote i data e v' busy now coarse_now r resp)
  show ?thesis unfolding vote(1) by (rule raft_ok_vote [OF ok v vote(2,3,5)])
next
  case (answer i data e v' rpc_ok resp now e' check)
  show ?thesis unfolding answer(1) by (rule raft_ok_answer [OF ok answer(2-6)])
next
  case (check i data e e' call)
  show ?thesis unfolding check(1) by (rule raft_ok_check [OF ok check(2-4)])
next
  case (callback u data res use_pre ci r eo)
  show ?thesis unfolding callback(1) by (rule raft_ok_callback [OF ok v callback(2,3)])
next
  case (advance u t r)
  then obtain "replica_ok config u r" "vote_state r = (t, None, '''')" "current_term (replicas s u) < t"
    using HandleTermAdvance_ok [OF raft_okD(1) [OF ok, of u] v, of t] by (cases "current_term (replicas s u) < t") auto
  then show ?thesis unfolding advance(1) by (intro raft_ok_quiet [OF ok]) (simp_all add: vote_state_def)
next
  case (step_down u)
  note B = BecomeReplica_ok [OF raft_okD(1) [OF ok, of u]]
  show ?thesis unfolding step_down using B by (intro raft_ok_quiet [OF ok]) (simp_all add: vote_state_def)
next
  case (leader_send u)
  have "elected config (history s) (current_term (replicas s u)) u"
    using leader_is_self [OF raft_okD(1) [OF ok] leader_send(2)] raft_okD(3) [OF ok, of u] voter_uuid_nonempty [OF v] by metis
  then show ?thesis unfolding leader_send(1) by (rule raft_ok_send [OF ok])
next
  case (leader_receive c t log_matches u r)
  show ?thesis unfolding leader_receive(1)
    by (rule leader_request_ok [OF ok v leader_receive(2), of log_matches u]) (use leader_receive(3) in simp)
next
  case (restart u config')
  note L = Load_ok [OF raft_okD(1) [OF ok, of u]]
  show ?thesis unfolding restart using L by (intro raft_ok_quiet [OF ok]) (simp_all add: vote_state_def)
next
  case (environment r u)
  then have "replica_ok config u r" using same_cmeta [of r "replicas s u" config u] raft_okD(1) [OF ok, of u] by simp
  then show ?thesis unfolding environment(1) using environment(2) raft_okD(3) [OF ok, of u]
    by (intro raft_ok_quiet [OF ok]) simp_all
qed

lemma initial_system_ok: "raft_ok config (initial_system config)"
  unfolding raft_ok_def initial_system_def
  by (simp add: replica_ok_def initial_replica_def history_ok_def)

lemma raft_reachable_ok:
  assumes "raft_reachable config s" and "VerifyRaftConfig config COMMITTED_QUORUM = Inr ()"
  shows "raft_ok config s"
  using assms(1) by induction (use initial_system_ok raft_step_ok assms(2) in blast)+

section \<open>Properties\<close>

text \<open>
  C1: At most one leader in a term. In every state that the replicas of a tablet with a valid
  configuration reach, through any interleaving of elections, votes, answers, callbacks, leader
  requests and restarts, with messages lost, delayed or repeated, two replicas that act as leader
  in the same term are the same replica.
\<close>

theorem raft_election_safety:
  assumes "VerifyRaftConfig config COMMITTED_QUORUM = Inr ()" and "raft_reachable config s"
    and "active_role (replicas s u) = LEADER" and "active_role (replicas s v) = LEADER"
    and "current_term (replicas s u) = current_term (replicas s v)"
  shows "u = v"
proof -
  note ok = raft_reachable_ok [OF assms(2,1)]
  have "elected config (history s) (current_term (replicas s w)) w" if "active_role (replicas s w) = LEADER" for w
    using leader_is_self [OF raft_okD(1) [OF ok] that] raft_okD(3) [OF ok, of w] voter_uuid_nonempty [OF assms(1)] by metis
  then show ?thesis using elected_unique [OF raft_okD(2) [OF ok]] assms(3-5) by metis
qed

text \<open>
  C4: The handlers of a reachable system never end the process. A replica that receives a request
  that a leader has sent answers it, whatever became of the terms and leaders in the meantime: the
  check for an unexpected new leader in the same term, which is fatal, never fires. A vote request,
  whatever it says, is answered too by a replica that runs, and one that does not refuses it with a status.
\<close>

theorem raft_handlers_never_crash:
  assumes "VerifyRaftConfig config COMMITTED_QUORUM = Inr ()" and "raft_reachable config s"
  shows "((c, t) \<in> leader_requests s \<longrightarrow>
      (\<exists>r. CheckLeaderRequestUnlocked log_matches (replicas s u) c t = Inr r)) \<and>
    (if running (replicas s u)
     then \<exists>r resp. RequestVote busy now coarse_now (replicas s u) req = Inr (r, resp)
     else RequestVote busy now coarse_now (replicas s u) req = Inl (Status IllegalState))"
proof -
  note ok = raft_reachable_ok [OF assms(2,1)]
  have "\<exists>r. CheckLeaderRequestUnlocked log_matches (replicas s u) c t = Inr r" if "(c, t) \<in> leader_requests s"
    by (rule leader_request_ok [OF ok assms(1) that, of log_matches u]) blast
  moreover have "RequestVote busy now coarse_now (replicas s u) req = Inl (Status IllegalState)"
    if "\<not> running (replicas s u)"
    using that by (simp add: RequestVote_def LockForConfigChange_def)
  ultimately show ?thesis using RequestVote_ok [OF raft_okD(1) [OF ok, of u] assms(1), of busy now coarse_now req] by auto
qed

text \<open>Three replicas elect the first of them, which then sends a request.\<close>

definition sample_data :: LeaderElectionData where
  "sample_data = \<lparr>even_if_leader_is_alive = False, pending_commit = False, must_be_committed_opid = \<lparr>pb_term = None, pb_index = None\<rparr>\<rparr>"

definition sample_elects :: bool where
  "sample_elects \<longleftrightarrow>
     (case DoStartElection False 0 (initial_replica sample_config ''a'') sample_data False of
        Inr (r1, Some e1) \<Rightarrow>
          (case RequestVote False 5 0 (initial_replica sample_config ''b'') (request e1) of
             Inr (rb, resp) \<Rightarrow>
               (case VoteResponse 0 e1 ''b'' True resp of
                  Inr (e2, _) \<Rightarrow>
                    (case CheckForDecision e2 of
                       (e3, Some res) \<Rightarrow>
                         (case DoElectionCallback False 0 r1 sample_data res of
                            Inr (r3, None) \<Rightarrow> active_role r3 = LEADER \<and> current_term r3 = 1 \<and>
                              ''b'' \<in> set (voting_follower_uuids e1) \<and> candidate_uuid (request e2) = ''a''
                          | _ \<Rightarrow> False)
                     | _ \<Rightarrow> False)
                | _ \<Rightarrow> False)
           | _ \<Rightarrow> False)
      | _ \<Rightarrow> False)"

lemma case_result_pair:
  "(case x of Inl _ \<Rightarrow> False | Inr (a, b) \<Rightarrow> P a b) \<Longrightarrow> \<exists>a b. x = Inr (a, b) \<and> P a b"
  by (cases x) auto

lemma case_result_started:
  "(case x of Inl _ \<Rightarrow> False | Inr (a, None) \<Rightarrow> False | Inr (a, Some b) \<Rightarrow> P a b) \<Longrightarrow> \<exists>a b. x = Inr (a, Some b) \<and> P a b"
  by (auto split: sum.splits option.splits)

lemma case_result_done:
  "(case x of Inl _ \<Rightarrow> False | Inr (a, None) \<Rightarrow> P a | Inr (a, Some b) \<Rightarrow> False) \<Longrightarrow> \<exists>a. x = Inr (a, None) \<and> P a"
  by (auto split: sum.splits option.splits)

lemma case_decided:
  "(case x of (a, None) \<Rightarrow> False | (a, Some b) \<Rightarrow> P a b) \<Longrightarrow> \<exists>a b. x = (a, Some b) \<and> P a b"
  by (auto split: prod.splits option.splits)

lemma sample_elects: sample_elects
  by code_simp

lemma sample_leader:
  obtains s where "raft_reachable sample_config s" and "active_role (replicas s ''a'') = LEADER"
    and "current_term (replicas s ''a'') = 1" and "(''a'', 1) \<in> leader_requests s"
proof -
  obtain r1 e1 rb resp e2 check e3 res r3 where
    start: "DoStartElection False 0 (initial_replica sample_config ''a'') sample_data False = Inr (r1, Some e1)" and
    vote: "RequestVote False 5 0 (initial_replica sample_config ''b'') (request e1) = Inr (rb, resp)" and
    answer: "VoteResponse 0 e1 ''b'' True resp = Inr (e2, check)" and check: "CheckForDecision e2 = (e3, Some res)" and
    callback: "DoElectionCallback False 0 r1 sample_data res = Inr (r3, None)" and
    leader: "active_role r3 = LEADER" "current_term r3 = 1" "''b'' \<in> set (voting_follower_uuids e1)" "candidate_uuid (request e2) = ''a''"
    using case_result_started [OF sample_elects [unfolded sample_elects_def]]
    by - (elim exE conjE, drule case_result_pair, elim exE conjE, drule case_result_pair, elim exE conjE,
        drule case_decided, elim exE conjE, drule case_result_done, blast)
  note R = raft_reachable.step
  define s0 where "s0 = initial_system sample_config"
  have s0: "raft_reachable sample_config s0" "replicas s0 = initial_replica sample_config" "elections s0 = []"
    unfolding s0_def by (rule raft_reachable.init) (simp_all add: initial_system_def)
  define s1 where "s1 = put_election s0 ''a'' r1 sample_data (Some e1)"
  have "raft_step s0 s1" unfolding s1_def using start s0(2) by (intro raft_step.start) simp
  then have s1: "raft_reachable sample_config s1" "replicas s1 = (replicas s0)(''a'' := r1)" "elections s1 = [(sample_data, e1)]"
    using R [OF s0(1)] s0 by (auto simp: s1_def put_election_def put_def)
  define s2 where "s2 = (put s1 ''b'' rb)\<lparr>responses := insert (0, ''b'', resp) (responses s1),
      history := (if vote_granted resp \<and> \<not> request_preelection (request e1)
                  then insert (''b'', candidate_term (request e1), candidate_uuid (request e1)) (history s1) else history s1)\<rparr>"
  have "raft_step s1 s2" unfolding s2_def using s0 s1 vote leader(3) by (intro raft_step.vote) simp_all
  then have s2: "raft_reachable sample_config s2" "replicas s2 ''a'' = r1" "elections s2 = [(sample_data, e1)]" "(0, ''b'', resp) \<in> responses s2"
    using R [OF s1(1)] s1 by (auto simp: s2_def put_def)
  define s3 where "s3 = s2\<lparr>elections := (elections s2)[0 := (sample_data, e2)]\<rparr>"
  have "raft_step s2 s3" unfolding s3_def using s2 answer leader(3) by (intro raft_step.answer) simp_all
  then have s3: "raft_reachable sample_config s3" "replicas s3 ''a'' = r1" "elections s3 = [(sample_data, e2)]"
    using R [OF s2(1)] s2 by (auto simp: s3_def)
  define s4 where "s4 = s3\<lparr>elections := (elections s3)[0 := (sample_data, e3)],
      callbacks := (case Some res of None \<Rightarrow> callbacks s3 | Some res \<Rightarrow> insert (candidate_uuid (request e2), sample_data, res) (callbacks s3))\<rparr>"
  have "raft_step s3 s4" unfolding s4_def using s3 check by (intro raft_step.check) simp_all
  then have s4: "raft_reachable sample_config s4" "replicas s4 ''a'' = r1" "(''a'', sample_data, res) \<in> callbacks s4"
    using R [OF s3(1)] s3 leader(4) by (auto simp: s4_def)
  define s5 where "s5 = put_election s4 ''a'' r3 sample_data None"
  have "raft_step s4 s5" unfolding s5_def using s4 callback by (intro raft_step.callback) simp_all
  then have s5: "raft_reachable sample_config s5" "replicas s5 ''a'' = r3"
    using R [OF s4(1)] by (auto simp: s5_def put_election_def put_def)
  have "raft_step s5 (s5\<lparr>leader_requests := insert (''a'', current_term (replicas s5 ''a'')) (leader_requests s5)\<rparr>)"
    using s5(2) leader(1) by (intro raft_step.leader_send) simp
  from R [OF s5(1) this] show ?thesis by (rule that) (use s5(2) leader(1,2) in simp_all)
qed

text \<open>Non-vacuity of \<open>raft_election_safety\<close>: a leader is elected and is the only one of its term.\<close>

theorem raft_election_safety_witness:
  "\<exists>s. raft_reachable sample_config s \<and> active_role (replicas s ''a'') = LEADER \<and> current_term (replicas s ''a'') = 1 \<and>
     {v. active_role (replicas s v) = LEADER \<and> current_term (replicas s v) = 1} = {''a''}"
proof -
  obtain s where s: "raft_reachable sample_config s" "active_role (replicas s ''a'') = LEADER" "current_term (replicas s ''a'') = 1"
    by (rule sample_leader)
  have "v = ''a''" if "active_role (replicas s v) = LEADER" "current_term (replicas s v) = 1" for v
    using raft_election_safety [OF sample_config_ok(1) s(1) that(1) s(2)] that(2) s(3) by simp
  then have "{v. active_role (replicas s v) = LEADER \<and> current_term (replicas s v) = 1} = {''a''}" using s(2,3) by blast
  with s show ?thesis by blast
qed

text \<open>Non-vacuity of \<open>raft_handlers_never_crash\<close>: a leader sends a request, and it is answered.\<close>

theorem raft_handlers_never_crash_witness:
  "\<exists>s. raft_reachable sample_config s \<and> (''a'', 1) \<in> leader_requests s \<and>
     (\<exists>r. CheckLeaderRequestUnlocked True (replicas s ''c'') ''a'' 1 = Inr r)"
proof -
  obtain s where s: "raft_reachable sample_config s" "(''a'', 1) \<in> leader_requests s" by (rule sample_leader)
  then show ?thesis using raft_handlers_never_crash [OF sample_config_ok(1) s(1)] by blast
qed

end
