(* ===== verification/Spec2Isabelle.thy ===== *)
theory Spec2Isabelle
  imports Mvcc_System Decimal_Arith Uuid_Inet Shared_Lock_Manager Lock_Batch Raft_Election
begin

text \<open>
  A verification development for the storage and replication core of the database under
  \<^verbatim>\<open>src/src/yb\<close>. Paths below are relative to that directory.

  \<^bold>\<open>The program.\<close> A table is split into tablets, each replicated by Raft (\<^verbatim>\<open>consensus\<close>). The
  leader of a tablet gives every operation a hybrid time from its clock (\<^verbatim>\<open>server\<close>, \<^verbatim>\<open>common\<close>),
  and its MVCC manager (\<^verbatim>\<open>tablet\<close>) tells readers up to which time nothing more will be written.
  Writers lock the keys they touch (\<^verbatim>\<open>docdb\<close>). The rows are stored under byte strings in RocksDB,
  whose bytewise order has to be the order of the values; the encodings of the parts of a key are in
  \<^verbatim>\<open>docdb\<close> and \<^verbatim>\<open>util\<close>.

  \<^bold>\<open>How code is modelled.\<close> A function is a HOL function from its arguments and the state it reads
  to its result and the state it leaves. A returned status is \<open>Inl (Status code)\<close>, without its
  message; a failed \<^verbatim>\<open>CHECK\<close> or \<^verbatim>\<open>LOG(FATAL)\<close> is \<open>Inl Fatal\<close>, undefined behaviour \<open>Inl Undefined\<close>.
  \<^verbatim>\<open>DCHECK\<close>, \<^verbatim>\<open>LOG(DFATAL)\<close> and metrics do nothing in a release build and are left out, except
  where the source tests \<^verbatim>\<open>NDEBUG\<close> itself. Machine integers are words where they wrap around or
  where bits count, and integers where nothing is computed with them. Threads are step relations
  with one atomic operation, or one critical section, per step; what the code reads from outside (a
  clock, the log, the outcome of a remote call) is an argument and may be anything.

  \<^bold>\<open>Theories, in the order of their imports.\<close>

  \<^item> \<open>Prelude\<close>: results and status codes (\<^verbatim>\<open>util/status.h\<close>, \<^verbatim>\<open>util/result.h\<close>), slices and their
    bytewise order (\<^verbatim>\<open>util/slice.h\<close>), big-endian numbers, lemmas on lists and words.
  \<^item> \<open>Hybrid_Time\<close> (\<^verbatim>\<open>common/hybrid_time.h\<close>): components, order, merging of hybrid times.
  \<^item> \<open>Hybrid_Clock\<close> (\<^verbatim>\<open>server/hybrid_clock.cc\<close>, \<^verbatim>\<open>server/logical_clock.cc\<close>,
    \<^verbatim>\<open>util/physical_time.cc\<close>): the clocks, sequential and with any number of threads in their
    compare-and-swap loops. The times issued increase; every step of the loops is a whole sequential
    operation or changes nothing. The locale \<open>clock_contract\<close> is what \<^verbatim>\<open>server/clock.h\<close> asks of a
    clock, interpreted on both clocks.
  \<^item> \<open>Mvcc_Manager\<close>, \<open>Mvcc_System\<close> (\<^verbatim>\<open>tablet/mvcc.h\<close>, \<^verbatim>\<open>tablet/mvcc.cc\<close>): the manager, and every
    sequence of calls on it together with a clock. A safe time is never overtaken by an operation and
    no check fails, for any clock that keeps the contract.
  \<^item> \<open>Fast_Varint\<close> (\<^verbatim>\<open>util/fast_varint.cc\<close>), \<open>Doc_Hybrid_Time\<close> (\<^verbatim>\<open>common/doc_hybrid_time.cc\<close>),
    \<open>Value_Type\<close> (\<^verbatim>\<open>docdb/value_type.h\<close>), \<open>Kv_Util\<close> (\<^verbatim>\<open>util/kv_util.h\<close>, \<^verbatim>\<open>docdb/doc_kv_util.cc\<close>),
    \<open>Var_Int\<close> (\<^verbatim>\<open>util/varint.cc\<close>), \<open>Decimal_Number\<close> and \<open>Decimal_Arith\<close> (\<^verbatim>\<open>util/decimal.cc\<close>),
    \<open>Uuid_Inet\<close> (\<^verbatim>\<open>util/uuid.h\<close>, \<^verbatim>\<open>util/net/inetaddress.cc\<close>): the values in keys. Each encoding is
    read back, whatever follows it, and sorts as the values do, also inside longer keys; descending
    encodings sort in reverse. The sum of decimal numbers is exact, and the encoding of the client
    protocol succeeds exactly when the scale has 32 bits.
  \<^item> \<open>Intent_Types\<close> (\<^verbatim>\<open>docdb/intent.cc\<close>, \<^verbatim>\<open>util/enums.h\<close>), \<open>Shared_Lock_Manager\<close> and \<open>Lock_Batch\<close>
    (\<^verbatim>\<open>docdb/shared_lock_manager.cc\<close>, \<^verbatim>\<open>docdb/lock_batch.cc\<close>): the locks on keys. The concurrent
    part is the step relation \<open>entry_step\<close>: conflicting locks are never held together and no wake-up
    is lost. The reservations of whole batches have exact reference counts, and a batch is locked
    completely or not at all.
  \<^item> \<open>Op_Id\<close> (\<^verbatim>\<open>util/opid.h\<close>, \<^verbatim>\<open>consensus/opid_util.cc\<close>): operation ids and their order, an instance
    of \<^verbatim>\<open>linorder\<close>.
  \<^item> \<open>Quorum_Util\<close> (\<^verbatim>\<open>consensus/quorum_util.cc\<close>): configurations, their validation, majorities. The
    locale \<open>quorum_system\<close> is what elections rely on, that two quorums meet; it is interpreted on the
    majorities of a valid configuration.
  \<^item> \<open>Leader_Election\<close> (\<^verbatim>\<open>consensus/leader_election.cc\<close>, \<^verbatim>\<open>consensus/leader_lease.h\<close>): the counter of
    votes and one election, with its answers and checks in any order. It decides once, and a win has
    the votes of a majority.
  \<^item> \<open>Raft_Replica\<close> (\<^verbatim>\<open>consensus/raft_consensus.cc\<close>, \<^verbatim>\<open>consensus/replica_state.cc\<close>,
    \<^verbatim>\<open>consensus/consensus_meta.cc\<close>): terms, votes, the start and the end of elections, the acceptance
    of a leader. \<open>Raft_Handlers\<close> has what each of these does to the term, the vote and the leader of a
    replica. \<open>Raft_Election\<close> composes replicas, elections and messages to a system: the step relation
    \<open>raft_step\<close> runs one handler at one replica; messages are lost, delayed and repeated, replicas
    restart from disk, logs and timers change freely. There is at most one leader in a term.

  \<^bold>\<open>Parameters for code outside the repository.\<close> The functions of OpenSSL on big numbers are the record
  \<open>BN\<close> with \<open>BN_documented\<close>, the version of a UUID of boost is a function with
  \<open>version_documented\<close>; both hypotheses state the manuals, and the witnesses instantiate them. A
  \<^verbatim>\<open>float\<close> or \<^verbatim>\<open>double\<close> is its bit pattern of IEEE 754.

  \<^bold>\<open>Bounds and termination.\<close> There is no fuel: loops over lists are structural recursions and the
  others have termination proofs. Loops that wait for other threads are steps of a relation, and
  that they get on is proved (\<open>lock_no_lost_wakeup\<close>, \<open>election_decides_once\<close>). Where a property holds
  up to a size only (a \<^verbatim>\<open>BIGNUM\<close> that OpenSSL can hold, the counts of decimal digits that the code keeps in
  an \<^verbatim>\<open>int\<close>, the counters of 16 bits of a lock, terms below the largest \<^verbatim>\<open>int64_t\<close>, clocks below the
  largest hybrid time), the bound is a hypothesis or a branch of the model. What comes beyond it is in the model too where the code goes on: the comparison, the
  sum and the encoding of decimal numbers have branches for the \<^verbatim>\<open>int\<close> that wraps or overflows.

  \<^bold>\<open>Witnesses.\<close> A property with hypotheses is followed by a theorem that applies it to a concrete
  input; samples of configurations, batches and runs are defined next to them.

  \<^bold>\<open>Not modelled.\<close> Of Raft: the log, replication and commitment of operations, the peer queue, timers
  and changes of the configuration while elections run (the properties of the system are for a fixed
  configuration; removal of one server is treated in \<open>Quorum_Util\<close>). Of decimal numbers: the
  conversion from \<^verbatim>\<open>double\<close>, which prints with the standard library, and JSON. Of UUIDs and
  addresses: parsing of text and the generators, which call boost. Of the clocks: NTP and the
  command-line flags. Not touched at all: RocksDB and PostgreSQL, which are other programs adapted to
  this one, the query layers, the master, the client, remote procedure calls, and the parts that are
  input and output or generated code; they rest on the components above but are far larger than
  them, and their correctness is a matter of their own.
\<close>

end
